(* ===== verification/Prelude.thy ===== *)
theory Prelude
  imports Main "HOL-Library.Word" "HOL-Library.Monad_Syntax"
begin

unbundle bit_operations_syntax

text \<open>
  The shared vocabulary of the development: Rust's unsigned integers as words, its checked and
  saturating arithmetic, \<open>Result\<close> values, the convention for panics, and the word and list facts
  the component theories share.

  crosvm is built with \<open>overflow-checks = true\<close> and \<open>panic = 'abort'\<close> (\<open>crosvm/Cargo.toml\<close>), so an
  overflowing \<open>+\<close> or \<open>-\<close>, a failed \<open>assert!\<close> and an \<open>unwrap\<close> of \<open>None\<close> end the process. A function
  that may panic returns an \<open>option\<close>: \<open>None\<close> is the panic, and sequencing is \<open>Option.bind\<close>. A
  fallible function returns a \<open>result\<close>; where it also mutates its receiver, the model returns the
  new state beside the result, so that what an error path leaves behind is visible.
\<close>

type_synonym u8 = "8 word"
type_synonym u16 = "16 word"
type_synonym u32 = "32 word"
type_synonym u64 = "64 word"
type_synonym usize = "64 word"

datatype ('a, 'e) result = Ok (unwrap: 'a) | Err (err: 'e)

fun is_ok :: "('a, 'e) result \<Rightarrow> bool" where
  "is_ok (Ok _) = True"
| "is_ok (Err _) = False"

fun result_ok :: "('a, 'e) result \<Rightarrow> 'a option" where
  "result_ok (Ok a) = Some a"
| "result_ok (Err _) = None"

fun map_ok :: "('a \<Rightarrow> 'b) \<Rightarrow> ('a, 'e) result \<Rightarrow> ('b, 'e) result" where
  "map_ok f (Ok a) = Ok (f a)"
| "map_ok f (Err e) = Err e"

fun and_then :: "('a, 'e) result \<Rightarrow> ('a \<Rightarrow> ('b, 'e) result) \<Rightarrow> ('b, 'e) result" where
  "and_then (Ok a) f = f a"
| "and_then (Err e) f = Err e"

named_theorems rust_arith \<open>characterisations of Rust's checked arithmetic over the naturals\<close>
named_theorems word_nat \<open>word comparisons and equations read over the naturals\<close>

section \<open>Checked arithmetic\<close>

definition checked_add :: "'a::len word \<Rightarrow> 'a word \<Rightarrow> 'a word option" where
  "checked_add a b = (if unat a + unat b < 2 ^ LENGTH('a) then Some (a + b) else None)"

definition checked_sub :: "'a::len word \<Rightarrow> 'a word \<Rightarrow> 'a word option" where
  "checked_sub a b = (if b \<le> a then Some (a - b) else None)"

definition checked_mul :: "'a::len word \<Rightarrow> 'a word \<Rightarrow> 'a word option" where
  "checked_mul a b = (if unat a * unat b < 2 ^ LENGTH('a) then Some (a * b) else None)"

definition saturating_add :: "'a::len word \<Rightarrow> 'a word \<Rightarrow> 'a word" where
  "saturating_add a b = (if unat a + unat b < 2 ^ LENGTH('a) then a + b else - 1)"

text \<open>\<open><<\<close> and \<open>>>\<close> panic when the distance is not below the width; bits that leave the word are lost
  silently.\<close>

definition checked_shl :: "'a::len word \<Rightarrow> usize \<Rightarrow> 'a word option" where
  "checked_shl a n = (if unat n < LENGTH('a) then Some (push_bit (unat n) a) else None)"

definition checked_shr :: "'a::len word \<Rightarrow> usize \<Rightarrow> 'a word option" where
  "checked_shr a n = (if unat n < LENGTH('a) then Some (drop_bit (unat n) a) else None)"

definition assert_that :: "bool \<Rightarrow> unit option" where
  "assert_that b = (if b then Some () else None)"

definition is_power_of_two :: "'a::len word \<Rightarrow> bool" where
  "is_power_of_two x = list_ex (\<lambda>k. x = 2 ^ k) [0..<LENGTH('a)]"

lemma unat_bound [simp]: "unat (a :: 'a::len word) < 2 ^ LENGTH('a)"
  by (rule unsigned_less)

lemma unat_le_max: "unat (a :: 'a::len word) \<le> 2 ^ LENGTH('a) - 1"
  using unat_bound [of a] by linarith

lemma word_le_unat [word_nat]: "a \<le> b \<longleftrightarrow> unat a \<le> unat (b :: 'a::len word)"
  by (rule word_le_nat_alt)

lemma word_less_unat [word_nat]: "a < b \<longleftrightarrow> unat a < unat (b :: 'a::len word)"
  by (rule word_less_nat_alt)

lemma word_eq_unat: "a = b \<longleftrightarrow> unat a = unat (b :: 'a::len word)"
  by (rule word_unat_eq_iff)

lemma checked_add_Some [rust_arith]:
  "checked_add a b = Some c \<longleftrightarrow> unat c = unat a + unat (b :: 'a::len word)"
proof
  assume "checked_add a b = Some c"
  then show "unat c = unat a + unat b"
    by (auto simp: checked_add_def unat_add_lem split: if_splits)
next
  assume c: "unat c = unat a + unat b"
  then have lt: "unat a + unat b < 2 ^ LENGTH('a)"
    using unat_bound [of c] by simp
  then have "unat (a + b) = unat c"
    using c by (simp add: unat_add_lem)
  with lt show "checked_add a b = Some c"
    by (simp add: checked_add_def word_unat_eq_iff)
qed

lemma checked_add_None [rust_arith]:
  "checked_add a b = None \<longleftrightarrow> 2 ^ LENGTH('a) \<le> unat a + unat (b :: 'a::len word)"
  by (auto simp: checked_add_def)

lemma checked_sub_Some [rust_arith]:
  "checked_sub a b = Some c \<longleftrightarrow> unat a = unat c + unat (b :: 'a::len word)"
proof
  assume "checked_sub a b = Some c"
  then show "unat a = unat c + unat b"
    by (auto simp: checked_sub_def unat_sub word_le_nat_alt split: if_splits)
next
  assume a: "unat a = unat c + unat b"
  then have "b \<le> a" by (simp add: word_le_nat_alt)
  then have "unat (a - b) = unat c" using a by (simp add: unat_sub)
  with \<open>b \<le> a\<close> show "checked_sub a b = Some c"
    by (simp add: checked_sub_def word_unat_eq_iff)
qed

lemma checked_sub_None [rust_arith]:
  "checked_sub a b = None \<longleftrightarrow> unat a < unat (b :: 'a::len word)"
  by (auto simp: checked_sub_def word_le_nat_alt)

lemma unat_saturating_add [rust_arith]:
  "unat (saturating_add a b) = min (unat a + unat b) (2 ^ LENGTH('a) - 1)"
  for a b :: "'a::len word"
proof (cases "unat a + unat b < 2 ^ LENGTH('a)")
  case True
  then have "unat (a + b) = unat a + unat b" by (simp add: unat_add_lem)
  with True show ?thesis by (auto simp: saturating_add_def min_def)
next
  case False
  have "unat (- 1 :: 'a word) = 2 ^ LENGTH('a) - 1"
    by (simp add: unsigned_minus_1_eq_mask mask_eq_exp_minus_1)
  with False show ?thesis by (simp add: saturating_add_def)
qed

text \<open>For evaluation inside the kernel the overflow test stays on words.\<close>

lemma checked_add_code [code]: "checked_add a b = (if a \<le> a + b then Some (a + b) else None)"
  by (simp add: checked_add_def unat_plus_simple unat_add_lem)

lemma checked_mul_code [code]:
  "checked_mul a b = (if uint a * uint b < 2 ^ LENGTH('a) then Some (a * b) else None)"
  for a b :: "'a::len word"
proof -
  have "unat a * unat b < 2 ^ LENGTH('a) \<longleftrightarrow> int (unat a * unat b) < int (2 ^ LENGTH('a))"
    by (rule of_nat_less_iff [symmetric])
  then show ?thesis by (simp add: checked_mul_def)
qed

lemma saturating_add_code [code]: "saturating_add a b = (if a \<le> a + b then a + b else - 1)"
  by (simp add: saturating_add_def unat_plus_simple unat_add_lem)

lemma assert_that_Some [simp]: "assert_that b = Some u \<longleftrightarrow> b"
  by (simp add: assert_that_def)

lemma assert_that_None [simp]: "assert_that b = None \<longleftrightarrow> \<not> b"
  by (simp add: assert_that_def)

lemma bind_assert_that [simp]: "(assert_that b \<bind> f) = (if b then f () else None)"
  by (simp add: assert_that_def)

lemma and_then_Ok: "and_then r f = Ok b \<longleftrightarrow> (\<exists>a. r = Ok a \<and> f a = Ok b)"
  by (cases r) simp_all

lemma map_ok_Ok: "map_ok f r = Ok b \<longleftrightarrow> (\<exists>a. r = Ok a \<and> b = f a)"
  by (cases r) auto

section \<open>Powers of two and alignment\<close>

lemma is_power_of_twoE:
  assumes "is_power_of_two (x :: 'a::len word)"
  obtains k where "k < LENGTH('a)" "x = 2 ^ k" "unat x = 2 ^ k"
proof -
  from assms obtain k where k: "k < LENGTH('a)" "x = 2 ^ k"
    by (auto simp: is_power_of_two_def list_ex_iff)
  then have "unat x = 2 ^ k"
    using unat_of_nat [where ?'a = 'a, of "2 ^ k"] by (simp add: mod_less)
  with k show thesis by (rule that)
qed

lemma is_power_of_twoI: "k < LENGTH('a) \<Longrightarrow> is_power_of_two (2 ^ k :: 'a::len word)"
  by (auto simp: is_power_of_two_def list_ex_iff)

lemma is_power_of_two_pos: "is_power_of_two (x :: 'a::len word) \<Longrightarrow> 0 < unat x"
  by (elim is_power_of_twoE) simp

text \<open>\<open>x & !(a - 1)\<close>, the idiom for rounding down to an alignment.\<close>

definition align_down :: "'a::len word \<Rightarrow> 'a word \<Rightarrow> 'a word" where
  "align_down x a = x AND NOT (a - 1)"

lemma unat_align_down:
  assumes "is_power_of_two (a :: 'a::len word)"
  shows "unat (align_down x a) = unat x - unat x mod unat a"
proof -
  from assms obtain k where k: "k < LENGTH('a)" "a = 2 ^ k" "unat a = 2 ^ k"
    by (rule is_power_of_twoE)
  have mask: "a - 1 = mask k" using k by (simp add: mask_eq_decr_exp)
  have split: "x = (x AND mask k) + (x AND NOT (mask k))"
  proof -
    have "(x AND mask k) + (x AND NOT (mask k)) = (x AND mask k) OR (x AND NOT (mask k))"
      by (rule disjunctive_add) (auto simp: bit_simps)
    also have "\<dots> = x"
      by (rule bit_word_eqI) (auto simp: bit_simps)
    finally show ?thesis by simp
  qed
  have low: "x AND NOT (mask k) = x - take_bit k x"
    using split by (simp add: take_bit_eq_mask algebra_simps)
  have tb: "unat (take_bit k x) = unat x mod 2 ^ k"
    by (metis unsigned_take_bit_eq take_bit_nat_eq_self take_bit_eq_mod)
  then have "take_bit k x \<le> x" by (simp add: word_le_nat_alt)
  then have "unat (x - take_bit k x) = unat x - unat x mod 2 ^ k"
    by (simp add: unat_sub tb)
  then show ?thesis using k(3) by (simp add: align_down_def mask low)
qed

lemma align_down_le: "is_power_of_two a \<Longrightarrow> unat (align_down x a) \<le> unat (x :: 'a::len word)"
  by (simp add: unat_align_down)

lemma align_down_dvd: "is_power_of_two a \<Longrightarrow> unat a dvd unat (align_down (x :: 'a::len word) a)"
  by (simp add: unat_align_down dvd_minus_mod)

lemma align_down_greatest:
  fixes x :: "'a::len word"
  assumes "is_power_of_two a" "unat a dvd n" "n \<le> unat x"
  shows "n \<le> unat (align_down x a)"
proof -
  from assms(2) obtain q where q: "n = unat a * q" by (auto simp: dvd_def)
  have "q \<le> unat x div unat a"
    using assms(3) is_power_of_two_pos [OF assms(1)] q
    by (simp add: less_eq_div_iff_mult_less_eq mult.commute)
  then have "n \<le> unat a * (unat x div unat a)" using q by simp
  also have "\<dots> = unat x - unat x mod unat a" by (simp add: minus_mod_eq_mult_div)
  finally show ?thesis using assms(1) by (simp add: unat_align_down)
qed

lemma take_bit_small: "unat b < 2 ^ k \<Longrightarrow> take_bit k b = (b :: 'a::len word)"
  by (simp add: word_unat_eq_iff unsigned_take_bit_eq take_bit_nat_eq_self)

lemma nat_bit_less: "y < 2 ^ k \<Longrightarrow> bit (y :: nat) i \<Longrightarrow> i < k"
  by (metis bit_take_bit_iff take_bit_nat_eq_self)

lemma unat_push_bit_or:
  fixes x y :: "'a::len word"
  assumes "unat y < 2 ^ k" "unat x * 2 ^ k + unat y < 2 ^ LENGTH('a)"
  shows "unat (push_bit k x OR y) = unat x * 2 ^ k + unat y"
proof -
  have "unat (push_bit k x) = take_bit LENGTH('a) (unat x * 2 ^ k)"
    by (simp only: unsigned_push_bit_eq) (simp add: push_bit_eq_mult)
  then have "unat (push_bit k x OR y) = push_bit k (unat x) OR unat y"
    using assms(2) by (simp only: unsigned_or_eq push_bit_eq_mult) (simp add: take_bit_nat_eq_self)
  also have "\<dots> = push_bit k (unat x) + unat y"
    by (rule disjunctive_add [symmetric])
      (use nat_bit_less [OF assms(1)] in \<open>fastforce simp: bit_push_bit_iff\<close>)
  finally show ?thesis by (simp add: push_bit_eq_mult)
qed

lemma unat_and_mask: "unat (mask k AND x) = unat x mod 2 ^ k" for x :: "'a::len word"
  by (metis and.commute take_bit_eq_mask unsigned_take_bit_eq take_bit_eq_mod)

lemma checked_add_ex:
  "unat a + unat b < 2 ^ LENGTH('a) \<Longrightarrow> \<exists>c. checked_add a b = Some c \<and> unat c = unat a + unat b"
  for a b :: "'a::len word"
  by (simp add: checked_add_def unat_add_lem)

lemma checked_sub_ex:
  "unat b \<le> unat a \<Longrightarrow> \<exists>c. checked_sub a b = Some c \<and> unat c = unat a - unat b"
  for a b :: "'a::len word"
  by (auto simp: checked_sub_def word_nat unat_sub)

lemma unat_two_power: "k < LENGTH('a) \<Longrightarrow> unat (2 ^ k :: 'a::len word) = 2 ^ k"
  using unat_of_nat [where ?'a = 'a, of "2 ^ k"] by (simp add: mod_less)

lemma unat_drop_bit: "unat (drop_bit k x) = unat x div 2 ^ k" for x :: "'a::len word"
  by (simp only: unsigned_drop_bit_eq) (simp add: drop_bit_eq_div take_bit_nat_eq_self)

lemma unat_drop_mask: "unat (drop_bit k x AND mask m) = unat x div 2 ^ k mod 2 ^ m"
  for x :: "'a::len word"
  using unat_and_mask [of m "drop_bit k x"] by (simp add: and.commute unat_drop_bit)

lemma two_power_split: "2 \<le> n \<Longrightarrow> (2 :: nat) ^ n = 4 * 2 ^ (n - 2)"
  by (cases n; cases "n - 1") simp_all

lemma result_ok_Some [simp]: "result_ok r = Some a \<longleftrightarrow> r = Ok a"
  by (cases r) simp_all

section \<open>Iterators whose closure may panic\<close>

fun try_find :: "('a \<Rightarrow> bool option) \<Rightarrow> 'a list \<Rightarrow> 'a option option" where
  "try_find P [] = Some None"
| "try_find P (x # xs) =
     (case P x of None \<Rightarrow> None | Some b \<Rightarrow> if b then Some (Some x) else try_find P xs)"

lemma try_find_total:
  "(\<And>x. x \<in> set xs \<Longrightarrow> P x = Some (Q x)) \<Longrightarrow> try_find P xs = Some (find Q xs)"
  by (induction xs) auto

lemma try_find_partial:
  "(\<And>x b. x \<in> set xs \<Longrightarrow> P x = Some b \<Longrightarrow> b = Q x) \<Longrightarrow> try_find P xs = Some y \<Longrightarrow> y = find Q xs"
  by (induction xs) (auto split: option.splits if_splits)

lemma try_find_None: "try_find P xs = None \<Longrightarrow> \<exists>x \<in> set xs. P x = None"
  by (induction xs) (auto split: option.splits if_splits)

lemma try_find_Some:
  "try_find P xs = Some (Some x) \<Longrightarrow> x \<in> set xs \<and> P x = Some True"
  by (induction xs) (auto split: option.splits if_splits)

lemma find_SomeD: "find P xs = Some x \<Longrightarrow> x \<in> set xs \<and> P x"
  by (auto simp: find_Some_iff)

lemma find_first_sorted:
  "sorted_wrt R xs \<Longrightarrow> find P xs = Some x \<Longrightarrow> y \<in> set xs \<Longrightarrow> P y \<Longrightarrow> x = y \<or> R x y"
  by (induction xs) (auto split: if_splits)

end
