(* ===== verification/BTree_Model.thy ===== *)
theory BTree_Model
  imports Prelude
begin

text \<open>
  Rust's \<open>BTreeMap\<close> and \<open>BTreeSet\<close> as the program uses them: association lists kept in the order of
  the key type's \<open>Ord::cmp\<close>. Two keys of the program have an \<open>Ord\<close> that is not the structural one
  (\<open>AddressRange\<close> identifies all empty ranges, \<open>BusRange\<close> compares the base only), so the comparison
  is an argument of every operation. What the standard library asks of an \<open>Ord\<close> implementation is
  the locale \<open>ord_cmp\<close>, and what the collections promise in return is proved once inside it.
\<close>

datatype ordering = Less | Equal | Greater

definition cmp_word :: "'a::len word \<Rightarrow> 'a word \<Rightarrow> ordering" where
  "cmp_word a b = (if a < b then Less else if a = b then Equal else Greater)"

fun then_with :: "ordering \<Rightarrow> ordering \<Rightarrow> ordering" where
  "then_with Equal r = r"
| "then_with l r = l"

section \<open>The operations\<close>

text \<open>\<open>BTreeMap::insert\<close>: on an equal key the value is replaced, the old key stays, and the old
  value is returned.\<close>

fun bmap_insert ::
  "('k \<Rightarrow> 'k \<Rightarrow> ordering) \<Rightarrow> 'k \<Rightarrow> 'v \<Rightarrow> ('k \<times> 'v) list \<Rightarrow> ('k \<times> 'v) list \<times> 'v option" where
  "bmap_insert cmp k v [] = ([(k, v)], None)"
| "bmap_insert cmp k v ((k', v') # m) =
     (case cmp k k' of
        Less \<Rightarrow> ((k, v) # (k', v') # m, None)
      | Equal \<Rightarrow> ((k', v) # m, Some v')
      | Greater \<Rightarrow> (let (m', old) = bmap_insert cmp k v m in ((k', v') # m', old)))"

fun bmap_remove ::
  "('k \<Rightarrow> 'k \<Rightarrow> ordering) \<Rightarrow> 'k \<Rightarrow> ('k \<times> 'v) list \<Rightarrow> ('k \<times> 'v) list \<times> 'v option" where
  "bmap_remove cmp k [] = ([], None)"
| "bmap_remove cmp k ((k', v') # m) =
     (if cmp k k' = Equal then (m, Some v')
      else (let (m', old) = bmap_remove cmp k m in ((k', v') # m', old)))"

definition bmap_get :: "('k \<Rightarrow> 'k \<Rightarrow> ordering) \<Rightarrow> 'k \<Rightarrow> ('k \<times> 'v) list \<Rightarrow> 'v option" where
  "bmap_get cmp k m = map_option snd (find (\<lambda>(k', _). cmp k k' = Equal) m)"

text \<open>\<open>range(..=k)\<close> and \<open>next_back\<close>.\<close>

definition bmap_range_to_incl ::
  "('k \<Rightarrow> 'k \<Rightarrow> ordering) \<Rightarrow> 'k \<Rightarrow> ('k \<times> 'v) list \<Rightarrow> ('k \<times> 'v) list" where
  "bmap_range_to_incl cmp k m = filter (\<lambda>(k', _). cmp k' k \<noteq> Greater) m"

definition next_back :: "'a list \<Rightarrow> 'a option" where
  "next_back xs = (if xs = [] then None else Some (last xs))"

definition next_front :: "'a list \<Rightarrow> 'a option" where
  "next_front xs = (if xs = [] then None else Some (hd xs))"

text \<open>\<open>BTreeSet\<close>: an element equal to one of the set is not inserted.\<close>

fun bset_insert :: "('k \<Rightarrow> 'k \<Rightarrow> ordering) \<Rightarrow> 'k \<Rightarrow> 'k list \<Rightarrow> 'k list" where
  "bset_insert cmp k [] = [k]"
| "bset_insert cmp k (k' # s) =
     (case cmp k k' of Less \<Rightarrow> k # k' # s | Equal \<Rightarrow> k' # s | Greater \<Rightarrow> k' # bset_insert cmp k s)"

fun bset_remove :: "('k \<Rightarrow> 'k \<Rightarrow> ordering) \<Rightarrow> 'k \<Rightarrow> 'k list \<Rightarrow> 'k list \<times> bool" where
  "bset_remove cmp k [] = ([], False)"
| "bset_remove cmp k (k' # s) =
     (if cmp k k' = Equal then (s, True)
      else (let (s', found) = bset_remove cmp k s in (k' # s', found)))"

definition bset_range_to_incl :: "('k \<Rightarrow> 'k \<Rightarrow> ordering) \<Rightarrow> 'k \<Rightarrow> 'k list \<Rightarrow> 'k list" where
  "bset_range_to_incl cmp k s = filter (\<lambda>k'. cmp k' k \<noteq> Greater) s"

definition bset_range_from_excl :: "('k \<Rightarrow> 'k \<Rightarrow> ordering) \<Rightarrow> 'k \<Rightarrow> 'k list \<Rightarrow> 'k list" where
  "bset_range_from_excl cmp k s = filter (\<lambda>k'. cmp k' k = Greater) s"

section \<open>The contract of \<open>Ord\<close>\<close>

locale ord_cmp =
  fixes cmp :: "'k \<Rightarrow> 'k \<Rightarrow> ordering"
  assumes cmp_refl: "cmp a a = Equal"
    and cmp_flip: "cmp a b = Less \<longleftrightarrow> cmp b a = Greater"
    and cmp_trans: "cmp a b \<noteq> Greater \<Longrightarrow> cmp b c \<noteq> Greater \<Longrightarrow> cmp a c \<noteq> Greater"
begin

lemma cmp_eq_sym: "cmp a b = Equal \<longleftrightarrow> cmp b a = Equal"
  by (metis (full_types) cmp_flip ordering.exhaust ordering.distinct)

lemma less_trans: "cmp a b = Less \<Longrightarrow> cmp b c = Less \<Longrightarrow> cmp a c = Less"
  by (metis (full_types) cmp_flip cmp_trans ordering.exhaust ordering.distinct)

lemma less_eq_trans: "cmp a b = Less \<Longrightarrow> cmp b c = Equal \<Longrightarrow> cmp a c = Less"
  by (metis (full_types) cmp_eq_sym cmp_flip cmp_trans ordering.exhaust ordering.distinct)

lemma eq_less_trans: "cmp a b = Equal \<Longrightarrow> cmp b c = Less \<Longrightarrow> cmp a c = Less"
  by (metis (full_types) cmp_eq_sym cmp_flip cmp_trans ordering.exhaust ordering.distinct)

lemma eq_trans: "cmp a b = Equal \<Longrightarrow> cmp b c = Equal \<Longrightarrow> cmp a c = Equal"
  by (metis (full_types) cmp_eq_sym cmp_flip cmp_trans ordering.exhaust ordering.distinct)

lemma greater_less: "cmp a b = Greater \<longleftrightarrow> cmp b a = Less"
  using cmp_flip by blast

lemmas cmp_rules = less_trans less_eq_trans eq_less_trans eq_trans

definition bset_ok :: "'k list \<Rightarrow> bool" where
  "bset_ok s \<longleftrightarrow> sorted_wrt (\<lambda>a b. cmp a b = Less) s"

lemma bset_ok_Cons [simp]: "bset_ok (k # s) \<longleftrightarrow> (\<forall>k' \<in> set s. cmp k k' = Less) \<and> bset_ok s"
  by (simp add: bset_ok_def)

lemma bset_ok_Nil [simp]: "bset_ok []"
  by (simp add: bset_ok_def)

lemma set_bset_insert:
  "(\<forall>k' \<in> set s. cmp k k' \<noteq> Equal) \<Longrightarrow> set (bset_insert cmp k s) = insert k (set s)"
  by (induction s) (auto split: ordering.splits)

lemma set_bset_insert_subset: "set (bset_insert cmp k s) \<subseteq> insert k (set s)"
  by (induction s) (auto split: ordering.splits)

lemma bset_ok_insert: "bset_ok s \<Longrightarrow> bset_ok (bset_insert cmp k s)"
proof (induction s)
  case Nil
  then show ?case by simp
next
  case (Cons k' s)
  show ?case
  proof (cases "cmp k k'")
    case Less
    with Cons.prems show ?thesis by (auto intro: less_trans)
  next
    case Equal
    with Cons.prems show ?thesis by simp
  next
    case Greater
    then have "cmp k' k = Less" by (simp add: greater_less)
    with Greater Cons show ?thesis
      using set_bset_insert_subset [of k s] by auto
  qed
qed

lemma bset_remove_sorted:
  "bset_ok s \<Longrightarrow> bset_remove cmp k s =
     (filter (\<lambda>k'. cmp k k' \<noteq> Equal) s, \<exists>k' \<in> set s. cmp k k' = Equal)"
proof (induction s)
  case Nil
  then show ?case by simp
next
  case (Cons k' s)
  have "cmp k k' = Equal \<Longrightarrow> k'' \<in> set s \<Longrightarrow> cmp k k'' = Less" for k''
    using Cons.prems by (auto intro: eq_less_trans)
  then have "cmp k k' = Equal \<Longrightarrow> filter (\<lambda>k'. cmp k k' \<noteq> Equal) s = s"
    by (intro filter_True) auto
  with Cons show ?case by auto
qed

definition bmap_ok :: "('k \<times> 'v) list \<Rightarrow> bool" where
  "bmap_ok m \<longleftrightarrow> sorted_wrt (\<lambda>a b. cmp a b = Less) (map fst m)"

lemma bmap_ok_Cons [simp]:
  "bmap_ok ((k, v) # m) \<longleftrightarrow> (\<forall>(k', v') \<in> set m. cmp k k' = Less) \<and> bmap_ok m"
  by (auto simp: bmap_ok_def)

lemma bmap_ok_Nil [simp]: "bmap_ok []"
  by (simp add: bmap_ok_def)

lemma bmap_insert_fresh:
  "(\<forall>(k', v') \<in> set m. cmp k k' \<noteq> Equal) \<Longrightarrow>
     set (fst (bmap_insert cmp k v m)) = insert (k, v) (set m) \<and> snd (bmap_insert cmp k v m) = None"
  by (induction m) (auto split: ordering.splits prod.splits)

lemma bmap_insert_keys:
  "fst ` set (fst (bmap_insert cmp k v m)) \<subseteq> insert k (fst ` set m)"
  by (induction m) (force split: ordering.splits prod.splits)+

lemma bmap_insert_old_key:
  "snd (bmap_insert cmp k v m) = Some w \<Longrightarrow>
     fst ` set (fst (bmap_insert cmp k v m)) = fst ` set m"
  by (induction m) (force split: ordering.splits prod.splits)+

lemma bmap_ok_insert: "bmap_ok m \<Longrightarrow> bmap_ok (fst (bmap_insert cmp k v m))"
proof (induction m)
  case Nil
  then show ?case by simp
next
  case (Cons a m)
  obtain k' v' where a: "a = (k', v')" by (cases a)
  show ?case
  proof (cases "cmp k k'")
    case Less
    with Cons.prems a show ?thesis by (auto intro: less_trans)
  next
    case Equal
    with Cons.prems a show ?thesis by simp
  next
    case Greater
    then have lt: "cmp k' k = Less" by (simp add: greater_less)
    have "cmp k' k'' = Less" if "(k'', v'') \<in> set (fst (bmap_insert cmp k v m))" for k'' v''
    proof -
      have "k'' \<in> insert k (fst ` set m)"
        using bmap_insert_keys [of k v m] that by force
      with lt Cons.prems a show ?thesis by auto
    qed
    with Greater Cons a show ?thesis by (auto split: prod.splits)
  qed
qed

lemma bmap_remove_sorted:
  "bmap_ok m \<Longrightarrow> bmap_remove cmp k m =
     (filter (\<lambda>(k', v'). cmp k k' \<noteq> Equal) m, bmap_get cmp k m)"
proof (induction m)
  case Nil
  then show ?case by (simp add: bmap_get_def)
next
  case (Cons a m)
  obtain k' v' where a: "a = (k', v')" by (cases a)
  have "cmp k k' = Equal \<Longrightarrow> (k'', v'') \<in> set m \<Longrightarrow> cmp k k'' = Less" for k'' v''
    using Cons.prems a by (auto intro: eq_less_trans)
  then have "cmp k k' = Equal \<Longrightarrow> filter (\<lambda>(k', v'). cmp k k' \<noteq> Equal) m = m"
    by (intro filter_True) auto
  with Cons a show ?case by (auto simp: bmap_get_def)
qed

lemma bmap_ok_filter: "bmap_ok m \<Longrightarrow> bmap_ok (filter P m)"
  by (induction m) auto

end

section \<open>Iteration order\<close>

lemma next_back_Some: "next_back xs = Some x \<Longrightarrow> x \<in> set xs"
  by (auto simp: next_back_def split: if_splits)

lemma next_back_None [simp]: "next_back xs = None \<longleftrightarrow> xs = []"
  by (simp add: next_back_def)

lemma next_Nil [simp]: "next_back [] = None" "next_front [] = None"
  by (simp_all add: next_back_def next_front_def)

lemma next_front_Some: "next_front xs = Some x \<Longrightarrow> x \<in> set xs"
  by (auto simp: next_front_def split: if_splits)

lemma next_front_None [simp]: "next_front xs = None \<longleftrightarrow> xs = []"
  by (simp add: next_front_def)

lemma next_back_sorted:
  "sorted_wrt R xs \<Longrightarrow> next_back xs = Some x \<Longrightarrow> y \<in> set xs \<Longrightarrow> y = x \<or> R y x"
  by (cases xs rule: rev_cases) (auto simp: next_back_def sorted_wrt_append)

lemma next_front_sorted:
  "sorted_wrt R xs \<Longrightarrow> next_front xs = Some x \<Longrightarrow> y \<in> set xs \<Longrightarrow> y = x \<or> R x y"
  by (cases xs) (auto simp: next_front_def)

lemma ord_cmp_word: "ord_cmp cmp_word"
  by unfold_locales (auto simp: cmp_word_def split: if_splits)

interpretation u64_cmp: ord_cmp "cmp_word :: u64 \<Rightarrow> u64 \<Rightarrow> ordering"
  by (rule ord_cmp_word)

end
