(* ===== verification/Address_Range.thy ===== *)
theory Address_Range
  imports BTree_Model
begin

text \<open>
  \<open>crosvm/resources/src/address_range.rs\<close>: inclusive ranges of 64-bit addresses. The meaning of a
  range is the set of addresses it contains; the lemmas show what each operation does to that set,
  and that the custom \<open>Ord\<close> meets the contract of ordered collections.
\<close>

record address_range =
  range_start :: u64
  range_end :: u64

definition from_start_and_end :: "u64 \<Rightarrow> u64 \<Rightarrow> address_range" where
  "from_start_and_end s e = \<lparr>range_start = s, range_end = e\<rparr>"

definition empty_range :: address_range where
  "empty_range = \<lparr>range_start = 1, range_end = 0\<rparr>"

definition from_start_and_size :: "u64 \<Rightarrow> u64 \<Rightarrow> address_range option" where
  "from_start_and_size s sz =
     (if sz = 0 then Some empty_range
      else case checked_add s (sz - 1) of
             Some e \<Rightarrow> Some \<lparr>range_start = s, range_end = e\<rparr>
           | None \<Rightarrow> None)"

definition range_is_empty :: "address_range \<Rightarrow> bool" where
  "range_is_empty r \<longleftrightarrow> range_end r < range_start r"

definition range_contains :: "address_range \<Rightarrow> u64 \<Rightarrow> bool" where
  "range_contains r a \<longleftrightarrow> a \<ge> range_start r \<and> a \<le> range_end r"

definition contains_range :: "address_range \<Rightarrow> address_range \<Rightarrow> bool" where
  "contains_range r other \<longleftrightarrow>
     \<not> range_is_empty other \<and> range_start other \<ge> range_start r \<and> range_end other \<le> range_end r"

definition intersect :: "address_range \<Rightarrow> address_range \<Rightarrow> address_range" where
  "intersect r other =
     \<lparr>range_start = max (range_start r) (range_start other),
      range_end = min (range_end r) (range_end other)\<rparr>"

definition overlaps :: "address_range \<Rightarrow> address_range \<Rightarrow> bool" where
  "overlaps r other \<longleftrightarrow> \<not> range_is_empty (intersect r other)"

text \<open>The two subtractions and additions of one are overflow-checked; \<open>None\<close> would be the panic.\<close>

definition non_overlapping_ranges ::
  "address_range \<Rightarrow> address_range \<Rightarrow> (address_range \<times> address_range) option" where
  "non_overlapping_ranges r other = do {
     before \<leftarrow>
       (if range_start r \<ge> range_start other then Some empty_range
        else do {
          e \<leftarrow> checked_sub (max (range_start r) (range_start other)) 1;
          Some \<lparr>range_start = min (range_start r) (range_start other),
                range_end = min e (range_end r)\<rparr>
        });
     after \<leftarrow>
       (if range_end r \<le> range_end other then Some empty_range
        else do {
          s \<leftarrow> checked_add (min (range_end r) (range_end other)) 1;
          Some \<lparr>range_start = max s (range_start r),
                range_end = max (range_end r) (range_end other)\<rparr>
        });
     Some (before, after)
   }"

definition split_at :: "address_range \<Rightarrow> u64 \<Rightarrow> (address_range \<times> address_range) option" where
  "split_at r split_start =
     (if split_start \<le> range_start r \<or> split_start > range_end r then Some (r, empty_range)
      else do {
        e \<leftarrow> checked_sub split_start 1;
        Some (\<lparr>range_start = range_start r, range_end = e\<rparr>,
              \<lparr>range_start = split_start, range_end = range_end r\<rparr>)
      })"

definition range_len :: "address_range \<Rightarrow> u64 option" where
  "range_len r =
     (if range_is_empty r then Some 0 else checked_add (range_end r - range_start r) 1)"

definition range_cmp :: "address_range \<Rightarrow> address_range \<Rightarrow> ordering" where
  "range_cmp r other =
     (case (range_is_empty r, range_is_empty other) of
        (True, True) \<Rightarrow> Equal
      | (True, False) \<Rightarrow> Less
      | (False, True) \<Rightarrow> Greater
      | (False, False) \<Rightarrow>
          then_with (cmp_word (range_start r) (range_start other))
                    (cmp_word (range_end r) (range_end other)))"

definition range_eq :: "address_range \<Rightarrow> address_range \<Rightarrow> bool" where
  "range_eq r other \<longleftrightarrow> range_cmp r other = Equal"

section \<open>The set of addresses of a range\<close>

definition addrs :: "address_range \<Rightarrow> u64 set" where
  "addrs r = {range_start r..range_end r}"

named_theorems range_sem \<open>the operations on ranges as operations on sets of addresses\<close>

lemma addrs_empty_range [simp]: "addrs empty_range = {}"
  by (simp add: addrs_def empty_range_def)

lemma range_is_empty_addrs [range_sem]: "range_is_empty r \<longleftrightarrow> addrs r = {}"
  by (auto simp: range_is_empty_def addrs_def)

lemma range_contains_addrs [range_sem]: "range_contains r a \<longleftrightarrow> a \<in> addrs r"
  by (auto simp: range_contains_def addrs_def)

lemma contains_range_addrs [range_sem]:
  "contains_range r other \<longleftrightarrow> addrs other \<noteq> {} \<and> addrs other \<subseteq> addrs r"
  by (auto simp: contains_range_def range_is_empty_def addrs_def not_less)

lemma addrs_intersect [range_sem]: "addrs (intersect r other) = addrs r \<inter> addrs other"
  by (auto simp: addrs_def intersect_def)

lemma overlaps_addrs [range_sem]: "overlaps r other \<longleftrightarrow> addrs r \<inter> addrs other \<noteq> {}"
  by (simp add: overlaps_def range_sem)

lemma addrs_nonempty_iff: "addrs r \<noteq> {} \<longleftrightarrow> range_start r \<le> range_end r"
  by (auto simp: addrs_def)

lemma addrs_unat: "a \<in> addrs r \<longleftrightarrow> unat (range_start r) \<le> unat a \<and> unat a \<le> unat (range_end r)"
  by (simp add: addrs_def word_nat)

lemma from_start_and_size_Some:
  "from_start_and_size s sz = Some r \<Longrightarrow>
     addrs r = {a. unat s \<le> unat a \<and> unat a < unat s + unat sz}"
  by (auto simp: from_start_and_size_def rust_arith addrs_unat unat_minus_one
                 unat_gt_0 [symmetric] empty_range_def split: if_splits option.splits)

lemma from_start_and_size_None:
  "from_start_and_size s sz = None \<longleftrightarrow> 2 ^ 64 < unat s + unat sz"
proof (cases "sz = 0")
  case True
  then show ?thesis using unat_bound [of s] by (simp add: from_start_and_size_def)
next
  case False
  then have "unat (sz - 1) = unat sz - 1" and "0 < unat sz"
    by (simp_all add: unat_minus_one unat_gt_0)
  with False show ?thesis
    using unat_bound [of "s + (sz - 1)"]
    by (auto simp: from_start_and_size_def checked_add_def)
qed

lemma non_overlapping_ranges_addrs:
  obtains before after where
    "non_overlapping_ranges r other = Some (before, after)"
    "addrs before = {a \<in> addrs r. a < range_start other}"
    "addrs after = {a \<in> addrs r. range_end other < a}"
proof -
  let ?b = "if range_start r \<ge> range_start other then empty_range
            else \<lparr>range_start = range_start r, range_end = min (range_start other - 1) (range_end r)\<rparr>"
  let ?a = "if range_end r \<le> range_end other then empty_range
            else \<lparr>range_start = max (range_end other + 1) (range_start r), range_end = range_end r\<rparr>"
  have sub: "checked_sub (range_start other) 1 = Some (range_start other - 1)"
    if "range_start r < range_start other"
    using that by (simp add: checked_sub_def word_nat)
  have add: "checked_add (range_end other) 1 = Some (range_end other + 1)"
    if "range_end other < range_end r"
    using that unat_bound [of "range_end r"] by (simp add: checked_add_def word_nat)
  have "non_overlapping_ranges r other = Some (?b, ?a)"
    using sub add by (auto simp: non_overlapping_ranges_def max_def min_def)
  moreover have "addrs ?b = {a \<in> addrs r. a < range_start other}"
  proof (cases "range_start r \<ge> range_start other")
    case False
    then have "unat (range_start other - 1) = unat (range_start other) - 1"
      by (intro unat_minus_one) (auto simp: word_nat)
    with False show ?thesis by (auto simp: addrs_def word_nat min_def max_def split: if_splits)
  qed (auto simp: addrs_def empty_range_def)
  moreover have "addrs ?a = {a \<in> addrs r. range_end other < a}"
  proof (cases "range_end r \<le> range_end other")
    case False
    then have "unat (range_end other + 1) = unat (range_end other) + 1"
      using add by (simp add: rust_arith)
    with False show ?thesis by (auto simp: addrs_def word_nat min_def max_def split: if_splits)
  qed (auto simp: addrs_def empty_range_def)
  ultimately show thesis by (rule that)
qed

lemma split_at_addrs:
  obtains low high where
    "split_at r s = Some (low, high)"
    "addrs low \<union> addrs high = addrs r"
    "s \<in> addrs r \<Longrightarrow> addrs low = {a \<in> addrs r. a < s} \<or> s = range_start r"
    "addrs low \<inter> addrs high = {}"
proof (cases "s \<le> range_start r \<or> s > range_end r")
  case True
  then have "split_at r s = Some (r, empty_range)" by (simp add: split_at_def)
  with True show thesis by (intro that) (auto simp: addrs_def empty_range_def)
next
  case False
  then have s: "unat (s - 1) = unat s - 1"
    by (intro unat_minus_one) (auto simp: word_nat)
  with False have "split_at r s = Some (\<lparr>range_start = range_start r, range_end = s - 1\<rparr>,
      \<lparr>range_start = s, range_end = range_end r\<rparr>)"
    by (auto simp: split_at_def checked_sub_def word_nat)
  with False s show thesis by (intro that) (auto simp: addrs_def word_nat)
qed

lemma range_len_Some:
  "range_len r = Some n \<longleftrightarrow>
     unat n = (if range_is_empty r then 0 else unat (range_end r) - unat (range_start r) + 1)"
proof (cases "range_is_empty r")
  case True
  then show ?thesis by (auto simp: range_len_def unsigned_eq_0_iff)
next
  case False
  then have "unat (range_end r - range_start r) = unat (range_end r) - unat (range_start r)"
    by (simp add: range_is_empty_def unat_sub)
  with False show ?thesis by (simp add: range_len_def rust_arith)
qed

lemma range_len_None:
  "range_len r = None \<longleftrightarrow> range_start r = 0 \<and> range_end r = - 1"
proof -
  have "range_len r = None \<longleftrightarrow> range_start r \<le> range_end r \<and>
      2 ^ 64 \<le> unat (range_end r) - unat (range_start r) + 1"
    by (auto simp: range_len_def range_is_empty_def rust_arith unat_sub not_less)
  also have "\<dots> \<longleftrightarrow> unat (range_start r) = 0 \<and> unat (range_end r) = 2 ^ 64 - 1"
    using unat_bound [of "range_end r"] by (auto simp: word_nat)
  also have "\<dots> \<longleftrightarrow> range_start r = 0 \<and> range_end r = - 1"
    by (simp add: word_unat_eq_iff unsigned_minus_1_eq_mask mask_eq_exp_minus_1)
  finally show ?thesis .
qed

section \<open>The order of ranges\<close>

lemma range_cmp_cases:
  "range_cmp r other =
     (if range_is_empty r then (if range_is_empty other then Equal else Less)
      else if range_is_empty other then Greater
      else if range_start r < range_start other then Less
      else if range_start other < range_start r then Greater
      else if range_end r < range_end other then Less
      else if range_end other < range_end r then Greater
      else Equal)"
  by (auto simp: range_cmp_def cmp_word_def)

interpretation range_ord: ord_cmp range_cmp
proof unfold_locales
  fix a b c :: address_range
  show "range_cmp a a = Equal" by (simp add: range_cmp_cases)
  show "(range_cmp a b = Less) = (range_cmp b a = Greater)" by (auto simp: range_cmp_cases)
  show "range_cmp a c \<noteq> Greater"
    if "range_cmp a b \<noteq> Greater" "range_cmp b c \<noteq> Greater"
    using that
    by (cases "range_is_empty a"; cases "range_is_empty b"; cases "range_is_empty c")
       (auto simp: range_cmp_cases split: if_splits)
qed

lemma range_eq_addrs: "range_eq r other \<longleftrightarrow> addrs r = addrs other"
  by (auto simp: range_eq_def range_cmp_cases range_is_empty_def addrs_def)

text \<open>Every address of \<open>r\<close> is below every address of \<open>other\<close>, the order of disjoint ranges.\<close>

definition before :: "address_range \<Rightarrow> address_range \<Rightarrow> bool" where
  "before r other \<longleftrightarrow> range_end r < range_start other"

lemma disjoint_before:
  "addrs r \<noteq> {} \<Longrightarrow> addrs s \<noteq> {} \<Longrightarrow> addrs r \<inter> addrs s = {} \<longleftrightarrow> before r s \<or> before s r"
  by (auto simp: before_def addrs_def)

lemma before_disjoint: "before r s \<Longrightarrow> addrs r \<inter> addrs s = {}"
  by (auto simp: before_def addrs_def)

lemma before_cmp:
  "addrs r \<noteq> {} \<Longrightarrow> addrs s \<noteq> {} \<Longrightarrow> addrs r \<inter> addrs s = {} \<Longrightarrow>
     before r s \<longleftrightarrow> range_cmp r s = Less"
  by (auto simp: before_def range_cmp_cases range_is_empty_def addrs_def)

lemma range_cmp_Equal_nonempty:
  "addrs r \<noteq> {} \<Longrightarrow> range_cmp r s = Equal \<longleftrightarrow> r = s"
  by (auto simp: range_cmp_cases range_is_empty_def addrs_def)

end
