(* ===== verification/Id_Pool.thy ===== *)
theory Id_Pool
  imports Prelude
begin

text \<open>
  The contract between the address allocator and the parts of the system allocator that hand out
  numbers (interrupt lines, general purpose events, PCI functions): a pool of numbers of which
  some are available and some are held under keys. The second locale adds the keys the system
  allocator uses, drawn from a counter, and shows that such keys are always fresh, so the key
  collisions that the pool reports as errors never happen to these clients.
\<close>

locale id_pool =
  fixes pool_inv :: "'s \<Rightarrow> bool"
    and avail :: "'s \<Rightarrow> u64 set"
    and held :: "'s \<Rightarrow> u64 set"
    and pool_keys :: "'s \<Rightarrow> 'k set"
    and take_id :: "'s \<Rightarrow> 'k \<Rightarrow> ('s \<times> u64 option) option"
    and reserve_id :: "'s \<Rightarrow> u64 \<Rightarrow> 'k \<Rightarrow> ('s \<times> bool) option"
    and release_id :: "'s \<Rightarrow> u64 \<Rightarrow> 's \<times> bool"
  assumes avail_held: "pool_inv s \<Longrightarrow> avail s \<inter> held s = {}"
    and take_id: "pool_inv s \<Longrightarrow> k \<notin> pool_keys s \<Longrightarrow>
      (avail s = {} \<and> take_id s k = Some (s, None)) \<or>
      (\<exists>s' v. take_id s k = Some (s', Some v) \<and> pool_inv s' \<and> v \<in> avail s \<and> avail s' = avail s - {v} \<and>
         held s' = insert v (held s) \<and> pool_keys s' = insert k (pool_keys s))"
    and reserve_id: "pool_inv s \<Longrightarrow> k \<notin> pool_keys s \<Longrightarrow>
      (v \<notin> avail s \<and> reserve_id s v k = Some (s, False)) \<or>
      (v \<in> avail s \<and> (\<exists>s'. reserve_id s v k = Some (s', True) \<and> pool_inv s' \<and> avail s' = avail s - {v} \<and>
         held s' = insert v (held s) \<and> pool_keys s' = insert k (pool_keys s)))"
    and release_id: "pool_inv s \<Longrightarrow>
      (v \<notin> held s \<and> release_id s v = (s, False)) \<or>
      (v \<in> held s \<and> (\<exists>s'. release_id s v = (s', True) \<and> pool_inv s' \<and> avail s' = insert v (avail s) \<and>
         held s' = held s - {v} \<and> pool_keys s' \<subseteq> pool_keys s))"

locale anon_id_pool = id_pool pool_inv avail held pool_keys take_id reserve_id release_id
  for pool_inv :: "'s \<Rightarrow> bool" and avail held and pool_keys :: "'s \<Rightarrow> 'k set"
    and take_id reserve_id release_id +
  fixes anon_key :: "usize \<Rightarrow> 'k"
  assumes inj_anon_key: "inj anon_key"
begin

text \<open>All keys in use were drawn from a counter that stands at \<open>n\<close>.\<close>

definition anon_ok :: "usize \<Rightarrow> 's \<Rightarrow> bool" where
  "anon_ok n s \<longleftrightarrow> pool_inv s \<and> pool_keys s \<subseteq> anon_key ` {.. n}"

lemma anon_ok_mono: "anon_ok n s \<Longrightarrow> n \<le> n' \<Longrightarrow> anon_ok n' s"
  unfolding anon_ok_def by (meson atMost_subset_iff image_mono subset_trans)

lemma anon_fresh:
  assumes "anon_ok n s" "checked_add n 1 = Some n'"
  shows "anon_key n' \<notin> pool_keys s" "n < n'"
proof -
  show lt: "n < n'" using assms(2) by (simp add: rust_arith word_nat)
  show "anon_key n' \<notin> pool_keys s"
    using assms(1) lt injD [OF inj_anon_key] unfolding anon_ok_def by fastforce
qed

lemma anon_take:
  assumes "anon_ok n s" "checked_add n 1 = Some n'"
  obtains (none) "avail s = {}" "take_id s (anon_key n') = Some (s, None)" "anon_ok n' s"
    | (some) s' v where "take_id s (anon_key n') = Some (s', Some v)" "anon_ok n' s'"
      "v \<in> avail s" "avail s' = avail s - {v}" "held s' = insert v (held s)"
  using take_id [of s "anon_key n'"] anon_fresh [OF assms] anon_ok_mono [OF assms(1), of n'] assms(1)
  unfolding anon_ok_def by fastforce

lemma anon_reserve:
  assumes "anon_ok n s" "checked_add n 1 = Some n'"
  obtains s' where "reserve_id s v (anon_key n') = Some (s', v \<in> avail s)" "anon_ok n' s'"
    "avail s' = avail s - {v}" "held s' = (if v \<in> avail s then insert v (held s) else held s)"
  using reserve_id [of s "anon_key n'" v] anon_fresh [OF assms] anon_ok_mono [OF assms(1), of n'] assms(1)
  unfolding anon_ok_def by fastforce

lemma anon_release:
  assumes "anon_ok n s"
  obtains s' where "release_id s v = (s', v \<in> held s)" "anon_ok n s'"
    "avail s' = (if v \<in> held s then insert v (avail s) else avail s)" "held s' = held s - {v}"
  using release_id [of s v] assms unfolding anon_ok_def by fastforce

text \<open>A number that was taken is not handed out again before it is released, and one that is
  released is available again.\<close>

lemma take_release:
  assumes "anon_ok n s" "checked_add n 1 = Some n'" "take_id s (anon_key n') = Some (s', Some v)"
  shows "\<exists>s''. release_id s' v = (s'', True) \<and> anon_ok n' s'' \<and> avail s'' = avail s \<and> held s'' = held s"
proof -
  have v: "anon_ok n' s'" "v \<in> avail s" "avail s' = avail s - {v}" "held s' = insert v (held s)"
    using anon_take [OF assms(1,2)] assms(3) by auto
  have "avail s \<inter> held s = {}" using avail_held assms(1) by (simp add: anon_ok_def)
  then show ?thesis
    by - (rule anon_release [OF v(1), of v], use v in auto)
qed

end

end
