(* ===== verification/Address_Allocator.thy ===== *)
theory Address_Allocator
  imports Address_Range Id_Pool "HOL-Library.AList"
begin

text \<open>
  \<open>crosvm/resources/src/address_allocator.rs\<close> (with \<open>Alloc\<close> and \<open>Error\<close> of \<open>lib.rs\<close>): free regions
  are a \<open>BTreeSet\<close> of ranges, allocations a \<open>HashMap\<close> from \<open>Alloc\<close> to a range and a tag. The hash
  map is an association list with distinct keys in iteration order, which Rust leaves open: the
  lemmas hold for every order. The invariant is the comment on the struct: allocations and free
  regions together are the pools, and no two of them overlap.
\<close>

datatype alloc =
    Anon usize
  | PciBar u8 u8 u8 u8
  | GpuRenderNode
  | PmemDevice usize
  | Pstore
  | PciBridgeWindow u8 u8 u8
  | PciBridgePrefetchWindow u8 u8 u8
  | FileBacked u64

datatype resource_error =
    AllocSizeZero
  | BadAlignment
  | BadAlloc alloc
  | ExistingAlloc alloc
  | InvalidAlloc alloc
  | IOPortOutOfRange address_range
  | MissingPlatformMMIOAddresses
  | NoIoAllocator
  | OutOfBounds
  | OutOfSpace
  | PoolOverflow u64 u64
  | RegionOverlap address_range

record address_allocator =
  pools :: "address_range list"
  min_align :: u64
  preferred_align :: u64
  allocs :: "(alloc \<times> address_range \<times> string) list"
  regions :: "address_range list"

type_synonym 'a alloc_outcome = "(address_allocator \<times> ('a, resource_error) result) option"

definition new_from_list ::
  "address_range list \<Rightarrow> u64 option \<Rightarrow> u64 option \<Rightarrow> (address_allocator, resource_error) result" where
  "new_from_list ps min_al preferred_al =
     (let ps = filter (\<lambda>p. \<not> range_is_empty p) ps;
          min_al = case_option 4 (\<lambda>a. a) min_al
      in if \<not> is_power_of_two min_al \<or> min_al = 0 then Err BadAlignment
         else let preferred_al = case_option min_al (\<lambda>a. a) preferred_al
              in if \<not> is_power_of_two preferred_al \<or> preferred_al < min_al then Err BadAlignment
                 else Ok \<lparr>pools = ps, min_align = min_al, preferred_align = preferred_al,
                          allocs = [], regions = fold (bset_insert range_cmp) ps []\<rparr>)"

definition new_allocator ::
  "address_range \<Rightarrow> u64 option \<Rightarrow> u64 option \<Rightarrow> (address_allocator, resource_error) result" where
  "new_allocator pool min_al preferred_al = new_from_list [pool] min_al preferred_al"

definition internal_allocate_from_slot ::
  "address_allocator \<Rightarrow> address_range \<Rightarrow> address_range \<Rightarrow> alloc \<Rightarrow> string \<Rightarrow> u64 alloc_outcome" where
  "internal_allocate_from_slot self slot rng alloc tag = do {
     let (rs, slot_was_present) = bset_remove range_cmp slot (regions self);
     assert_that slot_was_present;
     (lo, hi) \<leftarrow> non_overlapping_ranges slot rng;
     let rs = (if \<not> range_is_empty lo then bset_insert range_cmp lo rs else rs);
     let rs = (if \<not> range_is_empty hi then bset_insert range_cmp hi rs else rs);
     Some (self\<lparr>regions := rs, allocs := AList.update alloc (rng, tag) (allocs self)\<rparr>,
           Ok (range_start rng))
   }"

text \<open>The two closures that pick a region, and the address chosen in the picked region.\<close>

definition forward_fit :: "u64 \<Rightarrow> u64 \<Rightarrow> address_range \<Rightarrow> bool option" where
  "forward_fit sz al rng = do {
     let r = range_start rng mod al;
     last \<leftarrow> (if r = 0 then Some (checked_add (range_start rng) (sz - 1))
             else do {
               x \<leftarrow> checked_add (sz - 1) al;
               y \<leftarrow> checked_sub x r;
               Some (checked_add (range_start rng) y)
             });
     Some (case last of None \<Rightarrow> False | Some e \<Rightarrow> e \<le> range_end rng)
   }"

definition reverse_fit :: "u64 \<Rightarrow> u64 \<Rightarrow> address_range \<Rightarrow> bool" where
  "reverse_fit sz al rng =
     (case checked_sub (range_end rng) (sz - 1) of
        None \<Rightarrow> False
      | Some s \<Rightarrow> align_down s al \<ge> range_start rng)"

definition forward_start :: "u64 \<Rightarrow> address_range \<Rightarrow> u64 option" where
  "forward_start al slot =
     (let r = range_start slot mod al
      in if r = 0 then Some (range_start slot)
         else do { x \<leftarrow> checked_add (range_start slot) al; checked_sub x r })"

definition reverse_start :: "u64 \<Rightarrow> u64 \<Rightarrow> address_range \<Rightarrow> u64 option" where
  "reverse_start sz al slot = do {
     x \<leftarrow> checked_sub (range_end slot) (sz - 1);
     Some (align_down x al)
   }"

definition internal_allocate_with_align ::
  "address_allocator \<Rightarrow> u64 \<Rightarrow> alloc \<Rightarrow> string \<Rightarrow> u64 \<Rightarrow> bool \<Rightarrow> u64 alloc_outcome" where
  "internal_allocate_with_align self sz alloc tag al reverse =
     (let al = max (min_align self) al
      in if map_of (allocs self) alloc \<noteq> None then Some (self, Err (ExistingAlloc alloc))
         else if sz = 0 then Some (self, Err AllocSizeZero)
         else if \<not> is_power_of_two al then Some (self, Err BadAlignment)
         else do {
           region \<leftarrow> (if \<not> reverse then try_find (forward_fit sz al) (regions self)
                     else Some (find (reverse_fit sz al) (rev (regions self))));
           case region of
             Some slot \<Rightarrow> do {
               start \<leftarrow> (if \<not> reverse then forward_start al slot else reverse_start sz al slot);
               x \<leftarrow> checked_add start sz;
               e \<leftarrow> checked_sub x 1;
               internal_allocate_from_slot self slot \<lparr>range_start = start, range_end = e\<rparr> alloc tag
             }
           | None \<Rightarrow> Some (self, Err OutOfSpace)
         })"

definition reverse_allocate_with_align ::
  "address_allocator \<Rightarrow> u64 \<Rightarrow> alloc \<Rightarrow> string \<Rightarrow> u64 \<Rightarrow> u64 alloc_outcome" where
  "reverse_allocate_with_align self sz alloc tag al =
     internal_allocate_with_align self sz alloc tag al True"

definition reverse_allocate ::
  "address_allocator \<Rightarrow> u64 \<Rightarrow> alloc \<Rightarrow> string \<Rightarrow> u64 alloc_outcome" where
  "reverse_allocate self sz alloc tag = do {
     (self', res) \<leftarrow> reverse_allocate_with_align self sz alloc tag (preferred_align self);
     case res of
       Ok a \<Rightarrow> Some (self', Ok a)
     | Err _ \<Rightarrow> reverse_allocate_with_align self' sz alloc tag (min_align self')
   }"

definition allocate_with_align ::
  "address_allocator \<Rightarrow> u64 \<Rightarrow> alloc \<Rightarrow> string \<Rightarrow> u64 \<Rightarrow> u64 alloc_outcome" where
  "allocate_with_align self sz alloc tag al =
     internal_allocate_with_align self sz alloc tag al False"

definition allocate :: "address_allocator \<Rightarrow> u64 \<Rightarrow> alloc \<Rightarrow> string \<Rightarrow> u64 alloc_outcome" where
  "allocate self sz alloc tag = do {
     (self', res) \<leftarrow> allocate_with_align self sz alloc tag (preferred_align self);
     case res of
       Ok a \<Rightarrow> Some (self', Ok a)
     | Err _ \<Rightarrow> allocate_with_align self' sz alloc tag (min_align self')
   }"

definition find_overlapping :: "address_allocator \<Rightarrow> address_range \<Rightarrow> alloc option" where
  "find_overlapping self rng =
     (if range_is_empty rng then None
      else map_option fst (find (\<lambda>(_, alloc_range, _). overlaps alloc_range rng) (allocs self)))"

definition allocate_at ::
  "address_allocator \<Rightarrow> address_range \<Rightarrow> alloc \<Rightarrow> string \<Rightarrow> unit alloc_outcome" where
  "allocate_at self rng alloc tag =
     (if map_of (allocs self) alloc \<noteq> None then Some (self, Err (ExistingAlloc alloc))
      else if range_is_empty rng then Some (self, Err AllocSizeZero)
      else case find (\<lambda>avail_range. contains_range avail_range rng) (regions self) of
             Some slot \<Rightarrow> do {
               (self', res) \<leftarrow> internal_allocate_from_slot self slot rng alloc tag;
               Some (self', map_ok (\<lambda>_. ()) res)
             }
           | None \<Rightarrow>
               (case find_overlapping self rng of
                  Some existing_alloc \<Rightarrow> Some (self, Err (ExistingAlloc existing_alloc))
                | None \<Rightarrow> Some (self, Err OutOfSpace)))"

text \<open>\<open>insert_at\<close>: the neighbours to coalesce with. \<open>max\<close> and \<open>min\<close> of an ascending range are its
  last and its first element.\<close>

definition smaller_merge ::
  "address_allocator \<Rightarrow> address_range \<Rightarrow> (address_range option, resource_error) result" where
  "smaller_merge self slot =
     (case next_back (bset_range_to_incl range_cmp slot (regions self)) of
        None \<Rightarrow> Ok None
      | Some smaller \<Rightarrow>
          (case checked_add (range_end smaller) 1 of
             None \<Rightarrow> Err (RegionOverlap slot)
           | Some next_addr \<Rightarrow>
               (case cmp_word next_addr (range_start slot) of
                  Less \<Rightarrow> Ok None
                | Equal \<Rightarrow> Ok (Some smaller)
                | Greater \<Rightarrow> Err (RegionOverlap slot))))"

definition larger_merge ::
  "address_allocator \<Rightarrow> address_range \<Rightarrow> (address_range option, resource_error) result" where
  "larger_merge self slot =
     (case next_front (bset_range_from_excl range_cmp slot (regions self)) of
        None \<Rightarrow> Ok None
      | Some larger \<Rightarrow>
          (case checked_sub (range_start larger) 1 of
             None \<Rightarrow> Err (RegionOverlap slot)
           | Some prev_addr \<Rightarrow>
               (case cmp_word (range_end slot) prev_addr of
                  Less \<Rightarrow> Ok None
                | Equal \<Rightarrow> Ok (Some larger)
                | Greater \<Rightarrow> Err (RegionOverlap slot))))"

definition insert_at ::
  "address_allocator \<Rightarrow> address_range \<Rightarrow> address_allocator \<times> (unit, resource_error) result" where
  "insert_at self slot =
     (if range_is_empty slot then (self, Err AllocSizeZero)
      else case smaller_merge self slot of
             Err e \<Rightarrow> (self, Err e)
           | Ok sm \<Rightarrow>
               (case larger_merge self slot of
                  Err e \<Rightarrow> (self, Err e)
                | Ok lm \<Rightarrow>
                    let (rs, slot) = (case sm of
                          None \<Rightarrow> (regions self, slot)
                        | Some smaller \<Rightarrow> (fst (bset_remove range_cmp smaller (regions self)),
                                         slot\<lparr>range_start := range_start smaller\<rparr>));
                        (rs, slot) = (case lm of
                          None \<Rightarrow> (rs, slot)
                        | Some larger \<Rightarrow> (fst (bset_remove range_cmp larger rs),
                                        slot\<lparr>range_end := range_end larger\<rparr>))
                    in (self\<lparr>regions := bset_insert range_cmp slot rs\<rparr>, Ok ())))"

definition release ::
  "address_allocator \<Rightarrow> alloc \<Rightarrow> address_allocator \<times> (address_range, resource_error) result" where
  "release self alloc =
     (case map_of (allocs self) alloc of
        Some (rng, _) \<Rightarrow>
          (case insert_at (self\<lparr>allocs := AList.delete alloc (allocs self)\<rparr>) rng of
             (self', Ok _) \<Rightarrow> (self', Ok rng)
           | (self', Err e) \<Rightarrow> (self', Err e))
      | None \<Rightarrow> (self, Err (BadAlloc alloc)))"

definition release_containing ::
  "address_allocator \<Rightarrow> u64 \<Rightarrow> address_allocator \<times> (address_range, resource_error) result" where
  "release_containing self v =
     (case find_overlapping self \<lparr>range_start = v, range_end = v\<rparr> of
        Some alloc \<Rightarrow> release self alloc
      | None \<Rightarrow> (self, Err OutOfSpace))"

definition get_max_addr :: "address_allocator \<Rightarrow> u64" where
  "get_max_addr self = fold (\<lambda>rng x. max x (range_end rng)) (regions self) 0"

definition get_alloc :: "address_allocator \<Rightarrow> alloc \<Rightarrow> (address_range \<times> string) option" where
  "get_alloc self alloc = map_of (allocs self) alloc"

definition address_from_pci_offset ::
  "address_allocator \<Rightarrow> alloc \<Rightarrow> u64 \<Rightarrow> u64 \<Rightarrow> (u64, resource_error) result" where
  "address_from_pci_offset self alloc offset sz =
     (case alloc of
        PciBar _ _ _ _ \<Rightarrow>
          (case map_of (allocs self) alloc of
             Some (pci_bar_range, _) \<Rightarrow>
               (case checked_add (range_start pci_bar_range) offset of
                  None \<Rightarrow> Err OutOfBounds
                | Some address \<Rightarrow>
                    (case from_start_and_size address sz of
                       None \<Rightarrow> Err OutOfBounds
                     | Some offset_range \<Rightarrow>
                         if contains_range pci_bar_range offset_range then Ok address
                         else Err OutOfBounds))
           | None \<Rightarrow> Err (InvalidAlloc alloc))
      | _ \<Rightarrow> Err (InvalidAlloc alloc))"

section \<open>Sets of allocators\<close>

text \<open>\<open>AddressAllocatorSet\<close>: each operation tries the allocators in order and stops at the first
  that succeeds; otherwise the result is the last error. The loop is shared.\<close>

fun first_ok ::
  "(address_allocator \<Rightarrow> 'a alloc_outcome) \<Rightarrow> ('a, resource_error) result \<Rightarrow> address_allocator list
     \<Rightarrow> (address_allocator list \<times> ('a, resource_error) result) option" where
  "first_ok f last_res [] = Some ([], last_res)"
| "first_ok f last_res (a # as) = do {
     (a', res) \<leftarrow> f a;
     if is_ok res then Some (a' # as, res)
     else do { (as', res') \<leftarrow> first_ok f res as; Some (a' # as', res') }
   }"

definition set_allocate_with_align where
  "set_allocate_with_align as sz alloc tag al =
     first_ok (\<lambda>a. allocate_with_align a sz alloc tag al) (Err OutOfSpace) as"

definition set_allocate where
  "set_allocate as sz alloc tag = first_ok (\<lambda>a. allocate a sz alloc tag) (Err OutOfSpace) as"

definition set_allocate_at where
  "set_allocate_at as rng alloc tag = first_ok (\<lambda>a. allocate_at a rng alloc tag) (Err OutOfSpace) as"

definition set_release where
  "set_release as alloc = first_ok (\<lambda>a. Some (release a alloc)) (Err OutOfSpace) as"

fun set_get :: "address_allocator list \<Rightarrow> alloc \<Rightarrow> (address_range \<times> string) option" where
  "set_get [] alloc = None"
| "set_get (a # as) alloc =
     (case get_alloc a alloc of Some x \<Rightarrow> Some x | None \<Rightarrow> set_get as alloc)"

fun set_address_from_pci_offset ::
  "(u64, resource_error) result \<Rightarrow> address_allocator list \<Rightarrow> alloc \<Rightarrow> u64 \<Rightarrow> u64
     \<Rightarrow> (u64, resource_error) result" where
  "set_address_from_pci_offset last_res [] alloc offset sz = last_res"
| "set_address_from_pci_offset last_res (a # as) alloc offset sz =
     (let res = address_from_pci_offset a alloc offset sz
      in if is_ok res then res else set_address_from_pci_offset res as alloc offset sz)"

section \<open>Free regions\<close>

definition regions_ok :: "address_range list \<Rightarrow> bool" where
  "regions_ok rs \<longleftrightarrow> range_ord.bset_ok rs \<and> (\<forall>r \<in> set rs. addrs r \<noteq> {}) \<and>
     (\<forall>r \<in> set rs. \<forall>s \<in> set rs. r \<noteq> s \<longrightarrow> addrs r \<inter> addrs s = {})"

definition union_addrs :: "address_range list \<Rightarrow> u64 set" where
  "union_addrs rs = (\<Union>r \<in> set rs. addrs r)"

lemma regions_okD:
  assumes "regions_ok rs"
  shows "range_ord.bset_ok rs" "r \<in> set rs \<Longrightarrow> addrs r \<noteq> {}"
    "r \<in> set rs \<Longrightarrow> s \<in> set rs \<Longrightarrow> r \<noteq> s \<Longrightarrow> addrs r \<inter> addrs s = {}"
  using assms by (auto simp: regions_ok_def)

lemma regions_ok_sorted: "regions_ok rs \<Longrightarrow> sorted_wrt before rs"
proof -
  assume ok: "regions_ok rs"
  have "sorted_wrt (\<lambda>a b. range_cmp a b = Less) rs"
    using ok by (simp add: regions_ok_def range_ord.bset_ok_def)
  then show ?thesis
  proof (rule sorted_wrt_mono_rel [rotated])
    fix x y assume "x \<in> set rs" "y \<in> set rs" "range_cmp x y = Less"
    moreover from this have "x \<noteq> y" by (auto simp: range_ord.cmp_refl)
    ultimately show "before x y"
      using before_cmp [OF regions_okD(2) [OF ok] regions_okD(2) [OF ok] regions_okD(3) [OF ok]]
      by simp
  qed
qed

lemma regions_insert:
  assumes "regions_ok rs" "addrs r \<noteq> {}" "addrs r \<inter> union_addrs rs = {}"
  shows "regions_ok (bset_insert range_cmp r rs)"
    and "set (bset_insert range_cmp r rs) = insert r (set rs)"
    and "union_addrs (bset_insert range_cmp r rs) = addrs r \<union> union_addrs rs"
proof -
  have "range_cmp r s \<noteq> Equal" if "s \<in> set rs" for s
    using assms that by (auto simp: range_cmp_Equal_nonempty union_addrs_def)
  then show set: "set (bset_insert range_cmp r rs) = insert r (set rs)"
    by (intro range_ord.set_bset_insert) auto
  show "regions_ok (bset_insert range_cmp r rs)"
    using assms range_ord.bset_ok_insert [of rs r]
    unfolding regions_ok_def set union_addrs_def by blast
  show "union_addrs (bset_insert range_cmp r rs) = addrs r \<union> union_addrs rs"
    by (simp add: union_addrs_def set)
qed

lemma regions_remove:
  assumes "regions_ok rs" "r \<in> set rs"
  shows "bset_remove range_cmp r rs = (filter (\<lambda>s. s \<noteq> r) rs, True)"
    and "regions_ok (filter (\<lambda>s. s \<noteq> r) rs)"
    and "union_addrs (filter (\<lambda>s. s \<noteq> r) rs) = union_addrs rs - addrs r"
proof -
  have "range_cmp r s = Equal \<longleftrightarrow> s = r" if "s \<in> set rs" for s
    using assms regions_okD(2) range_cmp_Equal_nonempty by metis
  then have "filter (\<lambda>s. range_cmp r s \<noteq> Equal) rs = filter (\<lambda>s. s \<noteq> r) rs"
    by (intro filter_cong) auto
  moreover have "\<exists>s \<in> set rs. range_cmp r s = Equal"
    using assms(2) range_ord.cmp_refl by blast
  ultimately show "bset_remove range_cmp r rs = (filter (\<lambda>s. s \<noteq> r) rs, True)"
    using range_ord.bset_remove_sorted [OF regions_okD(1) [OF assms(1)]] by simp
  show "regions_ok (filter (\<lambda>s. s \<noteq> r) rs)"
    using assms(1) by (auto simp: regions_ok_def range_ord.bset_ok_def sorted_wrt_filter)
  show "union_addrs (filter (\<lambda>s. s \<noteq> r) rs) = union_addrs rs - addrs r"
    using regions_okD(3) [OF assms(1) assms(2)] assms(2) unfolding union_addrs_def by auto
qed

lemma fold_regions_insert:
  assumes "regions_ok rs" "\<forall>p \<in> set ps. addrs p \<noteq> {}"
    "sorted_wrt (\<lambda>p q. addrs p \<inter> addrs q = {}) ps"
    "\<forall>p \<in> set ps. addrs p \<inter> union_addrs rs = {}"
  shows "regions_ok (fold (bset_insert range_cmp) ps rs) \<and>
    union_addrs (fold (bset_insert range_cmp) ps rs) = union_addrs ps \<union> union_addrs rs"
  using assms
proof (induction ps arbitrary: rs)
  case Nil
  then show ?case by (simp add: union_addrs_def)
next
  case (Cons p ps)
  let ?rs = "bset_insert range_cmp p rs"
  have p: "regions_ok ?rs" "union_addrs ?rs = addrs p \<union> union_addrs rs"
    using regions_insert [of rs p] Cons.prems by auto
  have "regions_ok (fold (bset_insert range_cmp) ps ?rs) \<and>
      union_addrs (fold (bset_insert range_cmp) ps ?rs) = union_addrs ps \<union> union_addrs ?rs"
    using p Cons.prems by (intro Cons.IH) auto
  then show ?case using p by (auto simp: union_addrs_def)
qed

section \<open>The invariant\<close>

definition free :: "address_allocator \<Rightarrow> u64 set" where
  "free A = union_addrs (regions A)"

abbreviation entry_range :: "alloc \<times> address_range \<times> string \<Rightarrow> address_range" where
  "entry_range x \<equiv> fst (snd x)"

definition entries_addrs :: "(alloc \<times> address_range \<times> string) list \<Rightarrow> u64 set" where
  "entries_addrs m = (\<Union>x \<in> set m. addrs (entry_range x))"

definition allocated :: "address_allocator \<Rightarrow> u64 set" where
  "allocated A = entries_addrs (allocs A)"

definition allocs_ok :: "(alloc \<times> address_range \<times> string) list \<Rightarrow> bool" where
  "allocs_ok m \<longleftrightarrow> distinct (map fst m) \<and> (\<forall>x \<in> set m. addrs (entry_range x) \<noteq> {}) \<and>
     (\<forall>x \<in> set m. \<forall>y \<in> set m. fst x \<noteq> fst y \<longrightarrow>
        addrs (entry_range x) \<inter> addrs (entry_range y) = {})"

definition allocator_inv :: "address_allocator \<Rightarrow> bool" where
  "allocator_inv A \<longleftrightarrow>
     regions_ok (regions A) \<and> allocs_ok (allocs A) \<and>
     free A \<inter> allocated A = {} \<and> free A \<union> allocated A = union_addrs (pools A) \<and>
     is_power_of_two (min_align A) \<and> is_power_of_two (preferred_align A) \<and>
     min_align A \<le> preferred_align A"

lemma new_from_list_inv:
  assumes "new_from_list ps min_al pref = Ok A"
    and "sorted_wrt (\<lambda>p q. addrs p \<inter> addrs q = {}) ps"
  shows "allocator_inv A" and "free A = union_addrs ps" and "allocs A = []"
proof -
  let ?ps = "filter (\<lambda>p. \<not> range_is_empty p) ps"
  have A: "pools A = ?ps" "regions A = fold (bset_insert range_cmp) ?ps []" "allocs A = []"
    "is_power_of_two (min_align A)" "is_power_of_two (preferred_align A)"
    "min_align A \<le> preferred_align A"
    using assms(1) by (auto simp: new_from_list_def Let_def split: if_splits option.splits)
  have "regions_ok []" by (simp add: regions_ok_def)
  then have r: "regions_ok (regions A)" "union_addrs (regions A) = union_addrs ?ps"
    using fold_regions_insert [of "[]" ?ps] assms(2) A(2)
    by (auto simp: union_addrs_def range_is_empty_addrs sorted_wrt_filter)
  then show "allocator_inv A"
    using A by (simp add: allocator_inv_def free_def allocated_def entries_addrs_def allocs_ok_def)
  have "union_addrs ?ps = union_addrs ps"
    by (auto simp: union_addrs_def range_is_empty_addrs)
  with r show "free A = union_addrs ps" by (simp add: free_def)
  show "allocs A = []" by (rule A(3))
qed

lemma allocator_invD:
  assumes "allocator_inv A"
  shows "regions_ok (regions A)" "allocs_ok (allocs A)" "free A \<inter> allocated A = {}"
    "free A \<union> allocated A = union_addrs (pools A)" "is_power_of_two (min_align A)"
    "is_power_of_two (preferred_align A)" "min_align A \<le> preferred_align A"
  using assms by (simp_all add: allocator_inv_def)

lemma allocs_ok_update:
  assumes "allocs_ok m" "map_of m k = None" "addrs r \<noteq> {}" "addrs r \<inter> entries_addrs m = {}"
  shows "allocs_ok (AList.update k (r, t) m)"
    and "entries_addrs (AList.update k (r, t) m) = addrs r \<union> entries_addrs m"
proof -
  have k: "k \<notin> fst ` set m" using assms(2) by (simp add: map_of_eq_None_iff)
  then have upd: "AList.update k (r, t) m = m @ [(k, r, t)]"
    by (induction m) auto
  then show "entries_addrs (AList.update k (r, t) m) = addrs r \<union> entries_addrs m"
    by (auto simp: entries_addrs_def)
  have "addrs r \<inter> addrs (entry_range x) = {}" if "x \<in> set m" for x
    using assms(4) that by (auto simp: entries_addrs_def)
  then show "allocs_ok (AList.update k (r, t) m)"
    using assms(1,3) k unfolding upd allocs_ok_def by (simp add: Int_commute)
qed

lemma allocs_ok_delete:
  assumes "allocs_ok m" "map_of m k = Some (r, t)"
  shows "allocs_ok (AList.delete k m)"
    and "entries_addrs (AList.delete k m) = entries_addrs m - addrs r"
    and "addrs r \<noteq> {}" and "addrs r \<subseteq> entries_addrs m"
proof -
  have mem: "(k, r, t) \<in> set m" using assms(2) by (rule map_of_SomeD)
  have del: "set (AList.delete k m) = {x \<in> set m. fst x \<noteq> k}"
    by (auto simp: AList.delete_eq)
  show "allocs_ok (AList.delete k m)"
    using assms(1) by (simp add: allocs_ok_def del distinct_delete)
  have other: "addrs (entry_range x) \<inter> addrs r = {}" if "x \<in> set m" "fst x \<noteq> k" for x
  proof -
    have "\<forall>x \<in> set m. \<forall>y \<in> set m. fst x \<noteq> fst y \<longrightarrow>
        addrs (entry_range x) \<inter> addrs (entry_range y) = {}"
      using assms(1) by (simp add: allocs_ok_def)
    from this [rule_format, OF that(1) mem] that(2) show ?thesis by simp
  qed
  have same: "entry_range x = r" if "x \<in> set m" "fst x = k" for x
  proof -
    have "(k, snd x) \<in> set m" using that by (metis prod.collapse)
    then have "map_of m k = Some (snd x)"
      using assms(1) by (intro map_of_is_SomeI) (simp_all add: allocs_ok_def)
    with assms(2) show ?thesis by simp
  qed
  show "entries_addrs (AList.delete k m) = entries_addrs m - addrs r"
    unfolding entries_addrs_def del using other same by blast
  show "addrs r \<noteq> {}" using assms(1) mem by (auto simp: allocs_ok_def)
  show "addrs r \<subseteq> entries_addrs m" using mem by (force simp: entries_addrs_def)
qed

lemma internal_allocate_from_slot_ok:
  assumes inv: "allocator_inv A" and slot: "slot \<in> set (regions A)"
    and ne: "addrs rng \<noteq> {}" and sub: "addrs rng \<subseteq> addrs slot"
    and fresh: "map_of (allocs A) k = None"
  obtains A' where "internal_allocate_from_slot A slot rng k tag = Some (A', Ok (range_start rng))"
    "allocator_inv A'" "free A' = free A - addrs rng"
    "allocs A' = AList.update k (rng, tag) (allocs A)"
    "pools A' = pools A" "min_align A' = min_align A" "preferred_align A' = preferred_align A"
proof -
  note ok = allocator_invD [OF inv]
  let ?rs = "filter (\<lambda>s. s \<noteq> slot) (regions A)"
  note rm = regions_remove [OF ok(1) slot]
  obtain lo hi where nor: "non_overlapping_ranges slot rng = Some (lo, hi)"
    "addrs lo = {a \<in> addrs slot. a < range_start rng}"
    "addrs hi = {a \<in> addrs slot. range_end rng < a}"
    by (rule non_overlapping_ranges_addrs)
  have slot_free: "addrs slot \<subseteq> free A" using slot by (auto simp: free_def union_addrs_def)
  have pieces: "addrs lo \<union> addrs hi = addrs slot - addrs rng"
    unfolding nor(2,3) by (auto simp: addrs_def)
  define rs1 where "rs1 = (if \<not> range_is_empty lo then bset_insert range_cmp lo ?rs else ?rs)"
  define rs2 where "rs2 = (if \<not> range_is_empty hi then bset_insert range_cmp hi rs1 else rs1)"
  have rs1: "regions_ok rs1" "union_addrs rs1 = addrs lo \<union> (free A - addrs slot)"
    using regions_insert [OF rm(2), of lo] rm nor(2)
    by (auto simp: range_is_empty_addrs free_def rs1_def)
  have "addrs lo \<inter> addrs hi = {}"
    using nor(2,3) ne by (auto simp: addrs_def [of rng])
  then have "addrs hi \<inter> union_addrs rs1 = {}"
    using nor(3) unfolding rs1(2) by blast
  then have rs2: "regions_ok rs2" "union_addrs rs2 = addrs hi \<union> union_addrs rs1"
    using regions_insert [OF rs1(1), of hi] rs1(1) by (auto simp: range_is_empty_addrs rs2_def)
  let ?A = "A\<lparr>regions := rs2, allocs := AList.update k (rng, tag) (allocs A)\<rparr>"
  have free: "free ?A = free A - addrs rng"
    using pieces sub slot_free by (simp add: free_def rs2(2) rs1(2)) blast
  have al: "addrs rng \<inter> allocated A = {}"
    using ok(3) sub slot_free by blast
  have up: "allocs_ok (allocs ?A)" "allocated ?A = addrs rng \<union> allocated A"
    using allocs_ok_update [OF ok(2) fresh ne, of tag] al by (simp_all add: allocated_def)
  have "allocator_inv ?A"
    unfolding allocator_inv_def
    unfolding free up(2)
    using up(1) rs2(1) ok(3-7) sub slot_free by (simp, blast)
  moreover have "internal_allocate_from_slot A slot rng k tag = Some (?A, Ok (range_start rng))"
    by (simp add: internal_allocate_from_slot_def rm(1) nor(1) Let_def rs1_def rs2_def)
  ultimately show thesis using free by (intro that [of ?A]) auto
qed

section \<open>Placement\<close>

text \<open>\<open>fits sz al r a\<close>: a block of \<open>sz\<close> bytes at the \<open>al\<close>-aligned address \<open>a\<close> lies inside \<open>r\<close>.\<close>

definition fits :: "u64 \<Rightarrow> u64 \<Rightarrow> address_range \<Rightarrow> nat \<Rightarrow> bool" where
  "fits sz al r a \<longleftrightarrow>
     unat al dvd a \<and> unat (range_start r) \<le> a \<and> a + unat sz \<le> unat (range_end r) + 1"

definition round_up :: "nat \<Rightarrow> nat \<Rightarrow> nat" where
  "round_up n al = (if n mod al = 0 then n else n + al - n mod al)"

lemma round_up_mult: "n mod al \<noteq> 0 \<Longrightarrow> round_up n al = al * Suc (n div al)"
proof -
  assume "n mod al \<noteq> 0"
  then have "round_up n al = n - n mod al + al" by (simp add: round_up_def)
  then show ?thesis by (simp add: minus_mod_eq_mult_div)
qed

lemma round_up_dvd: "al dvd round_up n al"
proof (cases "n mod al = 0")
  case True
  then show ?thesis by (simp add: round_up_def mod_eq_0_iff_dvd)
next
  case False
  show ?thesis unfolding round_up_mult [OF False] by (rule dvd_triv_left)
qed

lemma round_up_ge:
  assumes "0 < al"
  shows "n \<le> round_up n al"
proof (cases "n mod al = 0")
  case False
  have "n mod al \<le> al" using assms by (simp add: less_imp_le)
  moreover have "round_up n al = n + al - n mod al" using False by (simp add: round_up_def)
  ultimately show ?thesis by linarith
qed (simp add: round_up_def)

lemma round_up_least:
  assumes "al dvd a" "n \<le> a"
  shows "round_up n al \<le> a"
proof (cases "n mod al = 0")
  case False
  from assms(1) obtain q where a: "a = al * q" by (auto simp: dvd_def)
  have "\<not> q \<le> n div al"
  proof
    assume "q \<le> n div al"
    then have "al * q \<le> al * (n div al)" by simp
    then show False using assms(2) a False mult_div_mod_eq [of al n] by linarith
  qed
  then have "al * Suc (n div al) \<le> al * q" by (intro mult_le_mono2) simp
  then show ?thesis using False a by (simp add: round_up_mult)
qed (use assms in \<open>simp add: round_up_def\<close>)

lemma fits_round_up:
  assumes "0 < unat al"
  shows "(\<exists>a. fits sz al r a) \<longleftrightarrow> fits sz al r (round_up (unat (range_start r)) (unat al))"
proof
  assume "\<exists>a. fits sz al r a"
  then obtain a where a: "fits sz al r a" ..
  then have "round_up (unat (range_start r)) (unat al) \<le> a"
    by (intro round_up_least) (auto simp: fits_def)
  with a assms show "fits sz al r (round_up (unat (range_start r)) (unat al))"
    by (auto simp: fits_def round_up_dvd round_up_ge)
qed blast

text \<open>Rounding a 64-bit address up to a power of two never needs a 65th bit before the final
  subtraction, because the next multiple is at most \<open>2 ^ 64 - al\<close> above it.\<close>

lemma round_up_sum_bound:
  assumes "is_power_of_two (al :: u64)" "round_up n (unat al) < 2 ^ 64" "n mod unat al \<noteq> 0"
  shows "n + unat al < 2 ^ 64"
proof -
  obtain k where k: "k < 64" "unat al = 2 ^ k"
    using assms(1) by (auto elim: is_power_of_twoE)
  have split: "(2::nat) ^ 64 = 2 ^ k * 2 ^ (64 - k)"
    using k(1) by (simp flip: power_add)
  have "2 ^ k * Suc (n div 2 ^ k) < 2 ^ k * 2 ^ (64 - k)"
    using assms(2) round_up_mult [OF assms(3)] k(2) split by simp
  then have "Suc (n div 2 ^ k) < 2 ^ (64 - k)" by (simp only: mult_less_cancel1)
  then have "2 ^ k * Suc (Suc (n div 2 ^ k)) \<le> 2 ^ k * 2 ^ (64 - k)"
    by (intro mult_le_mono2) simp
  moreover have "n + 2 ^ k < 2 ^ k * Suc (Suc (n div 2 ^ k))"
  proof -
    have "2 ^ k * (n div 2 ^ k) + n mod 2 ^ k = n" by (rule mult_div_mod_eq)
    moreover have "n mod 2 ^ k < (2::nat) ^ k" by simp
    ultimately show ?thesis by (simp only: mult_Suc_right)
  qed
  ultimately show ?thesis using split k(2) by simp
qed

lemma forward_fit_iff:
  assumes al: "is_power_of_two al" and sz: "sz \<noteq> 0"
  shows "forward_fit sz al r =
    (if range_start r mod al \<noteq> 0 \<and> 2 ^ 64 \<le> unat sz - 1 + unat al then None
     else Some (\<exists>a. fits sz al r a))"
proof -
  let ?n = "unat (range_start r)"
  have pos: "0 < unat al" using al by (rule is_power_of_two_pos)
  have sz1: "unat (sz - 1) = unat sz - 1" "0 < unat sz"
    using sz by (simp_all add: unat_minus_one unat_gt_0)
  have md: "unat (range_start r mod al) = ?n mod unat al" by (rule unat_mod_distrib)
  then have z: "range_start r mod al = 0 \<longleftrightarrow> ?n mod unat al = 0"
    by (simp flip: unat_0_iff)
  show ?thesis
  proof (cases "?n mod unat al = 0")
    case True
    then have "round_up ?n (unat al) = ?n" by (simp add: round_up_def)
    then show ?thesis
      using True z sz1 unat_bound [of "range_end r"]
      by (auto simp: forward_fit_def fits_round_up [OF pos] fits_def rust_arith word_nat
            dvd_eq_mod_eq_0 split: option.splits)
  next
    case False
    have lt: "?n mod unat al < unat al" using pos by simp
    show ?thesis
    proof (cases "unat sz - 1 + unat al < 2 ^ 64")
    case over: False
    then have "checked_add (sz - 1) al = None" using sz1 by (simp add: rust_arith)
    then show ?thesis using over False z by (simp add: forward_fit_def)
  next
    case bound: True
    have x: "checked_add (sz - 1) al = Some (sz - 1 + al)"
      using bound sz1 by (simp add: checked_add_def)
    then have ux: "unat (sz - 1 + al) = unat sz - 1 + unat al"
      using sz1 by (simp add: rust_arith)
    define y where "y = sz - 1 + al - range_start r mod al"
    have le: "range_start r mod al \<le> sz - 1 + al" using ux md lt by (simp add: word_nat)
    then have y: "checked_sub (sz - 1 + al) (range_start r mod al) = Some y"
      by (simp add: checked_sub_def y_def)
    have uy: "unat y = unat sz - 1 + unat al - ?n mod unat al"
      using le ux md by (simp add: y_def unat_sub)
    have "round_up ?n (unat al) = ?n + unat al - ?n mod unat al"
      using False by (simp add: round_up_def)
    then have "fits sz al r (round_up ?n (unat al)) \<longleftrightarrow> ?n + unat y \<le> unat (range_end r)"
      using sz1(2) uy lt round_up_dvd [of "unat al" ?n] round_up_ge [OF pos, of ?n]
      by (auto simp: fits_def)
    moreover have "(case checked_add (range_start r) y of None \<Rightarrow> False | Some e \<Rightarrow> e \<le> range_end r)
        = (?n + unat y \<le> unat (range_end r))"
      using unat_bound [of "range_end r"]
      by (auto simp: rust_arith word_nat split: option.splits)
    ultimately show ?thesis
      using False z bound by (simp add: forward_fit_def fits_round_up [OF pos] x y)
    qed
  qed
qed

lemma forward_start_least:
  assumes al: "is_power_of_two al" and ex: "\<exists>a. fits sz al r a" and sz: "sz \<noteq> 0"
  obtains s where "forward_start al r = Some s" "fits sz al r (unat s)"
    "\<And>a. fits sz al r a \<Longrightarrow> unat s \<le> a"
proof -
  let ?n = "unat (range_start r)"
  have pos: "0 < unat al" using al by (rule is_power_of_two_pos)
  have fit: "fits sz al r (round_up ?n (unat al))" using ex fits_round_up [OF pos] by blast
  have small: "round_up ?n (unat al) < 2 ^ 64"
    using fit sz unat_bound [of "range_end r"] by (simp add: fits_def flip: unat_gt_0)
  have md: "unat (range_start r mod al) = ?n mod unat al" by (rule unat_mod_distrib)
  obtain s where s: "forward_start al r = Some s" "unat s = round_up ?n (unat al)"
  proof (cases "?n mod unat al = 0")
    case True
    then have "range_start r mod al = 0" using md by (simp flip: unat_0_iff)
    with True show thesis
      by (intro that [of "range_start r"]) (simp_all add: forward_start_def round_up_def)
  next
    case False
    then have nz: "range_start r mod al \<noteq> 0" using md by (metis unat_0)
    have "?n + unat al < 2 ^ 64" using round_up_sum_bound [OF al small False] .
    then have x: "checked_add (range_start r) al = Some (range_start r + al)"
      by (simp add: checked_add_def)
    then have ux: "unat (range_start r + al) = ?n + unat al" by (simp add: rust_arith)
    have le: "range_start r mod al \<le> range_start r + al"
      using ux md by (simp add: word_nat trans_le_add1)
    have "unat (range_start r + al - range_start r mod al) = round_up ?n (unat al)"
      using le ux md False by (simp add: unat_sub round_up_def)
    then show thesis
      using nz x le
      by (intro that [of "range_start r + al - range_start r mod al"])
         (simp_all add: forward_start_def checked_sub_def Let_def)
  qed
  moreover have "round_up ?n (unat al) \<le> a" if "fits sz al r a" for a
    using that by (intro round_up_least) (auto simp: fits_def)
  ultimately show thesis using fit by (intro that [of s]) auto
qed

lemma reverse_start_greatest:
  assumes al: "is_power_of_two al" and sz: "sz \<noteq> 0"
  shows "reverse_fit sz al r \<longleftrightarrow> (\<exists>a. fits sz al r a)"
    and "reverse_fit sz al r \<Longrightarrow> \<exists>s. reverse_start sz al r = Some s \<and> fits sz al r (unat s) \<and>
      (\<forall>a. fits sz al r a \<longrightarrow> a \<le> unat s)"
proof -
  have sz1: "unat (sz - 1) = unat sz - 1" "0 < unat sz"
    using sz by (simp_all add: unat_minus_one unat_gt_0)
  have le: "fits sz al r a \<Longrightarrow> sz - 1 \<le> range_end r \<and> a \<le> unat (align_down (range_end r - (sz - 1)) al)"
    for a
  proof -
    assume a: "fits sz al r a"
    then have "sz - 1 \<le> range_end r" using sz1 by (auto simp: fits_def word_nat)
    moreover from this have "a \<le> unat (range_end r - (sz - 1))"
      using a sz1 by (auto simp: fits_def unat_sub)
    ultimately show ?thesis
      using a al by (auto simp: fits_def intro: align_down_greatest)
  qed
  have fit: "fits sz al r (unat (align_down (range_end r - (sz - 1)) al))"
    if "sz - 1 \<le> range_end r" "range_start r \<le> align_down (range_end r - (sz - 1)) al"
  proof -
    have "unat (align_down (range_end r - (sz - 1)) al) \<le> unat (range_end r) - (unat sz - 1)"
      using align_down_le [OF al, of "range_end r - (sz - 1)"] that(1) sz1 by (simp add: unat_sub)
    with that sz1 al show ?thesis
      by (auto simp: fits_def word_nat align_down_dvd)
  qed
  show iff: "reverse_fit sz al r \<longleftrightarrow> (\<exists>a. fits sz al r a)"
  proof
    assume "reverse_fit sz al r"
    then show "\<exists>a. fits sz al r a"
      using fit by (auto simp: reverse_fit_def checked_sub_def split: if_splits)
  next
    assume "\<exists>a. fits sz al r a"
    then obtain a where a: "fits sz al r a" ..
    then have "unat (range_start r) \<le> a" by (simp add: fits_def)
    with le [OF a] show "reverse_fit sz al r"
      by (auto simp: reverse_fit_def checked_sub_def word_nat)
  qed
  assume "reverse_fit sz al r"
  then have "sz - 1 \<le> range_end r \<and> range_start r \<le> align_down (range_end r - (sz - 1)) al"
    by (auto simp: reverse_fit_def checked_sub_def split: if_splits)
  then show "\<exists>s. reverse_start sz al r = Some s \<and> fits sz al r (unat s) \<and>
      (\<forall>a. fits sz al r a \<longrightarrow> a \<le> unat s)"
    using fit le by (auto simp: reverse_start_def checked_sub_def)
qed

section \<open>Allocation\<close>

definition block :: "u64 \<Rightarrow> u64 \<Rightarrow> u64 set" where
  "block s sz = {x. unat s \<le> unat x \<and> unat x < unat s + unat sz}"

definition fits_somewhere :: "address_allocator \<Rightarrow> u64 \<Rightarrow> u64 \<Rightarrow> nat \<Rightarrow> bool" where
  "fits_somewhere A sz al a \<longleftrightarrow> (\<exists>r \<in> set (regions A). fits sz al r a)"

text \<open>The region an allocation picks and the address in it: the lowest aligned address of the free
  space where the block fits, the highest one when allocating top-down.\<close>

definition picks :: "address_allocator \<Rightarrow> u64 \<Rightarrow> u64 \<Rightarrow> bool \<Rightarrow> address_range \<Rightarrow> u64 \<Rightarrow> bool" where
  "picks A sz al reverse slot s \<longleftrightarrow>
     slot \<in> set (regions A) \<and> fits sz al slot (unat s) \<and>
     (\<forall>a. fits_somewhere A sz al a \<longrightarrow> (if reverse then a \<le> unat s else unat s \<le> a))"

lemma fits_end: "fits sz al r a \<Longrightarrow> sz \<noteq> 0 \<Longrightarrow> a \<le> unat (range_end r)"
  by (auto simp: fits_def simp flip: unat_gt_0)

lemma fits_before:
  assumes "fits sz al r a" "fits sz al s b" "before r s" "sz \<noteq> 0"
  shows "a \<le> b"
  using fits_end [OF assms(1,4)] assms(2,3) by (simp add: fits_def before_def word_nat)

lemma forward_pick:
  assumes inv: "regions_ok (regions A)" and al: "is_power_of_two al" and sz: "sz \<noteq> 0"
  obtains (none) "try_find (forward_fit sz al) (regions A) = Some None"
      "\<And>a. \<not> fits_somewhere A sz al a"
    | (some) slot s where "try_find (forward_fit sz al) (regions A) = Some (Some slot)"
      "forward_start al slot = Some s" "picks A sz al False slot s"
    | (panic) "try_find (forward_fit sz al) (regions A) = None" "2 ^ 64 \<le> unat sz - 1 + unat al"
proof (cases "try_find (forward_fit sz al) (regions A)")
  case None
  then have "2 ^ 64 \<le> unat sz - 1 + unat al"
    by (auto dest!: try_find_None simp: forward_fit_iff [OF al sz] split: if_splits)
  with None show thesis by (rule panic)
next
  case (Some found)
  then have "found = find (\<lambda>r. \<exists>a. fits sz al r a) (regions A)"
    by (intro try_find_partial) (auto simp: forward_fit_iff [OF al sz] split: if_splits)
  with Some have find: "try_find (forward_fit sz al) (regions A)
      = Some (find (\<lambda>r. \<exists>a. fits sz al r a) (regions A))" by simp
  show thesis
  proof (cases "find (\<lambda>r. \<exists>a. fits sz al r a) (regions A)")
    case None
    then show thesis using find by (intro none) (auto simp: find_None_iff fits_somewhere_def)
  next
    case (Some slot)
    then have slot: "slot \<in> set (regions A)" "\<exists>a. fits sz al slot a"
      by (auto simp: find_Some_iff)
    obtain s where s: "forward_start al slot = Some s" "fits sz al slot (unat s)"
      "\<And>a. fits sz al slot a \<Longrightarrow> unat s \<le> a"
      using forward_start_least [OF al slot(2) sz] by blast
    have "unat s \<le> a" if "fits sz al r a" "r \<in> set (regions A)" for r a
    proof -
      have "slot = r \<or> before slot r"
        using find_first_sorted [OF regions_ok_sorted [OF inv] Some that(2)] that(1) by blast
      then show ?thesis using s(2,3) that(1) fits_before [OF s(2) that(1) _ sz] by blast
    qed
    then show thesis
      using find Some s slot by (intro some) (auto simp: picks_def fits_somewhere_def)
  qed
qed

lemma reverse_pick:
  assumes inv: "regions_ok (regions A)" and al: "is_power_of_two al" and sz: "sz \<noteq> 0"
  obtains (none) "find (reverse_fit sz al) (rev (regions A)) = None"
      "\<And>a. \<not> fits_somewhere A sz al a"
    | (some) slot s where "find (reverse_fit sz al) (rev (regions A)) = Some slot"
      "reverse_start sz al slot = Some s" "picks A sz al True slot s"
proof (cases "find (reverse_fit sz al) (rev (regions A))")
  case None
  then show thesis
    using reverse_start_greatest(1) [OF al sz]
    by (intro none) (auto simp: find_None_iff fits_somewhere_def)
next
  case (Some slot)
  then have slot: "slot \<in> set (regions A)" "reverse_fit sz al slot"
    by (auto simp: find_Some_iff) (metis length_rev nth_mem set_rev)
  obtain s where s: "reverse_start sz al slot = Some s" "fits sz al slot (unat s)"
    "\<And>a. fits sz al slot a \<Longrightarrow> a \<le> unat s"
    using reverse_start_greatest(2) [OF al sz slot(2)] by blast
  have sorted: "sorted_wrt (\<lambda>x y. before y x) (rev (regions A))"
    using regions_ok_sorted [OF inv] by (simp add: sorted_wrt_rev)
  have "a \<le> unat s" if "fits sz al r a" "r \<in> set (regions A)" for r a
  proof -
    have "slot = r \<or> before r slot"
      using find_first_sorted [OF sorted Some, of r] that reverse_start_greatest(1) [OF al sz]
      by auto
    then show ?thesis using s(2,3) that(1) fits_before [OF that(1) s(2) _ sz] by blast
  qed
  then show thesis
    using Some s slot by (intro some) (auto simp: picks_def fits_somewhere_def)
qed

lemma block_addrs:
  assumes "fits sz al r (unat s)" "sz \<noteq> 0" "unat s + unat sz < 2 ^ 64"
  obtains x e where "checked_add s sz = Some x" "checked_sub x 1 = Some e"
    "addrs \<lparr>range_start = s, range_end = e\<rparr> = block s sz" "block s sz \<noteq> {}" "block s sz \<subseteq> addrs r"
proof -
  have pos: "0 < unat sz" using assms(2) by (simp add: unat_gt_0)
  have x: "checked_add s sz = Some (s + sz)" using assms(3) by (simp add: checked_add_def)
  then have ux: "unat (s + sz) = unat s + unat sz" by (simp add: rust_arith)
  then have le: "1 \<le> s + sz" using pos by (simp add: word_nat)
  then have e: "checked_sub (s + sz) 1 = Some (s + sz - 1)" "unat (s + sz - 1) = unat s + unat sz - 1"
    using ux by (simp_all add: checked_sub_def unat_sub)
  have a: "addrs \<lparr>range_start = s, range_end = s + sz - 1\<rparr> = block s sz"
    using e(2) pos by (auto simp: addrs_unat block_def)
  moreover have "s \<in> block s sz" using pos by (simp add: block_def)
  moreover have "block s sz \<subseteq> addrs r"
    using assms(1) by (auto simp: block_def fits_def addrs_unat)
  ultimately show thesis using x e by (intro that) auto
qed

text \<open>The allocation as a whole. It can panic in two ways: \<open>start + size - 1\<close> is evaluated left to
  right, so a block that ends at the last address overflows, and so does \<open>size - 1 + alignment\<close>
  for a huge size when a region is not aligned.\<close>

lemma internal_allocate_cases:
  assumes inv: "allocator_inv A" and fresh: "map_of (allocs A) k = None" and sz: "sz \<noteq> 0"
    and al: "is_power_of_two (max (min_align A) al)"
  obtains (out_of_space)
      "internal_allocate_with_align A sz k tag al reverse = Some (A, Err OutOfSpace)"
      "\<And>a. \<not> fits_somewhere A sz (max (min_align A) al) a"
    | (ok) slot s A' where
      "internal_allocate_with_align A sz k tag al reverse = Some (A', Ok s)"
      "picks A sz (max (min_align A) al) reverse slot s"
      "allocator_inv A'" "free A' = free A - block s sz" "block s sz \<subseteq> free A"
      "addrs \<lparr>range_start = s, range_end = s + sz - 1\<rparr> = block s sz"
      "map_of (allocs A') = (map_of (allocs A))(k \<mapsto> (\<lparr>range_start = s, range_end = s + sz - 1\<rparr>, tag))"
      "pools A' = pools A" "min_align A' = min_align A" "preferred_align A' = preferred_align A"
    | (panic) slot s where
      "internal_allocate_with_align A sz k tag al reverse = None"
      "picks A sz (max (min_align A) al) reverse slot s" "unat s + unat sz = 2 ^ 64"
    | (huge) "internal_allocate_with_align A sz k tag al reverse = None" "\<not> reverse"
      "2 ^ 64 \<le> unat sz - 1 + unat (max (min_align A) al)"
proof -
  let ?al = "max (min_align A) al"
  let ?region = "if \<not> reverse then try_find (forward_fit sz ?al) (regions A)
                 else Some (find (reverse_fit sz ?al) (rev (regions A)))"
  let ?start = "\<lambda>slot. if \<not> reverse then forward_start ?al slot else reverse_start sz ?al slot"
  note ok' = allocator_invD(1) [OF inv]
  have run: "internal_allocate_with_align A sz k tag al reverse =
      (?region \<bind> (\<lambda>region. case region of
         Some slot \<Rightarrow> do {
           start \<leftarrow> ?start slot; x \<leftarrow> checked_add start sz; e \<leftarrow> checked_sub x 1;
           internal_allocate_from_slot A slot \<lparr>range_start = start, range_end = e\<rparr> k tag }
       | None \<Rightarrow> Some (A, Err OutOfSpace)))"
    using fresh sz al by (simp add: internal_allocate_with_align_def Let_def)
  consider "?region = Some None" "\<And>a. \<not> fits_somewhere A sz ?al a"
    | slot s where "?region = Some (Some slot)" "?start slot = Some s" "picks A sz ?al reverse slot s"
    | "?region = None" "\<not> reverse" "2 ^ 64 \<le> unat sz - 1 + unat ?al"
  proof (cases reverse)
    case True
    then show ?thesis
      using reverse_pick [OF ok' al sz] that by (metis (full_types))
  next
    case False
    then show ?thesis using forward_pick [OF ok' al sz] that by (metis (full_types))
  qed
  then show thesis
  proof cases
    case 1
    then show thesis using run by (intro out_of_space) auto
  next
    case (2 slot s)
    then have fit: "fits sz ?al slot (unat s)" and slot: "slot \<in> set (regions A)"
      by (auto simp: picks_def)
    have le: "unat s + unat sz \<le> 2 ^ 64"
      using fit unat_bound [of "range_end slot"] by (simp add: fits_def)
    show thesis
    proof (cases "unat s + unat sz = 2 ^ 64")
      case True
      then have "checked_add s sz = None" by (simp add: rust_arith)
      with True 2 run show thesis by (intro panic [of slot s]) auto
    next
      case False
      with le have "unat s + unat sz < 2 ^ 64" by simp
      then obtain x e where b: "checked_add s sz = Some x" "checked_sub x 1 = Some e"
        "addrs \<lparr>range_start = s, range_end = e\<rparr> = block s sz" "block s sz \<noteq> {}"
        "block s sz \<subseteq> addrs slot"
        using block_addrs [OF fit sz] by blast
      then have e: "e = s + sz - 1" by (auto simp: checked_add_def checked_sub_def split: if_splits)
      obtain A' where A': "internal_allocate_from_slot A slot \<lparr>range_start = s, range_end = e\<rparr> k tag
          = Some (A', Ok s)" "allocator_inv A'" "free A' = free A - block s sz"
        "allocs A' = AList.update k (\<lparr>range_start = s, range_end = e\<rparr>, tag) (allocs A)"
        "pools A' = pools A" "min_align A' = min_align A" "preferred_align A' = preferred_align A"
        using internal_allocate_from_slot_ok [OF inv slot, of "\<lparr>range_start = s, range_end = e\<rparr>" k tag]
          b(3-5) fresh by auto
      have "block s sz \<subseteq> free A" using b(5) slot by (auto simp: free_def union_addrs_def)
      then show thesis
        using run 2 b A' by (intro ok [of A' s slot]) (simp_all add: e [symmetric] update_conv')
    qed
  next
    case 3
    then show thesis using run by (intro huge) auto
  qed
qed

lemma allocate_at_cases:
  assumes inv: "allocator_inv A" and fresh: "map_of (allocs A) k = None" and ne: "addrs rng \<noteq> {}"
  obtains (ok) A' where "allocate_at A rng k tag = Some (A', Ok ())" "allocator_inv A'"
      "\<exists>r \<in> set (regions A). addrs rng \<subseteq> addrs r" "free A' = free A - addrs rng"
      "map_of (allocs A') = (map_of (allocs A))(k \<mapsto> (rng, tag))"
      "pools A' = pools A" "min_align A' = min_align A" "preferred_align A' = preferred_align A"
    | (existing) k' where "allocate_at A rng k tag = Some (A, Err (ExistingAlloc k'))"
      "\<exists>r t. map_of (allocs A) k' = Some (r, t) \<and> addrs r \<inter> addrs rng \<noteq> {}"
      "\<And>r. r \<in> set (regions A) \<Longrightarrow> \<not> addrs rng \<subseteq> addrs r"
    | (out_of_space) "allocate_at A rng k tag = Some (A, Err OutOfSpace)"
      "addrs rng \<inter> allocated A = {}" "\<And>r. r \<in> set (regions A) \<Longrightarrow> \<not> addrs rng \<subseteq> addrs r"
proof (cases "find (\<lambda>avail_range. contains_range avail_range rng) (regions A)")
  case (Some slot)
  then have slot: "slot \<in> set (regions A)" "addrs rng \<subseteq> addrs slot"
    by (auto simp: find_Some_iff range_sem)
  then have free: "\<exists>r \<in> set (regions A). addrs rng \<subseteq> addrs r" by blast
  obtain A' where "internal_allocate_from_slot A slot rng k tag = Some (A', Ok (range_start rng))"
    "allocator_inv A'" "free A' = free A - addrs rng"
    "allocs A' = AList.update k (rng, tag) (allocs A)"
    "pools A' = pools A" "min_align A' = min_align A" "preferred_align A' = preferred_align A"
    using internal_allocate_from_slot_ok [OF inv slot(1) ne slot(2) fresh] by blast
  then show thesis
    using fresh ne Some free
    by (intro ok [of A']) (simp_all add: allocate_at_def range_sem update_conv')
next
  case None
  then have no: "\<And>r. r \<in> set (regions A) \<Longrightarrow> \<not> addrs rng \<subseteq> addrs r"
    using ne by (auto simp: find_None_iff range_sem)
  show thesis
  proof (cases "find (\<lambda>(_, alloc_range, _). overlaps alloc_range rng) (allocs A)")
    case f: None
    then have "addrs rng \<inter> allocated A = {}"
      by (fastforce simp: find_None_iff overlaps_addrs allocated_def entries_addrs_def)
    then show thesis
      using fresh ne None f no
      by (intro out_of_space) (simp_all add: allocate_at_def find_overlapping_def range_is_empty_addrs)
  next
    case f: (Some x)
    obtain k' r t where x: "x = (k', r, t)" by (cases x)
    with f have mem: "(k', r, t) \<in> set (allocs A)" "addrs r \<inter> addrs rng \<noteq> {}"
      by (auto simp: overlaps_addrs dest!: find_SomeD)
    then have "map_of (allocs A) k' = Some (r, t)"
      using allocator_invD(2) [OF inv] by (intro map_of_is_SomeI) (simp_all add: allocs_ok_def)
    then show thesis
      using fresh ne None f mem(2) x no
      by (intro existing [of k'])
         (auto simp: allocate_at_def find_overlapping_def range_is_empty_addrs)
  qed
qed

section \<open>Release\<close>

lemma smaller_merge_ok:
  assumes ok: "regions_ok (regions A)" and ne: "addrs slot \<noteq> {}"
    and disj: "addrs slot \<inter> union_addrs (regions A) = {}"
  obtains (none) "smaller_merge A slot = Ok None"
    | (some) r where "smaller_merge A slot = Ok (Some r)" "r \<in> set (regions A)" "before r slot"
      "addrs (slot\<lparr>range_start := range_start r\<rparr>) = addrs r \<union> addrs slot"
proof (cases "next_back (bset_range_to_incl range_cmp slot (regions A))")
  case None
  then show thesis by (intro none) (simp add: smaller_merge_def)
next
  case (Some r)
  then have r: "r \<in> set (regions A)" "range_cmp r slot \<noteq> Greater"
    using next_back_Some [OF Some] by (auto simp: bset_range_to_incl_def)
  have rne: "addrs r \<noteq> {}" using regions_okD(2) [OF ok r(1)] .
  have d: "addrs r \<inter> addrs slot = {}" using disj r(1) by (auto simp: union_addrs_def)
  then have "range_cmp r slot \<noteq> Equal" using rne by (auto simp: range_cmp_Equal_nonempty)
  then have "range_cmp r slot = Less" using r(2) by (cases "range_cmp r slot") auto
  then have bf: "before r slot" using before_cmp [OF rne ne d] by simp
  then have lt: "unat (range_end r) < unat (range_start slot)" by (simp add: before_def word_nat)
  then have add: "checked_add (range_end r) 1 = Some (range_end r + 1)"
    using unat_bound [of "range_start slot"] by (simp add: checked_add_def)
  then have u: "unat (range_end r + 1) = unat (range_end r) + 1" by (simp add: rust_arith)
  show thesis
  proof (cases "range_end r + 1 = range_start slot")
    case True
    have "addrs (slot\<lparr>range_start := range_start r\<rparr>) = addrs r \<union> addrs slot"
      using True u rne ne unfolding addrs_nonempty_iff
      by (auto simp: addrs_unat word_nat)
    then show thesis
      using True add Some r(1) bf
      by (intro some [of r]) (simp_all add: smaller_merge_def cmp_word_def)
  next
    case False
    then have "range_end r + 1 < range_start slot"
      using u lt by (auto simp: word_nat word_unat_eq_iff)
    then show thesis using add Some by (intro none) (simp add: smaller_merge_def cmp_word_def)
  qed
qed

lemma larger_merge_ok:
  assumes ok: "regions_ok (regions A)" and ne: "addrs slot \<noteq> {}"
    and disj: "addrs slot \<inter> union_addrs (regions A) = {}"
  obtains (none) "larger_merge A slot = Ok None"
    | (some) r where "larger_merge A slot = Ok (Some r)" "r \<in> set (regions A)" "before slot r"
      "\<And>s. s \<le> range_start slot \<Longrightarrow> addrs \<lparr>range_start = s, range_end = range_end r\<rparr> =
         addrs \<lparr>range_start = s, range_end = range_end slot\<rparr> \<union> addrs r"
proof (cases "next_front (bset_range_from_excl range_cmp slot (regions A))")
  case None
  then show thesis by (intro none) (simp add: larger_merge_def)
next
  case (Some r)
  then have r: "r \<in> set (regions A)" "range_cmp r slot = Greater"
    using next_front_Some [OF Some] by (auto simp: bset_range_from_excl_def)
  have rne: "addrs r \<noteq> {}" using regions_okD(2) [OF ok r(1)] .
  have d: "addrs slot \<inter> addrs r = {}" using disj r(1) by (auto simp: union_addrs_def)
  have "range_cmp slot r = Less" using r(2) by (simp add: range_ord.cmp_flip)
  then have bf: "before slot r" using before_cmp [OF ne rne d] by simp
  then have lt: "unat (range_end slot) < unat (range_start r)" by (simp add: before_def word_nat)
  then have sub: "checked_sub (range_start r) 1 = Some (range_start r - 1)"
    by (simp add: checked_sub_def word_nat)
  then have u: "unat (range_start r) = unat (range_start r - 1) + 1" by (simp add: rust_arith)
  show thesis
  proof (cases "range_end slot = range_start r - 1")
    case True
    have "addrs \<lparr>range_start = s, range_end = range_end r\<rparr> =
        addrs \<lparr>range_start = s, range_end = range_end slot\<rparr> \<union> addrs r"
      if "s \<le> range_start slot" for s
      using that True u rne ne unfolding addrs_nonempty_iff
      by (auto simp: addrs_unat word_nat)
    then show thesis
      using True sub Some r(1) bf
      by (intro some [of r]) (simp_all add: larger_merge_def cmp_word_def)
  next
    case False
    then have "range_end slot < range_start r - 1"
      using u lt by (auto simp: word_nat word_unat_eq_iff)
    then show thesis using sub Some by (intro none) (simp add: larger_merge_def cmp_word_def)
  qed
qed

text \<open>Coalescing moves the addresses of a region into the slot being inserted. \<open>absorbs\<close> relates
  slot and regions before and after, for zero, one or two neighbours.\<close>

definition absorbs ::
  "address_range \<Rightarrow> address_range list \<Rightarrow> address_range \<Rightarrow> address_range list \<Rightarrow> bool" where
  "absorbs slot rs slot' rs' \<longleftrightarrow> regions_ok rs' \<and> addrs slot \<subseteq> addrs slot' \<and>
     addrs slot' \<inter> union_addrs rs' = {} \<and>
     addrs slot' \<union> union_addrs rs' = addrs slot \<union> union_addrs rs"

lemma absorbs_region:
  assumes "absorbs slot rs slot1 rs1" "r \<in> set rs1" "addrs slot2 = addrs slot1 \<union> addrs r"
  shows "absorbs slot rs slot2 (fst (bset_remove range_cmp r rs1))"
proof -
  note rm = regions_remove [OF _ assms(2)]
  have "addrs r \<subseteq> union_addrs rs1" using assms(2) by (auto simp: union_addrs_def)
  then show ?thesis using assms(1,3) rm unfolding absorbs_def by auto
qed

lemma absorbs_insert:
  assumes "absorbs slot rs slot' rs'" "addrs slot \<noteq> {}"
  shows "regions_ok (bset_insert range_cmp slot' rs')"
    "union_addrs (bset_insert range_cmp slot' rs') = union_addrs rs \<union> addrs slot"
  using assms regions_insert [of rs' slot'] unfolding absorbs_def by blast+

lemma absorb_smaller:
  assumes ok: "regions_ok (regions A)" and ne: "addrs slot \<noteq> {}"
    and disj: "addrs slot \<inter> union_addrs (regions A) = {}"
  obtains (none) "smaller_merge A slot = Ok None" "absorbs slot (regions A) slot (regions A)"
    | (some) r where "smaller_merge A slot = Ok (Some r)"
      "absorbs slot (regions A) (slot\<lparr>range_start := range_start r\<rparr>)
         (fst (bset_remove range_cmp r (regions A)))"
      "range_start r \<le> range_start slot"
      "\<And>s. s \<in> set (regions A) \<Longrightarrow> before slot s \<Longrightarrow>
         s \<in> set (fst (bset_remove range_cmp r (regions A)))"
proof -
  have id: "absorbs slot (regions A) slot (regions A)"
    using ok disj by (simp add: absorbs_def)
  show thesis
  proof (rule smaller_merge_ok [OF assms])
    assume "smaller_merge A slot = Ok None"
    then show thesis using id by (rule none)
  next
    fix r assume r: "smaller_merge A slot = Ok (Some r)" "r \<in> set (regions A)" "before r slot"
      "addrs (slot\<lparr>range_start := range_start r\<rparr>) = addrs r \<union> addrs slot"
    have le: "range_start r \<le> range_start slot" "\<not> before slot r"
      using r(3) regions_okD(2) [OF ok r(2)] ne unfolding addrs_nonempty_iff before_def by auto
    have "absorbs slot (regions A) (slot\<lparr>range_start := range_start r\<rparr>)
        (fst (bset_remove range_cmp r (regions A)))"
      using absorbs_region [OF id r(2)] r(4) by (simp add: Un_commute)
    then show thesis
      using r(1) le regions_remove(1) [OF ok r(2)] by (intro some) auto
  qed
qed

lemma insert_at_ok:
  assumes ok: "regions_ok (regions A)" and ne: "addrs slot \<noteq> {}"
    and disj: "addrs slot \<inter> union_addrs (regions A) = {}"
  obtains rs where "insert_at A slot = (A\<lparr>regions := rs\<rparr>, Ok ())" "regions_ok rs"
    "union_addrs rs = union_addrs (regions A) \<union> addrs slot"
proof -
  obtain sm slot1 rs1 where one: "smaller_merge A slot = Ok sm"
    "(case sm of None \<Rightarrow> (regions A, slot)
      | Some r \<Rightarrow> (fst (bset_remove range_cmp r (regions A)), slot\<lparr>range_start := range_start r\<rparr>))
     = (rs1, slot1)"
    "absorbs slot (regions A) slot1 rs1" "range_end slot1 = range_end slot"
    "range_start slot1 \<le> range_start slot"
    "\<And>s. s \<in> set (regions A) \<Longrightarrow> before slot s \<Longrightarrow> s \<in> set rs1"
    by (rule absorb_smaller [OF assms]) auto
  obtain lm slot2 rs2 where two: "larger_merge A slot = Ok lm"
    "(case lm of None \<Rightarrow> (rs1, slot1)
      | Some r \<Rightarrow> (fst (bset_remove range_cmp r rs1), slot1\<lparr>range_end := range_end r\<rparr>))
     = (rs2, slot2)"
    "absorbs slot (regions A) slot2 rs2"
  proof (rule larger_merge_ok [OF assms])
    assume "larger_merge A slot = Ok None"
    then show thesis using one(3) by (intro that [of None]) auto
  next
    fix r assume r: "larger_merge A slot = Ok (Some r)" "r \<in> set (regions A)" "before slot r"
      "\<And>s. s \<le> range_start slot \<Longrightarrow> addrs \<lparr>range_start = s, range_end = range_end r\<rparr> =
         addrs \<lparr>range_start = s, range_end = range_end slot\<rparr> \<union> addrs r"
    have "addrs (slot1\<lparr>range_end := range_end r\<rparr>) = addrs slot1 \<union> addrs r"
      using r(4) [OF one(5)] one(4) by (simp add: addrs_def)
    then show thesis
      using absorbs_region [OF one(3) one(6) [OF r(2,3)]] r(1) by (intro that [of "Some r"]) auto
  qed
  have "insert_at A slot = (A\<lparr>regions := bset_insert range_cmp slot2 rs2\<rparr>, Ok ())"
    using ne one(1,2) two(1,2) by (simp add: insert_at_def range_is_empty_addrs)
  then show thesis using absorbs_insert [OF two(3) ne] by (rule that)
qed

lemma release_ok:
  assumes inv: "allocator_inv A" and k: "map_of (allocs A) k = Some (rng, tag)"
  obtains A' where "release A k = (A', Ok rng)" "allocator_inv A'" "free A' = free A \<union> addrs rng"
    "map_of (allocs A') = (map_of (allocs A))(k := None)"
    "pools A' = pools A" "min_align A' = min_align A" "preferred_align A' = preferred_align A"
proof -
  note ok = allocator_invD [OF inv]
  note del = allocs_ok_delete [OF ok(2) k]
  let ?A = "A\<lparr>allocs := AList.delete k (allocs A)\<rparr>"
  have disj: "addrs rng \<inter> free A = {}" using del(4) ok(3) unfolding allocated_def by blast
  obtain rs where rs: "insert_at ?A rng = (?A\<lparr>regions := rs\<rparr>, Ok ())" "regions_ok rs"
    "union_addrs rs = free A \<union> addrs rng"
    using insert_at_ok [of ?A rng] ok(1) del(3) disj by (auto simp: free_def)
  let ?A' = "?A\<lparr>regions := rs\<rparr>"
  have f: "free ?A' = free A \<union> addrs rng" "allocated ?A' = allocated A - addrs rng"
    using rs(3) del(2) by (simp_all add: free_def allocated_def)
  have "allocator_inv ?A'"
    unfolding allocator_inv_def f
    using rs(2) del(1,4) ok(3-7) by (simp add: allocated_def, blast)
  moreover have "release A k = (?A', Ok rng)" using k rs(1) by (simp add: release_def)
  ultimately show thesis using f(1) by (intro that [of ?A']) (auto simp: delete_conv')
qed

lemma find_overlapping_point:
  assumes inv: "allocator_inv A"
  obtains (none) "find_overlapping A \<lparr>range_start = v, range_end = v\<rparr> = None" "v \<notin> allocated A"
    | (some) k rng tag where "find_overlapping A \<lparr>range_start = v, range_end = v\<rparr> = Some k"
      "map_of (allocs A) k = Some (rng, tag)" "v \<in> addrs rng"
proof (cases "find (\<lambda>(_, alloc_range, _). overlaps alloc_range \<lparr>range_start = v, range_end = v\<rparr>) (allocs A)")
  case None
  then show thesis
    by (intro none) (fastforce simp: find_overlapping_def range_is_empty_def find_None_iff
        overlaps_addrs allocated_def entries_addrs_def addrs_def)+
next
  case (Some x)
  obtain k r t where x: "x = (k, r, t)" by (cases x)
  with Some have mem: "(k, r, t) \<in> set (allocs A)" "v \<in> addrs r"
    by (auto simp: overlaps_addrs addrs_def dest!: find_SomeD)
  then have "map_of (allocs A) k = Some (r, t)"
    using allocator_invD(2) [OF inv] by (intro map_of_is_SomeI) (simp_all add: allocs_ok_def)
  then show thesis
    using Some mem(2) x
    by (intro some [of k r t]) (auto simp: find_overlapping_def range_is_empty_def)
qed

section \<open>All operations\<close>

text \<open>Every public operation that changes an allocator, as one step. A panic ends the process, so a
  step is a call that returned, with \<open>Ok\<close> or with \<open>Err\<close>.\<close>

inductive allocator_step :: "address_allocator \<Rightarrow> address_allocator \<Rightarrow> bool" where
  step_allocate_with_align:
    "allocate_with_align A sz k tag al = Some (A', res) \<Longrightarrow> allocator_step A A'"
| step_allocate: "allocate A sz k tag = Some (A', res) \<Longrightarrow> allocator_step A A'"
| step_reverse_allocate_with_align:
    "reverse_allocate_with_align A sz k tag al = Some (A', res) \<Longrightarrow> allocator_step A A'"
| step_reverse_allocate: "reverse_allocate A sz k tag = Some (A', res) \<Longrightarrow> allocator_step A A'"
| step_allocate_at: "allocate_at A rng k tag = Some (A', res') \<Longrightarrow> allocator_step A A'"
| step_release: "release A k = (A', res'') \<Longrightarrow> allocator_step A A'"
| step_release_containing: "release_containing A v = (A', res'') \<Longrightarrow> allocator_step A A'"

text \<open>What every step keeps: the invariant and the configuration.\<close>

definition keeps :: "address_allocator \<Rightarrow> address_allocator \<Rightarrow> bool" where
  "keeps A A' \<longleftrightarrow> allocator_inv A' \<and> pools A' = pools A \<and> min_align A' = min_align A \<and>
     preferred_align A' = preferred_align A"

lemma keeps_refl: "allocator_inv A \<Longrightarrow> keeps A A"
  by (simp add: keeps_def)

lemma keeps_trans: "keeps A B \<Longrightarrow> keeps B C \<Longrightarrow> keeps A C"
  by (simp add: keeps_def)

lemma internal_allocate_errors:
  assumes "internal_allocate_with_align A sz k tag al reverse = Some (A', Err e)"
    "allocator_inv A"
  shows "A' = A"
proof (cases "map_of (allocs A) k \<noteq> None \<or> sz = 0 \<or> \<not> is_power_of_two (max (min_align A) al)")
  case True
  then show ?thesis
    using assms(1) by (auto simp: internal_allocate_with_align_def Let_def split: if_splits)
next
  case False
  then have n: "map_of (allocs A) k = None" "sz \<noteq> 0" "is_power_of_two (max (min_align A) al)"
    by blast+
  show ?thesis
    by (rule internal_allocate_cases [OF assms(2) n, of tag reverse]) (use assms(1) in auto)
qed

lemma internal_allocate_keeps:
  assumes "allocator_inv A" "internal_allocate_with_align A sz k tag al reverse = Some (A', res)"
  shows "keeps A A'"
proof (cases "map_of (allocs A) k \<noteq> None \<or> sz = 0 \<or> \<not> is_power_of_two (max (min_align A) al)")
  case True
  then show ?thesis
    using assms keeps_refl
    by (auto simp: internal_allocate_with_align_def Let_def split: if_splits)
next
  case False
  then have n: "map_of (allocs A) k = None" "sz \<noteq> 0" "is_power_of_two (max (min_align A) al)"
    by blast+
  show ?thesis
    by (rule internal_allocate_cases [OF assms(1) n, of tag reverse])
       (use assms in \<open>auto simp: keeps_def\<close>)
qed

lemma allocate_keeps:
  assumes "allocator_inv A" "allocate A sz k tag = Some (A', res)"
  shows "keeps A A'"
proof -
  from assms(2) obtain B r where B: "allocate_with_align A sz k tag (preferred_align A) = Some (B, r)"
    "A' = B \<or> (\<exists>r'. allocate_with_align B sz k tag (min_align B) = Some (A', r'))"
    by (auto simp: allocate_def split: Option.bind_splits result.splits)
  have "keeps A B"
    using internal_allocate_keeps [OF assms(1)] B(1) by (simp add: allocate_with_align_def)
  moreover have "keeps B A'" if "allocate_with_align B sz k tag (min_align B) = Some (A', r')" for r'
    using internal_allocate_keeps [of B] that \<open>keeps A B\<close>
    by (simp add: allocate_with_align_def keeps_def)
  ultimately show ?thesis using B(2) keeps_trans by blast
qed

lemma reverse_allocate_keeps:
  assumes "allocator_inv A" "reverse_allocate A sz k tag = Some (A', res)"
  shows "keeps A A'"
proof -
  from assms(2) obtain B r where
    B: "reverse_allocate_with_align A sz k tag (preferred_align A) = Some (B, r)"
    "A' = B \<or> (\<exists>r'. reverse_allocate_with_align B sz k tag (min_align B) = Some (A', r'))"
    by (auto simp: reverse_allocate_def split: Option.bind_splits result.splits)
  have "keeps A B"
    using internal_allocate_keeps [OF assms(1)] B(1) by (simp add: reverse_allocate_with_align_def)
  moreover have "keeps B A'"
    if "reverse_allocate_with_align B sz k tag (min_align B) = Some (A', r')" for r'
    using internal_allocate_keeps [of B] that \<open>keeps A B\<close>
    by (simp add: reverse_allocate_with_align_def keeps_def)
  ultimately show ?thesis using B(2) keeps_trans by blast
qed

lemma allocate_at_keeps:
  assumes "allocator_inv A" "allocate_at A rng k tag = Some (A', res)"
  shows "keeps A A'"
proof (cases "map_of (allocs A) k \<noteq> None \<or> range_is_empty rng")
  case True
  then show ?thesis
    using assms keeps_refl by (auto simp: allocate_at_def split: if_splits)
next
  case False
  then have n: "map_of (allocs A) k = None" "addrs rng \<noteq> {}"
    by (auto simp: range_is_empty_addrs)
  show ?thesis
    by (rule allocate_at_cases [OF assms(1) n, of tag]) (use assms in \<open>auto simp: keeps_def\<close>)
qed

lemma release_keeps:
  assumes "allocator_inv A" "release A k = (A', res)"
  shows "keeps A A'"
proof (cases "map_of (allocs A) k")
  case None
  then show ?thesis using assms keeps_refl by (simp add: release_def)
next
  case (Some x)
  then obtain rng tag where "map_of (allocs A) k = Some (rng, tag)" by (cases x) auto
  then show ?thesis
    using assms by (auto elim!: release_ok [OF assms(1), of k rng tag] simp: keeps_def)
qed

lemma release_containing_keeps:
  assumes "allocator_inv A" "release_containing A v = (A', res)"
  shows "keeps A A'"
  using assms release_keeps [OF assms(1)] keeps_refl
  by (auto simp: release_containing_def split: option.splits)

lemma allocator_step_keeps: "allocator_step A A' \<Longrightarrow> allocator_inv A \<Longrightarrow> keeps A A'"
  by (induction rule: allocator_step.induct)
     (auto intro: internal_allocate_keeps allocate_keeps reverse_allocate_keeps allocate_at_keeps
        release_keeps release_containing_keeps
        simp: allocate_with_align_def reverse_allocate_with_align_def)

lemma allocator_steps_keeps: "allocator_step\<^sup>*\<^sup>* A A' \<Longrightarrow> allocator_inv A \<Longrightarrow> keeps A A'"
proof (induction rule: rtranclp_induct)
  case (step B C)
  then show ?case using allocator_step_keeps keeps_trans by (metis keeps_def)
qed (rule keeps_refl)

section \<open>Properties\<close>

text \<open>C1: the comment on \<open>AddressAllocator\<close> ("the union of all regions from allocs and regions equals
  the pools") holds after any sequence of operations on an allocator built over disjoint pools, and
  no address is at once free and allocated, free twice, or allocated twice.\<close>

theorem allocator_partition:
  assumes "new_from_list ps min_al pref = Ok A0"
    and "sorted_wrt (\<lambda>p q. addrs p \<inter> addrs q = {}) ps"
    and "allocator_step\<^sup>*\<^sup>* A0 A"
  shows "free A \<union> allocated A = union_addrs ps \<and> free A \<inter> allocated A = {} \<and>
    (\<forall>r \<in> set (regions A). \<forall>s \<in> set (regions A). r \<noteq> s \<longrightarrow> addrs r \<inter> addrs s = {}) \<and>
    (\<forall>k r t k' r' t'. get_alloc A k = Some (r, t) \<and> get_alloc A k' = Some (r', t') \<and> k \<noteq> k' \<longrightarrow>
       addrs r \<inter> addrs r' = {})"
proof -
  note new = new_from_list_inv [OF assms(1,2)]
  have inv: "allocator_inv A" and pools: "pools A = pools A0"
    using allocator_steps_keeps [OF assms(3) new(1)] by (simp_all add: keeps_def)
  have "union_addrs (pools A0) = union_addrs ps"
    using allocator_invD(4) [OF new(1)] new(2,3)
    by (simp add: allocated_def entries_addrs_def)
  moreover have "addrs r \<inter> addrs r' = {}"
    if "map_of (allocs A) k = Some (r, t)" "map_of (allocs A) k' = Some (r', t')" "k \<noteq> k'"
    for k r t k' r' t'
    using allocator_invD(2) [OF inv] map_of_SomeD [OF that(1)] map_of_SomeD [OF that(2)] that(3)
    by (force simp: allocs_ok_def)
  ultimately show ?thesis
    using allocator_invD [OF inv] pools regions_okD(3) by (simp add: get_alloc_def) blast
qed

definition demo_pool :: address_range where
  "demo_pool = \<lparr>range_start = 4096, range_end = 65535\<rparr>"

definition demo_allocator :: address_allocator where
  "demo_allocator = \<lparr>pools = [demo_pool], min_align = 4, preferred_align = 4,
     allocs = [], regions = [demo_pool]\<rparr>"

definition demo_used :: address_allocator where
  "demo_used = \<lparr>pools = [demo_pool], min_align = 4, preferred_align = 4,
     allocs = [(Anon 1, \<lparr>range_start = 4096, range_end = 4351\<rparr>, ''x'')],
     regions = [\<lparr>range_start = 4352, range_end = 65535\<rparr>]\<rparr>"

lemma new_demo: "new_from_list [demo_pool] None None = Ok demo_allocator"
  by code_simp

lemma allocate_demo:
  "allocate_with_align demo_allocator 256 (Anon 1) ''x'' 4096 = Some (demo_used, Ok 4096)"
  by code_simp

lemma demo_inv: "allocator_inv demo_allocator" "allocator_inv demo_used"
  using new_from_list_inv(1) [OF new_demo]
    internal_allocate_keeps [OF _ allocate_demo [unfolded allocate_with_align_def]]
  by (simp_all add: keeps_def)

lemma demo_free: "free demo_allocator = {4096..65535}" "free demo_used = {4352..65535}"
  by (simp_all add: free_def union_addrs_def demo_allocator_def demo_used_def demo_pool_def addrs_def)

theorem allocator_partition_witness:
  "allocator_step\<^sup>*\<^sup>* demo_allocator demo_used \<and> free demo_used \<union> allocated demo_used = union_addrs [demo_pool]"
proof -
  have steps: "allocator_step\<^sup>*\<^sup>* demo_allocator demo_used"
    by (rule r_into_rtranclp, rule step_allocate_with_align [OF allocate_demo])
  show ?thesis
    using allocator_partition [OF new_demo _ steps] steps by simp
qed

text \<open>What the placement theorems ask of a request: a fresh key, a non-zero size, sizes that do not
  overflow, and a free space that does not reach the last 64-bit address.\<close>

definition effective_align :: "address_allocator \<Rightarrow> u64 \<Rightarrow> u64" where
  "effective_align A al = max (min_align A) al"

definition sane_request :: "address_allocator \<Rightarrow> u64 \<Rightarrow> alloc \<Rightarrow> u64 \<Rightarrow> bool" where
  "sane_request A sz k al \<longleftrightarrow> allocator_inv A \<and> get_alloc A k = None \<and> sz \<noteq> 0 \<and>
     is_power_of_two al \<and> unat sz + unat (effective_align A al) \<le> 2 ^ 64 \<and> - 1 \<notin> free A"

text \<open>The outcome of a request at alignment \<open>al\<close>: the block lies in what was free, is aligned, is
  recorded under the key and removed from the free space.\<close>

definition placed ::
  "address_allocator \<Rightarrow> u64 \<Rightarrow> alloc \<Rightarrow> string \<Rightarrow> u64 \<Rightarrow> address_allocator \<Rightarrow> u64 \<Rightarrow> bool" where
  "placed A sz k tag al A' s \<longleftrightarrow> unat al dvd unat s \<and> block s sz \<subseteq> free A \<and>
     free A' = free A - block s sz \<and> allocator_inv A' \<and>
     get_alloc A' = (get_alloc A)(k \<mapsto> (\<lparr>range_start = s, range_end = s + sz - 1\<rparr>, tag))"

lemma max_power_of_two:
  "is_power_of_two a \<Longrightarrow> is_power_of_two b \<Longrightarrow> is_power_of_two (max a b)"
  by (simp add: max_def)

lemma sane_request_cases:
  assumes "sane_request A sz k al"
  obtains (out_of_space)
      "internal_allocate_with_align A sz k tag al reverse = Some (A, Err OutOfSpace)"
      "\<And>a. \<not> fits_somewhere A sz (effective_align A al) a"
    | (ok) slot s A' where
      "internal_allocate_with_align A sz k tag al reverse = Some (A', Ok s)"
      "picks A sz (effective_align A al) reverse slot s"
      "placed A sz k tag (effective_align A al) A' s"
proof -
  have a: "allocator_inv A" "map_of (allocs A) k = None" "sz \<noteq> 0"
    "is_power_of_two (effective_align A al)"
    using assms allocator_invD(5)
    by (auto simp: sane_request_def get_alloc_def max_power_of_two effective_align_def)
  have small: "unat sz - 1 + unat (effective_align A al) < 2 ^ 64" "- 1 \<notin> free A"
    using assms a(3) by (auto simp: sane_request_def simp flip: unat_gt_0)
  show thesis
  proof (rule internal_allocate_cases [OF a(1-3) a(4) [unfolded effective_align_def], of tag reverse,
        folded effective_align_def])
    assume "internal_allocate_with_align A sz k tag al reverse = Some (A, Err OutOfSpace)"
      "\<And>a. \<not> fits_somewhere A sz (effective_align A al) a"
    then show thesis by (rule out_of_space)
  next
    fix slot s A'
    assume "internal_allocate_with_align A sz k tag al reverse = Some (A', Ok s)"
      and p: "picks A sz (effective_align A al) reverse slot s"
      and "allocator_inv A'" "free A' = free A - block s sz" "block s sz \<subseteq> free A"
        "map_of (allocs A') = (map_of (allocs A))
           (k \<mapsto> (\<lparr>range_start = s, range_end = s + sz - 1\<rparr>, tag))"
    moreover have "unat (effective_align A al) dvd unat s" using p by (simp add: picks_def fits_def)
    ultimately show thesis by (intro ok) (auto simp: placed_def get_alloc_def)
  next
    fix slot s
    assume p: "picks A sz (effective_align A al) reverse slot s" and e: "unat s + unat sz = 2 ^ 64"
    then have slot: "slot \<in> set (regions A)" and "unat s + unat sz \<le> unat (range_end slot) + 1"
      and "unat (range_start slot) \<le> unat s"
      by (auto simp: picks_def fits_def)
    then have "unat (range_end slot) = 2 ^ 64 - 1" using e unat_bound [of "range_end slot"] by simp
    then have "range_end slot = - 1"
      by (simp add: word_unat_eq_iff unsigned_minus_1_eq_mask mask_eq_exp_minus_1)
    then have "- 1 \<in> addrs slot" by (simp add: addrs_def)
    then have "- 1 \<in> free A" using slot by (auto simp: free_def union_addrs_def)
    with small(2) show thesis ..
  next
    assume "2 ^ 64 \<le> unat sz - 1 + unat (effective_align A al)"
    with small(1) show thesis by simp
  qed
qed


lemma demo_sane: "sane_request demo_used 4096 (Anon 2) 4096"
proof -
  have "is_power_of_two (4096 :: u64)" by code_simp
  moreover have "get_alloc demo_used (Anon 2) = None" by code_simp
  moreover have "min_align demo_used = 4" by (simp add: demo_used_def)
  moreover have "- 1 \<notin> {4352..65535 :: u64}"
    by (simp add: word_nat unsigned_minus_1_eq_mask mask_eq_exp_minus_1)
  ultimately show ?thesis
    unfolding sane_request_def demo_free(2) effective_align_def using demo_inv(2) by simp
qed




lemma allocate_cases:
  assumes "sane_request A sz k (preferred_align A)"
  shows "if \<exists>a. fits_somewhere A sz (preferred_align A) a
    then \<exists>A' s. allocate A sz k tag = Some (A', Ok s) \<and> placed A sz k tag (preferred_align A) A' s \<and>
           (\<forall>a. fits_somewhere A sz (preferred_align A) a \<longrightarrow> unat s \<le> a)
    else if \<exists>a. fits_somewhere A sz (min_align A) a
    then \<exists>A' s. allocate A sz k tag = Some (A', Ok s) \<and> placed A sz k tag (min_align A) A' s \<and>
           (\<forall>a. fits_somewhere A sz (min_align A) a \<longrightarrow> unat s \<le> a)
    else allocate A sz k tag = Some (A, Err OutOfSpace)"
proof -
  have inv: "allocator_inv A" using assms by (simp add: sane_request_def)
  have pref: "effective_align A (preferred_align A) = preferred_align A"
    and min: "effective_align A (min_align A) = min_align A"
    using allocator_invD(7) [OF inv] by (simp_all add: effective_align_def max_absorb2)
  have sane: "sane_request A sz k (min_align A)"
  proof -
    have "unat (min_align A) \<le> unat (preferred_align A)"
      using allocator_invD(7) [OF inv] by (simp add: word_nat)
    then show ?thesis
      using assms allocator_invD(5) [OF inv] unfolding sane_request_def pref min by auto
  qed
  show ?thesis
  proof (rule sane_request_cases [OF assms, of tag False, unfolded pref])
    fix slot s A'
    assume "internal_allocate_with_align A sz k tag (preferred_align A) False = Some (A', Ok s)"
      "picks A sz (preferred_align A) False slot s" "placed A sz k tag (preferred_align A) A' s"
    then show ?thesis
      by (auto simp: allocate_def allocate_with_align_def picks_def fits_somewhere_def)
  next
    assume none: "internal_allocate_with_align A sz k tag (preferred_align A) False
        = Some (A, Err OutOfSpace)" "\<And>a. \<not> fits_somewhere A sz (preferred_align A) a"
    then have run: "allocate A sz k tag = internal_allocate_with_align A sz k tag (min_align A) False"
      by (simp add: allocate_def allocate_with_align_def)
    show ?thesis
      unfolding run
      by (rule sane_request_cases [OF sane, of tag False, unfolded min])
         (use none(2) in \<open>auto simp: picks_def fits_somewhere_def\<close>)
  qed
qed

text \<open>\<open>allocate\<close> uses the preferred alignment whenever some free region admits it and falls back
  to the minimum alignment; it reports \<open>OutOfSpace\<close> only if the block fits at neither.\<close>

theorem allocate_prefers:
  assumes "sane_request A sz k (preferred_align A)"
  shows "if \<exists>a. fits_somewhere A sz (preferred_align A) a
    then \<exists>A' s. allocate A sz k tag = Some (A', Ok s) \<and> placed A sz k tag (preferred_align A) A' s \<and>
           (\<forall>a. fits_somewhere A sz (preferred_align A) a \<longrightarrow> unat s \<le> a)
    else if \<exists>a. fits_somewhere A sz (min_align A) a
    then \<exists>A' s. allocate A sz k tag = Some (A', Ok s) \<and> placed A sz k tag (min_align A) A' s \<and>
           (\<forall>a. fits_somewhere A sz (min_align A) a \<longrightarrow> unat s \<le> a)
    else allocate A sz k tag = Some (A, Err OutOfSpace)"
  by (rule allocate_cases [OF assms])

theorem allocate_prefers_witness:
  "\<exists>A'. allocate demo_used 16 (Anon 2) ''y'' = Some (A', Ok 4352) \<and>
     placed demo_used 16 (Anon 2) ''y'' (preferred_align demo_used) A' 4352"
proof -
  have p: "preferred_align demo_used = 4" "min_align demo_used = 4" by (simp_all add: demo_used_def)
  have "is_power_of_two (4 :: u64)" by code_simp
  moreover have "effective_align demo_used 4 = 4" by (simp add: effective_align_def p)
  ultimately have "sane_request demo_used 16 (Anon 2) (preferred_align demo_used)"
    using demo_sane unfolding sane_request_def p by simp
  moreover have "map_option snd (allocate demo_used 16 (Anon 2) ''y'') = Some (Ok 4352)"
    by code_simp
  ultimately show ?thesis
    using allocate_prefers [of demo_used 16 "Anon 2" "''y''"] p by (auto split: if_splits)
qed

text \<open>C25: releasing an allocation undoes it: the same range comes back, the free space and the
  allocation table are what they were before.\<close>

theorem allocate_release_roundtrip:
  assumes "allocator_inv A" and "allocate_with_align A sz k tag al = Some (A', Ok s)"
  shows "\<exists>A''. release A' k = (A'', Ok \<lparr>range_start = s, range_end = s + sz - 1\<rparr>) \<and>
    free A'' = free A \<and> get_alloc A'' = get_alloc A \<and> allocator_inv A''"
proof -
  have run: "internal_allocate_with_align A sz k tag al False = Some (A', Ok s)"
    using assms(2) by (simp add: allocate_with_align_def)
  then have "\<not> (map_of (allocs A) k \<noteq> None \<or> sz = 0 \<or> \<not> is_power_of_two (max (min_align A) al))"
    by (auto simp: internal_allocate_with_align_def Let_def split: if_splits)
  then have n: "map_of (allocs A) k = None" "sz \<noteq> 0" "is_power_of_two (max (min_align A) al)"
    by blast+
  have a: "allocator_inv A' \<and> free A' = free A - block s sz \<and> block s sz \<subseteq> free A \<and>
    map_of (allocs A') = (map_of (allocs A))(k \<mapsto> (\<lparr>range_start = s, range_end = s + sz - 1\<rparr>, tag)) \<and>
    addrs \<lparr>range_start = s, range_end = s + sz - 1\<rparr> = block s sz"
    by (rule internal_allocate_cases [OF assms(1) n, of tag False]) (use run in auto)
  then have k: "map_of (allocs A') k = Some (\<lparr>range_start = s, range_end = s + sz - 1\<rparr>, tag)" by simp
  obtain A'' where "release A' k = (A'', Ok \<lparr>range_start = s, range_end = s + sz - 1\<rparr>)"
    "allocator_inv A''" "free A'' = free A' \<union> block s sz"
    "map_of (allocs A'') = (map_of (allocs A'))(k := None)"
    using release_ok [OF _ k] a by metis
  moreover have "(map_of (allocs A))(k := None) = map_of (allocs A)" using n(1) by auto
  ultimately show ?thesis using a by (auto simp: get_alloc_def)
qed

theorem allocate_release_roundtrip_witness:
  "\<exists>A''. release demo_used (Anon 1) = (A'', Ok \<lparr>range_start = 4096, range_end = 4351\<rparr>) \<and>
     free A'' = free demo_allocator"
  using allocate_release_roundtrip [OF demo_inv(1) allocate_demo] by auto

text \<open>C27: \<open>allocate_at\<close> takes exactly the requested range when one free region holds it. Otherwise
  it changes nothing, and the error says why: some allocation overlaps the range (\<open>ExistingAlloc\<close> of
  that allocation), or no allocation does (\<open>OutOfSpace\<close>).\<close>

theorem allocate_at_outcome:
  assumes "allocator_inv A" and "get_alloc A k = None" and "\<not> range_is_empty rng"
  shows "(\<exists>r \<in> set (regions A). contains_range r rng) \<and>
      (\<exists>A'. allocate_at A rng k tag = Some (A', Ok ()) \<and> allocator_inv A' \<and>
         free A' = free A - addrs rng \<and> get_alloc A' = (get_alloc A)(k \<mapsto> (rng, tag)))
    \<or> (\<forall>r \<in> set (regions A). \<not> contains_range r rng) \<and>
      (\<exists>k' r t. allocate_at A rng k tag = Some (A, Err (ExistingAlloc k')) \<and>
         get_alloc A k' = Some (r, t) \<and> overlaps r rng)
    \<or> (\<forall>r \<in> set (regions A). \<not> contains_range r rng) \<and>
      allocate_at A rng k tag = Some (A, Err OutOfSpace) \<and> addrs rng \<inter> allocated A = {}"
proof -
  have n: "map_of (allocs A) k = None" "addrs rng \<noteq> {}"
    using assms by (auto simp: get_alloc_def range_is_empty_addrs)
  have c: "contains_range r rng \<longleftrightarrow> addrs rng \<subseteq> addrs r" for r
    using n(2) by (simp add: contains_range_addrs)
  show ?thesis
    unfolding c overlaps_addrs get_alloc_def
    by (rule allocate_at_cases [OF assms(1) n, of tag]) blast+
qed

theorem allocate_at_outcome_witness:
  "allocate_at demo_used \<lparr>range_start = 4200, range_end = 5000\<rparr> (Anon 2) ''y''
     = Some (demo_used, Err (ExistingAlloc (Anon 1)))"
proof -
  have "allocate_at demo_used \<lparr>range_start = 4200, range_end = 5000\<rparr> (Anon 2) ''y'' \<noteq>
      Some (demo_used, Err OutOfSpace)"
    by code_simp
  moreover have "(\<forall>r \<in> set (regions demo_used).
      \<not> contains_range r \<lparr>range_start = 4200, range_end = 5000\<rparr>)" by code_simp
  moreover have "get_alloc demo_used (Anon 2) = None" by code_simp
  moreover have "\<not> range_is_empty \<lparr>range_start = 4200, range_end = 5000\<rparr>" by code_simp
  moreover have "get_alloc demo_used k = Some (r, t) \<Longrightarrow> k = Anon 1" for k r t
    by (simp add: get_alloc_def demo_used_def split: if_splits)
  ultimately show ?thesis
    using allocate_at_outcome [OF demo_inv(2), of "Anon 2"
        "\<lparr>range_start = 4200, range_end = 5000\<rparr>" "''y''"] by blast
qed

text \<open>\<open>release_containing\<close> frees the one allocation that holds the address, whatever the iteration
  order of the hash map, and reports \<open>OutOfSpace\<close> when none does.\<close>

theorem release_containing_outcome:
  assumes "allocator_inv A"
  shows "if v \<in> allocated A
    then \<exists>A' k rng tag. get_alloc A k = Some (rng, tag) \<and> v \<in> addrs rng \<and>
           release_containing A v = (A', Ok rng) \<and> allocator_inv A' \<and>
           free A' = free A \<union> addrs rng \<and> get_alloc A' = (get_alloc A)(k := None)
    else release_containing A v = (A, Err OutOfSpace)"
proof (rule find_overlapping_point [OF assms, of v])
  assume "find_overlapping A \<lparr>range_start = v, range_end = v\<rparr> = None" "v \<notin> allocated A"
  then show ?thesis by (simp add: release_containing_def)
next
  fix k rng tag
  assume f: "find_overlapping A \<lparr>range_start = v, range_end = v\<rparr> = Some k"
    "map_of (allocs A) k = Some (rng, tag)" "v \<in> addrs rng"
  then have "v \<in> allocated A"
    using map_of_SomeD [OF f(2)] by (force simp: allocated_def entries_addrs_def)
  moreover obtain A' where "release A k = (A', Ok rng)" "allocator_inv A'"
    "free A' = free A \<union> addrs rng" "map_of (allocs A') = (map_of (allocs A))(k := None)"
    using release_ok [OF assms f(2)] by blast
  ultimately show ?thesis
    using f
    by (auto simp: release_containing_def get_alloc_def fun_eq_iff intro!: exI [of _ k])
qed

theorem release_containing_outcome_witness:
  "\<exists>A'. release_containing demo_used 4300 = (A', Ok \<lparr>range_start = 4096, range_end = 4351\<rparr>) \<and>
     allocator_inv A'"
proof -
  have "4300 \<in> allocated demo_used"
    by (simp add: allocated_def entries_addrs_def demo_used_def addrs_def)
  moreover have "snd (release_containing demo_used 4300) = Ok \<lparr>range_start = 4096, range_end = 4351\<rparr>"
    by code_simp
  ultimately show ?thesis
    using release_containing_outcome [OF demo_inv(2), of 4300] by auto
qed


section \<open>Pools of single numbers\<close>

text \<open>Interrupt numbers, general purpose events and PCI functions are allocated one at a time from
  an allocator whose minimal alignment is 1. In this use the allocator is a pool of numbers.\<close>

definition take_unit :: "string \<Rightarrow> address_allocator \<Rightarrow> alloc \<Rightarrow> (address_allocator \<times> u64 option) option" where
  "take_unit tag A k = do { (A', res) \<leftarrow> allocate A 1 k tag; Some (A', result_ok res) }"

definition reserve_unit :: "string \<Rightarrow> address_allocator \<Rightarrow> u64 \<Rightarrow> alloc \<Rightarrow> (address_allocator \<times> bool) option" where
  "reserve_unit tag A v k = do {
     (A', res) \<leftarrow> allocate_at A \<lparr>range_start = v, range_end = v\<rparr> k tag;
     Some (A', is_ok res)
   }"

definition release_unit :: "address_allocator \<Rightarrow> u64 \<Rightarrow> address_allocator \<times> bool" where
  "release_unit A v = (let (A', res) = release_containing A v in (A', is_ok res))"

definition unit_pool_inv :: "address_allocator \<Rightarrow> bool" where
  "unit_pool_inv A \<longleftrightarrow> allocator_inv A \<and> min_align A = 1 \<and> unat (preferred_align A) \<le> 2 ^ 32 \<and>
     - 1 \<notin> union_addrs (pools A) \<and>
     (\<forall>k r t. get_alloc A k = Some (r, t) \<longrightarrow> range_start r = range_end r)"

lemma allocated_complement: "allocator_inv A \<Longrightarrow> allocated A = union_addrs (pools A) - free A"
  using allocator_invD(3,4) [of A] by blast

lemma block_1: "block s 1 = {s}"
  by (auto simp: block_def word_unat_eq_iff)

lemma addrs_point: "addrs \<lparr>range_start = v, range_end = v\<rparr> = {v}"
  by (auto simp: addrs_def)

lemma fits_unit: "fits_somewhere A 1 al (unat v) \<longleftrightarrow> v \<in> free A \<and> unat al dvd unat v"
  by (auto simp: fits_somewhere_def fits_def free_def union_addrs_def addrs_def word_nat)

lemma fits_unit_ex:
  "fits_somewhere A 1 al a \<longleftrightarrow> (\<exists>v \<in> free A. unat al dvd unat v \<and> a = unat v)"
proof
  assume f: "fits_somewhere A 1 al a"
  then obtain r where "r \<in> set (regions A)" "a + 1 \<le> unat (range_end r) + 1"
    by (auto simp: fits_somewhere_def fits_def)
  then have "a < 2 ^ 64" using unat_bound [of "range_end r"] by simp
  then have "unat (of_nat a :: u64) = a" by (simp add: unat_of_nat)
  with f show "\<exists>v \<in> free A. unat al dvd unat v \<and> a = unat v"
    using fits_unit [of A al "of_nat a"] by metis
qed (use fits_unit in blast)

lemma unit_sane:
  assumes "unit_pool_inv A" "get_alloc A k = None"
  shows "sane_request A 1 k (preferred_align A)"
proof -
  have inv: "allocator_inv A" using assms(1) by (simp add: unit_pool_inv_def)
  have "effective_align A (preferred_align A) = preferred_align A"
    using allocator_invD(7) [OF inv] by (simp add: effective_align_def max_absorb2)
  moreover have "- 1 \<notin> free A"
    using assms(1) allocator_invD(4) [OF inv] by (auto simp: unit_pool_inv_def)
  ultimately show ?thesis
    using assms allocator_invD(6) [OF inv] by (simp add: sane_request_def unit_pool_inv_def)
qed

lemma unit_placed:
  assumes "unit_pool_inv A" "placed A 1 k tag al A' s" "pools A' = pools A" "min_align A' = min_align A"
    "preferred_align A' = preferred_align A"
  shows "unit_pool_inv A'" "s \<in> free A" "free A' = free A - {s}" "allocated A' = insert s (allocated A)"
    "dom (get_alloc A') = insert k (dom (get_alloc A))"
proof -
  show s: "s \<in> free A" "free A' = free A - {s}" and "dom (get_alloc A') = insert k (dom (get_alloc A))"
    using assms(2) by (auto simp: placed_def block_1)
  have inv: "allocator_inv A" "allocator_inv A'"
    using assms(1,2) by (auto simp: unit_pool_inv_def placed_def)
  show "allocated A' = insert s (allocated A)"
    using allocated_complement inv s allocator_invD(4) [OF inv(1)] assms(3) by auto
  show "unit_pool_inv A'"
    using assms by (auto simp: unit_pool_inv_def placed_def split: if_splits)
qed

text \<open>A unit allocation takes the lowest free number at the preferred alignment, and the lowest
  free number if none is so aligned.\<close>

definition unit_choice :: "address_allocator \<Rightarrow> u64 \<Rightarrow> bool" where
  "unit_choice A v \<longleftrightarrow> v \<in> free A \<and>
     (\<forall>w \<in> free A. if unat (preferred_align A) dvd unat w then unat (preferred_align A) dvd unat v \<and> v \<le> w
        else unat (preferred_align A) dvd unat v \<or> v \<le> w)"

lemma allocate_unit:
  assumes "unit_pool_inv A" "get_alloc A k = None" "free A \<noteq> {}"
  obtains A' v al where "allocate A 1 k tag = Some (A', Ok v)" "placed A 1 k tag al A' v" "unit_choice A v"
proof (cases "\<exists>w \<in> free A. unat (preferred_align A) dvd unat w")
  case True
  then have "\<exists>a. fits_somewhere A 1 (preferred_align A) a" by (auto simp: fits_unit_ex)
  then obtain A' v where a: "allocate A 1 k tag = Some (A', Ok v)" "placed A 1 k tag (preferred_align A) A' v"
    and least: "\<And>a. fits_somewhere A 1 (preferred_align A) a \<Longrightarrow> unat v \<le> a"
    using allocate_cases [OF unit_sane [OF assms(1,2)], of tag] by auto
  have "unat (preferred_align A) dvd unat v" "v \<in> free A"
    using a(2) by (auto simp: placed_def block_1)
  moreover have "v \<le> w" if "w \<in> free A" "unat (preferred_align A) dvd unat w" for w
    using least [of "unat w"] that by (auto simp: fits_unit word_nat)
  ultimately have "unit_choice A v" by (simp add: unit_choice_def)
  with a show thesis by (rule that)
next
  case False
  have m: "min_align A = 1" using assms(1) by (simp add: unit_pool_inv_def)
  have "\<nexists>a. fits_somewhere A 1 (preferred_align A) a" "\<exists>a. fits_somewhere A 1 (min_align A) a"
    using False assms(3) by (auto simp: fits_unit_ex m)
  then obtain A' v where a: "allocate A 1 k tag = Some (A', Ok v)" "placed A 1 k tag (min_align A) A' v"
    and least: "\<And>a. fits_somewhere A 1 (min_align A) a \<Longrightarrow> unat v \<le> a"
    using allocate_cases [OF unit_sane [OF assms(1,2)], of tag] by auto
  have "v \<in> free A" using a(2) by (auto simp: placed_def block_1)
  moreover have "v \<le> w" if "w \<in> free A" for w
    using least [of "unat w"] that by (auto simp: fits_unit word_nat m)
  ultimately have "unit_choice A v" using False by (simp add: unit_choice_def)
  with a show thesis by (rule that)
qed

lemma take_unit_cases:
  assumes "unit_pool_inv A" "get_alloc A k = None"
  obtains (none) "free A = {}" "take_unit tag A k = Some (A, None)"
    | (some) A' v where "take_unit tag A k = Some (A', Some v)" "unit_pool_inv A'"
      "pools A' = pools A" "preferred_align A' = preferred_align A"
      "v \<in> free A" "free A' = free A - {v}" "allocated A' = insert v (allocated A)"
      "dom (get_alloc A') = insert k (dom (get_alloc A))" "unit_choice A v"
proof (cases "free A = {}")
  case True
  then have "\<nexists>a. fits_somewhere A 1 al a" for al by (simp add: fits_unit_ex)
  then show thesis
    using True allocate_cases [OF unit_sane [OF assms], of tag] by (intro none) (auto simp: take_unit_def)
next
  case False
  obtain A' v al where a: "allocate A 1 k tag = Some (A', Ok v)" and p: "placed A 1 k tag al A' v"
    and c: "unit_choice A v" using allocate_unit [OF assms False] .
  have inv: "allocator_inv A" using assms(1) by (simp add: unit_pool_inv_def)
  have k: "pools A' = pools A" "min_align A' = min_align A" "preferred_align A' = preferred_align A"
    using allocate_keeps [OF inv a] by (simp_all add: keeps_def)
  have r: "take_unit tag A k = Some (A', Some v)" using a by (simp add: take_unit_def)
  note u = unit_placed [OF assms(1) p k]
  show thesis by (rule some [OF r u(1) k(1,3) u(2-5) c])
qed

lemma reserve_unit_cases:
  assumes "unit_pool_inv A" "get_alloc A k = None"
  obtains (no) "v \<notin> free A" "reserve_unit tag A v k = Some (A, False)"
    | (yes) A' where "v \<in> free A" "reserve_unit tag A v k = Some (A', True)" "unit_pool_inv A'"
      "pools A' = pools A" "preferred_align A' = preferred_align A"
      "free A' = free A - {v}" "allocated A' = insert v (allocated A)"
      "dom (get_alloc A') = insert k (dom (get_alloc A))"
proof -
  have inv: "allocator_inv A" and f: "map_of (allocs A) k = None"
    using assms by (simp_all add: unit_pool_inv_def get_alloc_def)
  let ?r = "\<lparr>range_start = v, range_end = v\<rparr>"
  have fr: "v \<in> free A \<longleftrightarrow> (\<exists>r \<in> set (regions A). addrs ?r \<subseteq> addrs r)"
    by (simp add: free_def union_addrs_def addrs_point)
  show thesis
  proof (rule allocate_at_cases [OF inv f, of ?r tag])
    show "addrs ?r \<noteq> {}" by (simp add: addrs_point)
  next
    fix A' assume a: "allocate_at A ?r k tag = Some (A', Ok ())" "allocator_inv A'"
      "\<exists>r \<in> set (regions A). addrs ?r \<subseteq> addrs r" "free A' = free A - addrs ?r"
      "map_of (allocs A') = (map_of (allocs A))(k \<mapsto> (?r, tag))"
      "pools A' = pools A" "min_align A' = min_align A" "preferred_align A' = preferred_align A"
    then have v: "v \<in> free A" using fr by blast
    have "allocated A' = insert v (allocated A)"
      using allocated_complement [OF a(2)] allocated_complement [OF inv] a(4,6) v
        allocator_invD(4) [OF inv] by (auto simp: addrs_point)
    moreover have "unit_pool_inv A'"
      using assms(1) a(2,5-8) by (auto simp: unit_pool_inv_def get_alloc_def split: if_splits)
    ultimately show thesis
      using a v by (intro yes [of A']) (auto simp: reserve_unit_def addrs_point get_alloc_def)
  next
    fix k' assume "allocate_at A ?r k tag = Some (A, Err (ExistingAlloc k'))"
      "\<And>r. r \<in> set (regions A) \<Longrightarrow> \<not> addrs ?r \<subseteq> addrs r"
    then show thesis using fr by (intro no) (auto simp: reserve_unit_def)
  next
    assume "allocate_at A ?r k tag = Some (A, Err OutOfSpace)"
      "\<And>r. r \<in> set (regions A) \<Longrightarrow> \<not> addrs ?r \<subseteq> addrs r"
    then show thesis using fr by (intro no) (auto simp: reserve_unit_def)
  qed
qed

lemma release_unit_cases:
  assumes "unit_pool_inv A"
  obtains (no) "v \<notin> allocated A" "release_unit A v = (A, False)"
    | (yes) A' where "v \<in> allocated A" "release_unit A v = (A', True)" "unit_pool_inv A'"
      "pools A' = pools A" "preferred_align A' = preferred_align A"
      "free A' = insert v (free A)" "allocated A' = allocated A - {v}"
      "dom (get_alloc A') \<subseteq> dom (get_alloc A)"
proof -
  have inv: "allocator_inv A" using assms by (simp add: unit_pool_inv_def)
  show thesis
  proof (rule find_overlapping_point [OF inv, of v])
    assume "find_overlapping A \<lparr>range_start = v, range_end = v\<rparr> = None" "v \<notin> allocated A"
    then show thesis by (intro no) (simp_all add: release_unit_def release_containing_def)
  next
    fix k rng tag
    assume f: "find_overlapping A \<lparr>range_start = v, range_end = v\<rparr> = Some k"
      "map_of (allocs A) k = Some (rng, tag)" "v \<in> addrs rng"
    then have "range_start rng = range_end rng"
      using assms by (auto simp: unit_pool_inv_def get_alloc_def)
    then have rng: "addrs rng = {v}" using f(3) by (auto simp: addrs_def)
    have v: "v \<in> allocated A"
      using map_of_SomeD [OF f(2)] f(3) by (force simp: allocated_def entries_addrs_def)
    show thesis
    proof (rule release_ok [OF inv f(2)])
      fix A' assume a: "release A k = (A', Ok rng)" "allocator_inv A'" "free A' = free A \<union> addrs rng"
        "map_of (allocs A') = (map_of (allocs A))(k := None)" "pools A' = pools A"
        "min_align A' = min_align A" "preferred_align A' = preferred_align A"
      have "unit_pool_inv A'"
        using assms a(2,4-7) by (auto simp: unit_pool_inv_def get_alloc_def split: if_splits)
      moreover have "allocated A' = allocated A - {v}"
        using allocated_complement [OF a(2)] allocated_complement [OF inv] a(3,5) rng by auto
      ultimately show thesis
        using a f v rng
        by (intro yes [of A']) (auto simp: release_unit_def release_containing_def get_alloc_def split: if_splits)
    qed
  qed
qed

interpretation unit_pool: anon_id_pool unit_pool_inv free allocated "\<lambda>A. dom (get_alloc A)"
  "take_unit tag" "reserve_unit tag" release_unit Anon for tag
proof unfold_locales
  show "unit_pool_inv A \<Longrightarrow> free A \<inter> allocated A = {}" for A
    by (simp add: unit_pool_inv_def allocator_invD(3))
  show "inj Anon" by (simp add: inj_def)
next
  fix A k assume "unit_pool_inv A" "k \<notin> dom (get_alloc A)"
  then show "(free A = {} \<and> take_unit tag A k = Some (A, None)) \<or>
      (\<exists>A' v. take_unit tag A k = Some (A', Some v) \<and> unit_pool_inv A' \<and> v \<in> free A \<and>
         free A' = free A - {v} \<and> allocated A' = insert v (allocated A) \<and>
         dom (get_alloc A') = insert k (dom (get_alloc A)))"
    by (rule_tac take_unit_cases [of A k tag]) auto
next
  fix A k v assume "unit_pool_inv A" "k \<notin> dom (get_alloc A)"
  then show "(v \<notin> free A \<and> reserve_unit tag A v k = Some (A, False)) \<or>
      (v \<in> free A \<and> (\<exists>A'. reserve_unit tag A v k = Some (A', True) \<and> unit_pool_inv A' \<and>
         free A' = free A - {v} \<and> allocated A' = insert v (allocated A) \<and>
         dom (get_alloc A') = insert k (dom (get_alloc A))))"
    by (rule_tac reserve_unit_cases [of A k v tag]) auto
next
  fix A v assume "unit_pool_inv A"
  then show "(v \<notin> allocated A \<and> release_unit A v = (A, False)) \<or>
      (v \<in> allocated A \<and> (\<exists>A'. release_unit A v = (A', True) \<and> unit_pool_inv A' \<and>
         free A' = insert v (free A) \<and> allocated A' = allocated A - {v} \<and>
         dom (get_alloc A') \<subseteq> dom (get_alloc A)))"
    by (rule_tac release_unit_cases [of A v]) auto
qed

end
