(* ===== verification/Pci_Address.thy ===== *)
theory Pci_Address
  imports Prelude
begin

text \<open>
  PCI addresses (\<open>resources/src/pci_address.rs\<close>): the bus, device and function numbers, their text form,
  the CONFIG\_ADDRESS encoding of the CAM and ECAM access mechanisms and the packed forms.
\<close>

datatype pci_address_component = Domain | Bus | Device | Function

datatype pci_address_error =
    ComponentOutOfRange pci_address_component
  | InvalidHex pci_address_component
  | InvalidHostPath
  | MissingDelimiter pci_address_component pci_address_component
  | TooManyComponents

record pci_address =
  bus :: u8
  dev :: u8
  func :: u8

definition pci_address_new :: "u32 \<Rightarrow> u32 \<Rightarrow> u32 \<Rightarrow> u32 \<Rightarrow> (pci_address, pci_address_error) result" where
  "pci_address_new domain b d f =
     (if 0xff < b then Err (ComponentOutOfRange Bus)
      else if 0x1f < d then Err (ComponentOutOfRange Device)
      else if 0x07 < f then Err (ComponentOutOfRange Function)
      else if 0 < domain then Err (ComponentOutOfRange Domain)
      else Ok \<lparr>bus = ucast b, dev = ucast d, func = ucast f\<rparr>)"

section \<open>Text form\<close>

text \<open>\<open>str::rsplit_once\<close>, \<open>u32::from_str_radix (_, 16)\<close> and the \<open>{:0nx}\<close> formatter of the standard
  library.  A string is its UTF-8 bytes.\<close>

definition rsplit_once :: "char \<Rightarrow> string \<Rightarrow> (string \<times> string) option" where
  "rsplit_once c s =
     (if c \<in> set s
      then Some (rev (tl (dropWhile (\<lambda>x. x \<noteq> c) (rev s))), rev (takeWhile (\<lambda>x. x \<noteq> c) (rev s)))
      else None)"

definition hex_value :: "char \<Rightarrow> u32 option" where
  "hex_value c =
     (let n = of_char c :: u8 in
      if 48 \<le> n \<and> n \<le> 57 then Some (ucast (n - 48))
      else if 97 \<le> n \<and> n \<le> 102 then Some (ucast (n - 87))
      else if 65 \<le> n \<and> n \<le> 70 then Some (ucast (n - 55))
      else None)"

fun hex_digits_value :: "u32 \<Rightarrow> string \<Rightarrow> u32 option" where
  "hex_digits_value acc [] = Some acc"
| "hex_digits_value acc (c # cs) = do {
     d \<leftarrow> hex_value c;
     m \<leftarrow> checked_mul acc 16;
     a \<leftarrow> checked_add m d;
     hex_digits_value a cs
   }"

fun from_str_radix_16 :: "string \<Rightarrow> u32 option" where
  "from_str_radix_16 [] = None"
| "from_str_radix_16 (c # cs) =
     (if c = CHR ''+'' then (if cs = [] then None else hex_digits_value 0 cs)
      else hex_digits_value 0 (c # cs))"

definition hex_digit :: "nat \<Rightarrow> char" where
  "hex_digit n = ''0123456789abcdef'' ! n"

fun hex_string :: "nat \<Rightarrow> string" where
  "hex_string n = (if n < 16 then [hex_digit n] else hex_string (n div 16) @ [hex_digit (n mod 16)])"

declare hex_string.simps [simp del]

definition zero_pad :: "nat \<Rightarrow> string \<Rightarrow> string" where
  "zero_pad w s = replicate (w - length s) (CHR ''0'') @ s"

definition pci_address_to_string :: "pci_address \<Rightarrow> string" where
  "pci_address_to_string a =
     zero_pad 4 (hex_string 0) @ '':'' @ zero_pad 2 (hex_string (unat (bus a))) @ '':'' @
     zero_pad 2 (hex_string (unat (dev a))) @ ''.'' @ hex_string (unat (func a))"

definition pci_address_from_str :: "string \<Rightarrow> (pci_address, pci_address_error) result" where
  "pci_address_from_str address =
     (case rsplit_once (CHR ''.'') address of
        None \<Rightarrow> Err (MissingDelimiter Device Function)
      | Some (dev_bus_domain, fn) \<Rightarrow>
     (case from_str_radix_16 fn of
        None \<Rightarrow> Err (InvalidHex Function)
      | Some f \<Rightarrow>
     (case rsplit_once (CHR '':'') dev_bus_domain of
        None \<Rightarrow> Err (MissingDelimiter Bus Device)
      | Some (bus_domain, dv) \<Rightarrow>
     (case from_str_radix_16 dv of
        None \<Rightarrow> Err (InvalidHex Device)
      | Some d \<Rightarrow>
     (let (domain, bs) = (case rsplit_once (CHR '':'') bus_domain of
                            Some p \<Rightarrow> p | None \<Rightarrow> (''0'', bus_domain)) in
     (case from_str_radix_16 bs of
        None \<Rightarrow> Err (InvalidHex Bus)
      | Some b \<Rightarrow>
     (if CHR '':'' \<in> set domain then Err TooManyComponents else
     (case from_str_radix_16 domain of
        None \<Rightarrow> Err (InvalidHex Domain)
      | Some n \<Rightarrow> pci_address_new n b d f))))))))"

section \<open>Configuration addresses\<close>

definition from_config_address :: "u32 \<Rightarrow> usize \<Rightarrow> (pci_address \<times> usize) option" where
  "from_config_address config_address register_bits_num = do {
     dev_offset \<leftarrow> checked_add register_bits_num 3;
     bus_offset \<leftarrow> checked_add dev_offset 5;
     b \<leftarrow> checked_shr config_address bus_offset;
     d \<leftarrow> checked_shr config_address dev_offset;
     f \<leftarrow> checked_shr config_address register_bits_num;
     w \<leftarrow> checked_sub register_bits_num 2;
     one \<leftarrow> checked_shl (1 :: u32) w;
     register_mask \<leftarrow> checked_sub one 1;
     let register = drop_bit 2 config_address AND register_mask;
     Some (\<lparr>bus = ucast (b AND 0x00ff), dev = ucast (d AND 0x1f), func = ucast (f AND 0x07)\<rparr>,
           ucast register)
   }"

definition to_config_address :: "pci_address \<Rightarrow> usize \<Rightarrow> usize \<Rightarrow> u32 option" where
  "to_config_address a register register_bits_num = do {
     dev_offset \<leftarrow> checked_add register_bits_num 3;
     bus_offset \<leftarrow> checked_add dev_offset 5;
     w \<leftarrow> checked_sub register_bits_num 2;
     one \<leftarrow> checked_shl (1 :: u32) w;
     register_mask \<leftarrow> checked_sub one 1;
     b \<leftarrow> checked_shl (0x00ff AND ucast (bus a)) bus_offset;
     d \<leftarrow> checked_shl (0x1f AND ucast (dev a)) dev_offset;
     f \<leftarrow> checked_shl (0x07 AND ucast (func a)) register_bits_num;
     Some (b OR d OR f OR push_bit 2 (register_mask AND ucast register))
   }"

definition to_u32 :: "pci_address \<Rightarrow> u32" where
  "to_u32 a = push_bit 8 (0x00ff AND ucast (bus a)) OR push_bit 3 (0x1f AND ucast (dev a))
     OR (0x07 AND ucast (func a))"

definition devfn :: "pci_address \<Rightarrow> u8" where
  "devfn a = push_bit 3 (dev a) OR func a"

definition acpi_adr :: "pci_address \<Rightarrow> u32" where
  "acpi_adr a = push_bit 16 (0x1f AND ucast (dev a)) OR (0x07 AND ucast (func a))"

definition pme_requester_id :: "pci_address \<Rightarrow> u16" where
  "pme_requester_id a = ucast (to_u32 a)"

definition is_root :: "pci_address \<Rightarrow> bool" where
  "is_root a \<longleftrightarrow> bus a = 0 \<and> dev a = 0 \<and> func a = 0"

section \<open>Valid addresses\<close>

definition pci_address_ok :: "pci_address \<Rightarrow> bool" where
  "pci_address_ok a \<longleftrightarrow> dev a \<le> 31 \<and> func a \<le> 7"

lemma pci_address_new_Ok:
  "pci_address_new n b d f = Ok a \<longleftrightarrow>
     n = 0 \<and> b = ucast (bus a) \<and> d = ucast (dev a) \<and> f = ucast (func a) \<and> pci_address_ok a"
proof
  assume "pci_address_new n b d f = Ok a"
  then have u: "unat b < 2 ^ 8" "unat d \<le> 31" "unat f \<le> 7" "n = 0"
      "a = \<lparr>bus = ucast b, dev = ucast d, func = ucast f\<rparr>"
    by (auto simp: pci_address_new_def word_nat unat_eq_zero split: if_splits)
  then show "n = 0 \<and> b = ucast (bus a) \<and> d = ucast (dev a) \<and> f = ucast (func a) \<and> pci_address_ok a"
    by (simp add: take_bit_small pci_address_ok_def word_nat unsigned_ucast_eq take_bit_nat_eq_self)
next
  assume "n = 0 \<and> b = ucast (bus a) \<and> d = ucast (dev a) \<and> f = ucast (func a) \<and> pci_address_ok a"
  then show "pci_address_new n b d f = Ok a"
    using unat_bound [of "bus a"]
    by (auto simp: pci_address_new_def pci_address_ok_def word_nat unsigned_ucast_eq take_bit_small
        take_bit_nat_eq_self)
qed

section \<open>Printing and parsing\<close>

lemma rsplit_once_append: "c \<notin> set b \<Longrightarrow> rsplit_once c (a @ c # b) = Some (a, b)"
proof -
  assume c: "c \<notin> set b"
  then have "takeWhile (\<lambda>x. x \<noteq> c) (rev b @ c # rev a) = rev b"
    "dropWhile (\<lambda>x. x \<noteq> c) (rev b @ c # rev a) = c # rev a"
    by (auto simp: takeWhile_append dropWhile_append)
  then show ?thesis by (simp add: rsplit_once_def)
qed

lemma rsplit_once_None: "c \<notin> set s \<Longrightarrow> rsplit_once c s = None"
  by (simp add: rsplit_once_def)

lemma hex_digit_cases:
  "n < 16 \<Longrightarrow> hex_value (hex_digit n) = Some (of_nat n) \<and> hex_digit n \<notin> {CHR ''+'', CHR '':'', CHR ''.''}"
proof -
  have "list_all (\<lambda>n. hex_value (hex_digit n) = Some (of_nat n) \<and>
      hex_digit n \<notin> {CHR ''+'', CHR '':'', CHR ''.''}) [0..<16]" by code_simp
  then show "n < 16 \<Longrightarrow> ?thesis" by (simp add: list_all_iff)
qed

lemma hex_digits_value_append:
  "hex_digits_value acc (s @ t) = (hex_digits_value acc s \<bind> (\<lambda>x. hex_digits_value x t))"
  by (induction acc s rule: hex_digits_value.induct) (auto simp: Option.bind_eq_None_conv split: bind_splits)

lemma hex_digits_value_zeros:
  "hex_digits_value 0 (replicate k (CHR ''0'') @ s) = hex_digits_value 0 s"
proof (induction k)
  case (Suc k)
  have "hex_value (CHR ''0'') = Some 0" by code_simp
  moreover have "checked_mul (0 :: u32) 16 = Some 0" "checked_add (0 :: u32) 0 = Some 0"
    by (simp_all add: checked_mul_def checked_add_def)
  ultimately show ?case using Suc by simp
qed simp

lemma hex_string_value: "n < 2 ^ 32 \<Longrightarrow> hex_digits_value 0 (hex_string n) = Some (of_nat n)"
proof (induction n rule: hex_string.induct)
  case (1 n)
  have step: "hex_digits_value (of_nat q) [hex_digit r] = Some (of_nat (16 * q + r))"
    if "16 * q + r < 2 ^ 32" "r < 16" for q r
  proof -
    have q: "unat (of_nat q :: u32) = q" "unat (of_nat r :: u32) = r"
      using that by (simp_all add: unat_of_nat)
    then have "checked_mul (of_nat q :: u32) 16 = Some (16 * of_nat q)"
      using that by (simp add: checked_mul_def mult.commute)
    moreover have "unat (16 * of_nat q :: u32) = 16 * q"
      using that unat_of_nat [where ?'a = 32, of "16 * q"] by simp
    then have "checked_add (16 * of_nat q) (of_nat r :: u32) = Some (of_nat (16 * q + r))"
      using that q by (simp add: checked_add_def)
    ultimately show ?thesis using hex_digit_cases [OF that(2)] by simp
  qed
  show ?case
  proof (cases "n < 16")
    case True
    then show ?thesis using step [of 0 n] by (simp add: hex_string.simps [of n])
  next
    case False
    then have "hex_digits_value 0 (hex_string (n div 16)) = Some (of_nat (n div 16))"
      using 1 by simp
    then show ?thesis
      using False step [of "n div 16" "n mod 16"] 1(2)
      by (simp add: hex_string.simps [of n] hex_digits_value_append)
  qed
qed

lemma hex_string_chars:
  "hex_string n \<noteq> []" "set (hex_string n) \<inter> {CHR ''+'', CHR '':'', CHR ''.''} = {}"
proof (induction n rule: hex_string.induct)
  case (1 n)
  { case 1 show ?case by (simp add: hex_string.simps [of n]) }
  { case 2 show ?case
      using "1.IH"(2) hex_digit_cases [of n] hex_digit_cases [of "n mod 16"]
      by (auto simp: hex_string.simps [of n]) }
qed

lemma zero_pad_chars:
  "zero_pad w (hex_string n) \<noteq> []" "set (zero_pad w (hex_string n)) \<inter> {CHR ''+'', CHR '':'', CHR ''.''} = {}"
  using hex_string_chars [of n] by (auto simp: zero_pad_def)

lemma from_str_radix_zero_pad:
  "n < 2 ^ 32 \<Longrightarrow> from_str_radix_16 (zero_pad w (hex_string n)) = Some (of_nat n)"
proof -
  assume n: "n < 2 ^ 32"
  obtain c cs where c: "zero_pad w (hex_string n) = c # cs" "c \<noteq> CHR ''+''"
    using zero_pad_chars [of w n] by (cases "zero_pad w (hex_string n)") auto
  then have "from_str_radix_16 (zero_pad w (hex_string n)) = hex_digits_value 0 (zero_pad w (hex_string n))"
    by simp
  also have "\<dots> = Some (of_nat n)"
    using n by (simp add: zero_pad_def hex_digits_value_zeros hex_string_value)
  finally show ?thesis .
qed

lemma zero_pad_0: "zero_pad 0 s = s"
  by (simp add: zero_pad_def)

text \<open>The shape both accepted spellings of an address have.\<close>

definition bdf_string :: "pci_address \<Rightarrow> string" where
  "bdf_string a = zero_pad 2 (hex_string (unat (bus a))) @ CHR '':'' #
     zero_pad 2 (hex_string (unat (dev a))) @ CHR ''.'' # zero_pad 0 (hex_string (unat (func a)))"

lemma from_str_bdf:
  assumes "pci_address_ok a" "pre = [] \<or> pre = ''0000:''"
  shows "pci_address_from_str (pre @ bdf_string a) = Ok a"
proof -
  let ?B = "zero_pad 2 (hex_string (unat (bus a)))"
  let ?D = "zero_pad 2 (hex_string (unat (dev a)))"
  let ?F = "zero_pad 0 (hex_string (unat (func a)))"
  have "rsplit_once (CHR ''.'') ((pre @ ?B @ CHR '':'' # ?D) @ CHR ''.'' # ?F) = Some (pre @ ?B @ CHR '':'' # ?D, ?F)"
    by (rule rsplit_once_append) (use zero_pad_chars [of 0 "unat (func a)"] in auto)
  moreover have "rsplit_once (CHR '':'') ((pre @ ?B) @ CHR '':'' # ?D) = Some (pre @ ?B, ?D)"
    by (rule rsplit_once_append) (use zero_pad_chars [of 2 "unat (dev a)"] in auto)
  moreover have "from_str_radix_16 ?B = Some (ucast (bus a))" "from_str_radix_16 ?D = Some (ucast (dev a))"
    "from_str_radix_16 ?F = Some (ucast (func a))"
    using unat_bound [of "bus a"] unat_bound [of "dev a"] unat_bound [of "func a"]
    by (simp_all add: from_str_radix_zero_pad of_nat_unat)
  moreover have "CHR '':'' \<notin> set ?B" using zero_pad_chars [of 2 "unat (bus a)"] by blast
  then have "rsplit_once (CHR '':'') ?B = None" "rsplit_once (CHR '':'') (''0000:'' @ ?B) = Some (''0000'', ?B)"
    using rsplit_once_append [of "CHR '':''" ?B "''0000''"] by (simp_all add: rsplit_once_None)
  moreover have "from_str_radix_16 ''0'' = Some 0" "from_str_radix_16 ''0000'' = Some 0" by code_simp+
  moreover have "pci_address_new 0 (ucast (bus a)) (ucast (dev a)) (ucast (func a)) = Ok a"
    using assms(1) by (simp add: pci_address_new_Ok)
  ultimately show ?thesis
    using assms(2) unfolding pci_address_from_str_def bdf_string_def
    by (elim disjE) (simp_all add: Let_def)
qed

lemma to_string_bdf: "pci_address_to_string a = ''0000:'' @ bdf_string a"
proof -
  have "zero_pad 4 (hex_string 0) = ''0000''" by code_simp
  then show ?thesis by (simp add: pci_address_to_string_def bdf_string_def zero_pad_0)
qed

lemma from_str_valid: "pci_address_from_str s = Ok a \<Longrightarrow> pci_address_ok a"
  by (auto simp: pci_address_from_str_def Let_def pci_address_new_Ok split: option.splits if_splits prod.splits)

section \<open>Packed encodings\<close>

lemma field_masks: "0x00ff = (mask 8 :: u32)" "0x1f = (mask 5 :: u32)" "0x07 = (mask 3 :: u32)"
  by (simp_all add: mask_eq_decr_exp)

lemma unat_field:
  "unat x \<le> 2 ^ k - 1 \<Longrightarrow> unat (mask k AND ucast x :: u32) = unat (x :: u8)"
  using unat_bound [of x]
  by (simp add: unat_and_mask unsigned_ucast_eq take_bit_nat_eq_self)
    (metis One_nat_def Suc_pred mod_less less_Suc_eq_le zero_less_numeral zero_less_power)

lemma packed_fields:
  assumes "pci_address_ok a"
  shows "unat (to_u32 a) = 256 * unat (bus a) + 8 * unat (dev a) + unat (func a)"
    "unat (devfn a) = 8 * unat (dev a) + unat (func a)"
    "unat (acpi_adr a) = 65536 * unat (dev a) + unat (func a)"
proof -
  have le: "unat (bus a) \<le> 2 ^ 8 - 1" "unat (dev a) \<le> 2 ^ 5 - 1" "unat (func a) \<le> 2 ^ 3 - 1"
    using assms unat_bound [of "bus a"] by (simp_all add: pci_address_ok_def word_nat)
  note f = unat_field [OF le(1)] unat_field [OF le(2)] unat_field [OF le(3)]
  have df: "unat (push_bit 3 (mask 5 AND ucast (dev a)) OR (mask 3 AND ucast (func a)) :: u32)
      = unat (dev a) * 2 ^ 3 + unat (func a)"
    using le f by (subst unat_push_bit_or) auto
  show "unat (to_u32 a) = 256 * unat (bus a) + 8 * unat (dev a) + unat (func a)"
    unfolding to_u32_def field_masks or.assoc
    using le f df by (subst unat_push_bit_or) auto
  show "unat (devfn a) = 8 * unat (dev a) + unat (func a)"
    unfolding devfn_def using le by (subst unat_push_bit_or) auto
  show "unat (acpi_adr a) = 65536 * unat (dev a) + unat (func a)"
    unfolding acpi_adr_def field_masks using le f by (subst unat_push_bit_or) auto
qed

section \<open>Configuration address encoding\<close>

lemma config_offsets:
  fixes n :: usize
  assumes "2 \<le> unat n" "unat n \<le> 23"
  obtains d b w where "checked_add n 3 = Some d" "unat d = unat n + 3"
    "checked_add d 5 = Some b" "unat b = unat n + 8" "checked_sub n 2 = Some w" "unat w = unat n - 2"
proof -
  obtain d where d: "checked_add n 3 = Some d" "unat d = unat n + 3"
    using checked_add_ex [of n 3] assms by auto
  moreover obtain b where "checked_add d 5 = Some b" "unat b = unat n + 8"
    using checked_add_ex [of d 5] assms d by auto
  moreover obtain w where "checked_sub n 2 = Some w" "unat w = unat n - 2"
    using checked_sub_ex [of 2 n] assms by auto
  ultimately show thesis by (rule that)
qed

lemma register_mask:
  assumes "k < 32"
  shows "checked_sub (2 ^ k :: u32) 1 = Some (mask k)"
proof -
  have "(1 :: u32) \<le> 2 ^ k" using assms by (simp add: word_nat unat_two_power)
  then show ?thesis by (simp add: checked_sub_def mask_eq_decr_exp)
qed

lemma to_config_address_eq:
  assumes "2 \<le> unat n" "unat n \<le> 23"
  shows "to_config_address a r n = Some
    (push_bit (unat n + 8) (mask 8 AND ucast (bus a)) OR push_bit (unat n + 3) (mask 5 AND ucast (dev a))
     OR push_bit (unat n) (mask 3 AND ucast (func a)) OR push_bit 2 (mask (unat n - 2) AND ucast r))"
proof -
  have "unat n - 2 < 32" "unat n + 8 < 32" "unat n + 3 < 32" "unat n < 32" using assms by auto
  then show ?thesis
    by (rule_tac config_offsets [OF assms])
      (simp add: to_config_address_def checked_shl_def field_masks register_mask)
qed

lemma from_config_address_eq:
  assumes "2 \<le> unat n" "unat n \<le> 23"
  shows "from_config_address c n = Some
    (\<lparr>bus = ucast (drop_bit (unat n + 8) c AND mask 8), dev = ucast (drop_bit (unat n + 3) c AND mask 5),
      func = ucast (drop_bit (unat n) c AND mask 3)\<rparr>,
     ucast (drop_bit 2 c AND mask (unat n - 2)))"
proof -
  have "unat n - 2 < 32" "unat n + 8 < 32" "unat n + 3 < 32" "unat n < 32" using assms by auto
  then show ?thesis
    by (rule_tac config_offsets [OF assms])
      (simp add: from_config_address_def checked_shl_def checked_shr_def field_masks register_mask Let_def)
qed

lemma to_config_address_packed:
  assumes "2 \<le> unat n" "unat n \<le> 23"
  shows "to_config_address a r n =
    Some (push_bit (unat n) (to_u32 a) OR push_bit 2 (mask (unat n - 2) AND ucast r))"
  unfolding to_config_address_eq [OF assms] to_u32_def field_masks
  by (simp add: add.commute or.assoc)

lemma config_value:
  assumes "2 \<le> unat n" "unat n \<le> 16" "pci_address_ok a" "unat r < 2 ^ (unat n - 2)"
  obtains c where "to_config_address a r n = Some c"
    "unat c = unat (to_u32 a) * 2 ^ unat n + 4 * unat r"
proof -
  let ?R = "mask (unat n - 2) AND ucast r :: u32"
  have p: "(2 :: nat) ^ unat n = 4 * 2 ^ (unat n - 2)" using assms(1) by (rule two_power_split)
  have le: "(2 :: nat) ^ unat n \<le> 2 ^ 16" using assms(2) by (rule power_increasing) simp
  have "unat r < 2 ^ 32" using assms(4) p le by simp
  then have R: "unat ?R = unat r"
    using assms(4) by (simp add: unat_and_mask unsigned_ucast_eq take_bit_nat_eq_self)
  have X: "unat (to_u32 a) < 2 ^ 16"
    using packed_fields(1) [OF assms(3)] assms(3) unat_bound [of "bus a"]
    by (simp add: pci_address_ok_def word_nat)
  have r4: "unat (push_bit 2 ?R) = 4 * unat r"
    using unat_push_bit_or [of "0 :: u32" 2 ?R] R assms(4) p le by simp
  have "unat (to_u32 a) * 2 ^ unat n + 4 * unat r < 2 ^ 32"
  proof -
    have "unat (to_u32 a) * 2 ^ unat n + 4 * unat r < (unat (to_u32 a) + 1) * 2 ^ unat n"
      using assms(4) p by (simp add: algebra_simps)
    also have "\<dots> \<le> 2 ^ 16 * 2 ^ 16" using X le by (intro mult_mono) auto
    finally show ?thesis by simp
  qed
  then have "unat (push_bit (unat n) (to_u32 a) OR push_bit 2 ?R)
      = unat (to_u32 a) * 2 ^ unat n + 4 * unat r"
    using unat_push_bit_or [of "push_bit 2 ?R" "unat n" "to_u32 a"] r4 assms(4) p by simp
  with to_config_address_packed [of n a r] assms(1,2) show thesis by (auto intro: that)
qed

lemma bdf_fields:
  assumes "d < 32" "f < 8" "b < (256 :: nat)"
  shows "(256 * b + 8 * d + f) div 256 mod 256 = b" "(256 * b + 8 * d + f) div 8 mod 32 = d"
    "(256 * b + 8 * d + f) mod 8 = f"
proof -
  have e: "256 * b + 8 * d + f = f + 8 * (32 * b + d)" by simp
  show "(256 * b + 8 * d + f) mod 8 = f" unfolding e using assms by (simp only: mod_mult_self2 mod_less)
  have "(256 * b + 8 * d + f) div 8 = d + 32 * b" unfolding e using assms by (subst div_mult_self2) simp_all
  then show "(256 * b + 8 * d + f) div 8 mod 32 = d" using assms by simp
  show "(256 * b + 8 * d + f) div 256 mod 256 = b" using assms by simp
qed

lemma config_fields:
  assumes "2 \<le> unat n" "unat n \<le> 16" "pci_address_ok a"
    "unat c = unat (to_u32 a) * 2 ^ unat n + 4 * unat r" "unat r < 2 ^ (unat n - 2)"
  shows "from_config_address c n = Some (a, r)"
proof -
  have p: "(2 :: nat) ^ unat n = 4 * 2 ^ (unat n - 2)" using assms(1) by (rule two_power_split)
  have X: "unat (to_u32 a) = 256 * unat (bus a) + 8 * unat (dev a) + unat (func a)"
    "unat (dev a) < 32" "unat (func a) < 8" "unat (bus a) < 256"
    using packed_fields(1) [OF assms(3)] assms(3) unat_bound [of "bus a"]
    by (simp_all add: pci_address_ok_def word_nat)
  have hi: "unat c div 2 ^ unat n = unat (to_u32 a)"
    using assms(4,5) p by simp
  have div: "unat c div 2 ^ (unat n + k) = unat (to_u32 a) div 2 ^ k" for k
    by (simp add: power_add div_mult2_eq hi)
  have lo: "unat c div 2 ^ 2 mod 2 ^ (unat n - 2) = unat r"
  proof -
    have "unat c div 4 = unat (to_u32 a) * 2 ^ (unat n - 2) + unat r"
      using assms(4) p by simp
    then show ?thesis using assms(5) by simp
  qed
  have "(2 :: nat) ^ unat n \<le> 2 ^ 16" using assms(2) by (rule power_increasing) simp
  then have "unat r < 2 ^ 32" using assms(5) p by simp
  have f: "unat (to_u32 a) div 2 ^ 8 mod 2 ^ 8 = unat (bus a)"
    "unat (to_u32 a) div 2 ^ 3 mod 2 ^ 5 = unat (dev a)" "unat (to_u32 a) mod 2 ^ 3 = unat (func a)"
    unfolding X(1) using bdf_fields [OF X(2,3,4)] by simp_all
  have "ucast (drop_bit (unat n + 8) c AND mask 8) = bus a"
    "ucast (drop_bit (unat n + 3) c AND mask 5) = dev a"
    "ucast (drop_bit (unat n) c AND mask 3) = func a"
    "ucast (drop_bit 2 c AND mask (unat n - 2)) = r"
    using X(2-4) \<open>unat r < 2 ^ 32\<close>
    by (simp_all only: word_unat_eq_iff unsigned_ucast_eq unat_drop_mask div hi lo f)
      (simp_all add: take_bit_nat_eq_self)
  then show ?thesis using assms(1,2) by (simp add: from_config_address_eq)
qed

section \<open>Properties\<close>

text \<open>C28: every valid address is the parse of its printed form and of the short form without the domain,
  and the parser only ever returns valid addresses: text is a faithful exchange format for addresses
  (it is what \<open>Serialize\<close> and \<open>Deserialize\<close> use).\<close>

theorem pci_address_text_roundtrip:
  "(pci_address_ok a \<longleftrightarrow> pci_address_from_str (pci_address_to_string a) = Ok a) \<and>
   (pci_address_ok a \<longleftrightarrow> pci_address_from_str (drop 5 (pci_address_to_string a)) = Ok a) \<and>
   (pci_address_ok a \<longleftrightarrow> (\<exists>s. pci_address_from_str s = Ok a))"
  using from_str_bdf [of a "[]"] from_str_bdf [of a "''0000:''"] from_str_valid [of _ a]
  by (auto simp: to_string_bdf)

text \<open>C29: for every width that leaves the bus number in the word (CAM uses 8, ECAM 12) an address and a register
  index survive the trip through CONFIG\_ADDRESS, and the encoding keeps the fields at their positions.\<close>

theorem config_address_roundtrip:
  assumes "2 \<le> unat n" "unat n \<le> 16" "pci_address_ok a" "unat r < 2 ^ (unat n - 2)"
  shows "\<exists>c. to_config_address a r n = Some c \<and> from_config_address c n = Some (a, r) \<and>
    unat c = unat (to_u32 a) * 2 ^ unat n + 4 * unat r"
  using config_value [OF assms] config_fields [OF assms(1-3) _ assms(4)] by metis

theorem config_address_roundtrip_witness:
  "\<exists>c. to_config_address \<lparr>bus = 0x32, dev = 0x14, func = 3\<rparr> 0x15 8 = Some c \<and>
     from_config_address c 8 = Some (\<lparr>bus = 0x32, dev = 0x14, func = 3\<rparr>, 0x15)"
  using config_address_roundtrip [of 8 "\<lparr>bus = 0x32, dev = 0x14, func = 3\<rparr>" "0x15"]
  by (auto simp: pci_address_ok_def)

text \<open>the packed forms are the positional values the comments tabulate, and the requester id is a
  unique name of a valid address.\<close>

theorem pci_address_packed:
  assumes "pci_address_ok a" "pci_address_ok b"
  shows "unat (to_u32 a) = 256 * unat (bus a) + 8 * unat (dev a) + unat (func a) \<and>
    unat (devfn a) = 8 * unat (dev a) + unat (func a) \<and>
    unat (acpi_adr a) = 65536 * unat (dev a) + unat (func a) \<and>
    unat (pme_requester_id a) = unat (to_u32 a) \<and>
    (pme_requester_id a = pme_requester_id b \<longleftrightarrow> a = b)"
proof -
  have lt: "unat (dev x) < 32" "unat (func x) < 8" "unat (bus x) < 256" if "pci_address_ok x" for x
    using that unat_bound [of "bus x"] by (simp_all add: pci_address_ok_def word_nat)
  have pme: "unat (pme_requester_id x) = unat (to_u32 x)" if "pci_address_ok x" for x
    using packed_fields(1) [OF that] lt [OF that]
    by (simp add: pme_requester_id_def unsigned_ucast_eq take_bit_nat_eq_self)
  have "a = b" if "pme_requester_id a = pme_requester_id b"
  proof -
    have "unat (to_u32 a) = unat (to_u32 b)" using pme assms that by metis
    then have "unat (bus a) = unat (bus b)" "unat (dev a) = unat (dev b)" "unat (func a) = unat (func b)"
      using packed_fields(1) assms bdf_fields [OF lt [OF assms(1)]] bdf_fields [OF lt [OF assms(2)]]
      by metis+
    then show ?thesis by (simp add: word_unat_eq_iff [symmetric])
  qed
  then show ?thesis using packed_fields [OF assms(1)] pme [OF assms(1)] by auto
qed

theorem pci_address_packed_witness:
  "unat (to_u32 \<lparr>bus = 3, dev = 20, func = 1\<rparr>) = 929 \<and>
   pme_requester_id \<lparr>bus = 3, dev = 20, func = 1\<rparr> \<noteq> pme_requester_id \<lparr>bus = 3, dev = 20, func = 2\<rparr>"
  using pci_address_packed [of "\<lparr>bus = 3, dev = 20, func = 1\<rparr>" "\<lparr>bus = 3, dev = 20, func = 2\<rparr>"]
  by (simp add: pci_address_ok_def)

end
