(* ===== verification/System_Allocator.thy ===== *)
theory System_Allocator
  imports Address_Allocator Pci_Address
begin

text \<open>
  \<open>crosvm/resources/src/system_allocator.rs\<close>: the owner of all guest resources. It holds one address
  allocator per kind of resource: I/O ports, low and high MMIO, platform MMIO, interrupt numbers,
  general purpose events and, per bus, PCI functions. The anonymous keys come from a counter.
\<close>

section \<open>Options and configuration\<close>

datatype mmio_type = Low | High

record alloc_options =
  prefetchable :: bool
  max_address :: u64
  alignment :: "u64 option"
  top_down :: bool

definition alloc_options_new :: alloc_options where
  "alloc_options_new = \<lparr>prefetchable = False, max_address = - 1, alignment = None, top_down = False\<rparr>"

definition with_prefetchable :: "bool \<Rightarrow> alloc_options \<Rightarrow> alloc_options" where
  "with_prefetchable b opts = opts\<lparr>prefetchable := b\<rparr>"

definition with_max_address :: "u64 \<Rightarrow> alloc_options \<Rightarrow> alloc_options" where
  "with_max_address m opts = opts\<lparr>max_address := m\<rparr>"

definition with_align :: "u64 \<Rightarrow> alloc_options \<Rightarrow> alloc_options" where
  "with_align al opts = opts\<lparr>alignment := Some al\<rparr>"

definition with_top_down :: "bool \<Rightarrow> alloc_options \<Rightarrow> alloc_options" where
  "with_top_down b opts = opts\<lparr>top_down := b\<rparr>"

record system_allocator_config =
  config_io :: "address_range option"
  low_mmio :: address_range
  high_mmio :: address_range
  platform_mmio :: "address_range option"
  first_irq :: u32

text \<open>\<open>mmio_address_spaces\<close> is the array indexed by \<open>MmioType\<close>; \<open>pci_allocator\<close> the \<open>BTreeMap\<close> from bus
  numbers.\<close>

record system_allocator =
  io_address_space :: "address_allocator option"
  mmio_address_spaces :: "address_allocator list"
  mmio_platform_address_spaces :: "address_allocator option"
  reserved_region :: "address_range option"
  pci_allocator :: "(u8 \<times> address_allocator) list"
  irq_allocator :: address_allocator
  gpe_allocator :: address_allocator
  next_anon_id :: usize

fun mmio_index :: "mmio_type \<Rightarrow> nat" where
  "mmio_index Low = 0"
| "mmio_index High = 1"

section \<open>Construction\<close>

definition reserve_high_mmio ::
  "address_range \<Rightarrow> u64 option \<Rightarrow> (address_range \<times> address_range option, resource_error) result option" where
  "reserve_high_mmio high reserve_region_size =
     (case reserve_region_size of
        Some reserved_len \<Rightarrow>
          (case range_len high of
             None \<Rightarrow> Some (Err OutOfBounds)
           | Some high_mmio_len \<Rightarrow>
               if high_mmio_len < reserved_len then Some (Err OutOfSpace)
               else do {
                 x \<leftarrow> checked_add (range_start high) reserved_len;
                 reserved_end \<leftarrow> checked_sub x 1;
                 high_mmio_start \<leftarrow> checked_add reserved_end 1;
                 Some (Ok (\<lparr>range_start = high_mmio_start, range_end = range_end high\<rparr>,
                           Some \<lparr>range_start = range_start high, range_end = reserved_end\<rparr>))
               })
      | None \<Rightarrow> Some (Ok (high, None)))"

definition intersect_mmio_range :: "address_range list \<Rightarrow> address_range \<Rightarrow> address_range list" where
  "intersect_mmio_range mmio_address_ranges src_range =
     (if mmio_address_ranges = [] then [src_range]
      else map (\<lambda>r. intersect r src_range) mmio_address_ranges)"

definition new_io ::  "address_range option \<Rightarrow> (address_allocator option, resource_error) result" where
  "new_io io =
     (case io of
        Some r \<Rightarrow> if 0xffff < range_end r then Err (IOPortOutOfRange r)
                  else map_ok Some (new_allocator r (Some 0x400) None)
      | None \<Rightarrow> Ok None)"

definition new_platform ::
  "u64 \<Rightarrow> address_range option \<Rightarrow> (address_allocator option, resource_error) result" where
  "new_platform page_size platform =
     (case platform of
        Some r \<Rightarrow> map_ok Some (new_allocator r (Some page_size) None)
      | None \<Rightarrow> Ok None)"

text \<open>\<open>page_size\<close> is what \<open>base::pagesize\<close> reports for the host.\<close>

definition system_allocator_new ::
  "u64 \<Rightarrow> system_allocator_config \<Rightarrow> u64 option \<Rightarrow> address_range list
     \<Rightarrow> (system_allocator, resource_error) result option" where
  "system_allocator_new page_size config reserve_region_size mmio_address_ranges = do {
     hr \<leftarrow> reserve_high_mmio (high_mmio config) reserve_region_size;
     Some (
       and_then hr (\<lambda>(high, reserved).
       and_then (new_io (config_io config)) (\<lambda>io.
       and_then (new_from_list (intersect_mmio_range mmio_address_ranges (low_mmio config))
                   (Some page_size) None) (\<lambda>low.
       and_then (new_from_list (intersect_mmio_range mmio_address_ranges high)
                   (Some page_size) None) (\<lambda>hi.
       and_then (new_platform page_size (platform_mmio config)) (\<lambda>platform.
       and_then (new_allocator \<lparr>range_start = ucast (first_irq config), range_end = 1023\<rparr>
                   (Some 1) None) (\<lambda>irq.
       and_then (new_allocator \<lparr>range_start = 0, range_end = 255\<rparr> (Some 1) None) (\<lambda>gpe.
         Ok \<lparr>io_address_space = io, mmio_address_spaces = [low, hi],
             mmio_platform_address_spaces = platform, reserved_region = reserved,
             pci_allocator = [], irq_allocator = irq, gpe_allocator = gpe, next_anon_id = 0\<rparr>))))))))
   }"

section \<open>Operations\<close>

definition get_anon_alloc :: "system_allocator \<Rightarrow> (system_allocator \<times> alloc) option" where
  "get_anon_alloc s = do {
     n \<leftarrow> checked_add (next_anon_id s) 1;
     Some (s\<lparr>next_anon_id := n\<rparr>, Anon n)
   }"

definition allocate_irq :: "system_allocator \<Rightarrow> (system_allocator \<times> u32 option) option" where
  "allocate_irq s = do {
     (s, id) \<leftarrow> get_anon_alloc s;
     (A, res) \<leftarrow> allocate (irq_allocator s) 1 id ''irq-auto'';
     Some (s\<lparr>irq_allocator := A\<rparr>, result_ok (map_ok ucast res))
   }"

definition release_irq :: "system_allocator \<Rightarrow> u32 \<Rightarrow> system_allocator" where
  "release_irq s irq = s\<lparr>irq_allocator := fst (release_containing (irq_allocator s) (ucast irq))\<rparr>"

definition reserve_irq :: "system_allocator \<Rightarrow> u32 \<Rightarrow> (system_allocator \<times> bool) option" where
  "reserve_irq s irq = do {
     (s, id) \<leftarrow> get_anon_alloc s;
     (A, res) \<leftarrow> allocate_at (irq_allocator s) \<lparr>range_start = ucast irq, range_end = ucast irq\<rparr> id ''irq-fixed'';
     Some (s\<lparr>irq_allocator := A\<rparr>, is_ok res)
   }"

definition allocate_gpe :: "system_allocator \<Rightarrow> (system_allocator \<times> u32 option) option" where
  "allocate_gpe s = do {
     (s, id) \<leftarrow> get_anon_alloc s;
     (A, res) \<leftarrow> allocate (gpe_allocator s) 1 id ''gpe-auto'';
     Some (s\<lparr>gpe_allocator := A\<rparr>, result_ok (map_ok ucast res))
   }"

text \<open>\<open>get_pci_allocator_mut\<close> returns a reference into the map; here it returns the allocator and the
  caller stores the changed one with \<open>put_pci_allocator\<close>.\<close>

definition put_pci_allocator :: "u8 \<Rightarrow> address_allocator \<Rightarrow> system_allocator \<Rightarrow> system_allocator" where
  "put_pci_allocator b A s = s\<lparr>pci_allocator := fst (bmap_insert cmp_word b A (pci_allocator s))\<rparr>"

definition get_pci_allocator_mut ::
  "system_allocator \<Rightarrow> u8 \<Rightarrow> (system_allocator \<times> address_allocator) option" where
  "get_pci_allocator_mut s b =
     (case bmap_get cmp_word b (pci_allocator s) of
        Some A \<Rightarrow> Some (s, A)
      | None \<Rightarrow>
          (let base = if b = 0 then 8 else 0 in
           case new_allocator \<lparr>range_start = base, range_end = (32 * 8) - 1\<rparr> (Some 1) (Some 8) of
             Err _ \<Rightarrow> None
           | Ok pci_alloc \<Rightarrow> Some (put_pci_allocator b pci_alloc s, pci_alloc)))"

definition pci_bus_empty :: "system_allocator \<Rightarrow> u8 \<Rightarrow> bool" where
  "pci_bus_empty s b \<longleftrightarrow> bmap_get cmp_word b (pci_allocator s) = None"

definition allocate_pci ::
  "system_allocator \<Rightarrow> u8 \<Rightarrow> string \<Rightarrow> (system_allocator \<times> pci_address option) option" where
  "allocate_pci s b tag = do {
     (s, id) \<leftarrow> get_anon_alloc s;
     case get_pci_allocator_mut s b of
       None \<Rightarrow> Some (s, None)
     | Some (s, A) \<Rightarrow> do {
         (A, res) \<leftarrow> allocate A 1 id tag;
         Some (put_pci_allocator b A s,
               result_ok (map_ok (\<lambda>v. \<lparr>bus = b, dev = ucast (drop_bit 3 v), func = ucast (v AND 7)\<rparr>) res))
       }
   }"

definition pci_df :: "pci_address \<Rightarrow> u64" where
  "pci_df a = push_bit 3 (ucast (dev a)) OR ucast (func a)"

definition reserve_pci :: "system_allocator \<Rightarrow> pci_address \<Rightarrow> string \<Rightarrow> (system_allocator \<times> bool) option" where
  "reserve_pci s a tag = do {
     (s, id) \<leftarrow> get_anon_alloc s;
     case get_pci_allocator_mut s (bus a) of
       None \<Rightarrow> Some (s, False)
     | Some (s, A) \<Rightarrow> do {
         let df = pci_df a;
         (A, res) \<leftarrow> allocate_at A \<lparr>range_start = df, range_end = df\<rparr> id tag;
         Some (put_pci_allocator (bus a) A s, is_ok res)
       }
   }"

definition release_pci :: "system_allocator \<Rightarrow> pci_address \<Rightarrow> system_allocator \<times> bool" where
  "release_pci s a =
     (case get_pci_allocator_mut s (bus a) of
        None \<Rightarrow> (s, False)
      | Some (s, A) \<Rightarrow>
          (case release_containing A (pci_df a) of
             (A, res) \<Rightarrow> (put_pci_allocator (bus a) A s, is_ok res)))"

definition allocate_mmio_internal ::
  "system_allocator \<Rightarrow> u64 \<Rightarrow> alloc \<Rightarrow> string \<Rightarrow> alloc_options \<Rightarrow> mmio_type
     \<Rightarrow> (system_allocator \<times> (u64, resource_error) result) option" where
  "allocate_mmio_internal s sz alloc tag opts ty = (
     let i = mmio_index ty; A = mmio_address_spaces s ! i in do {
       (A, res) \<leftarrow> (case (alignment opts, top_down opts) of
           (Some al, True) \<Rightarrow> reverse_allocate_with_align A sz alloc tag al
         | (Some al, False) \<Rightarrow> allocate_with_align A sz alloc tag al
         | (None, True) \<Rightarrow> reverse_allocate A sz alloc tag
         | (None, False) \<Rightarrow> allocate A sz alloc tag);
       Some (s\<lparr>mmio_address_spaces := (mmio_address_spaces s)[i := A]\<rparr>, res)
     })"

definition allocate_mmio ::
  "system_allocator \<Rightarrow> u64 \<Rightarrow> alloc \<Rightarrow> string \<Rightarrow> alloc_options
     \<Rightarrow> (system_allocator \<times> (u64, resource_error) result) option" where
  "allocate_mmio s sz alloc tag opts =
     (if max_address opts < 0xffffffff then Some (s, Err OutOfSpace)
      else let ty = if max_address opts < - 1 \<or> \<not> prefetchable opts then Low else High in do {
        (s', res) \<leftarrow> allocate_mmio_internal s sz alloc tag opts ty;
        if ty = High \<and> res = Err OutOfSpace
        then allocate_mmio_internal s' sz alloc tag opts Low
        else Some (s', res)
      })"

definition mmio_pools :: "system_allocator \<Rightarrow> address_range list" where
  "mmio_pools s = concat (map pools (mmio_address_spaces s))"

fun reserve_mmio_loop ::
  "system_allocator \<Rightarrow> address_range \<Rightarrow> address_range list
     \<Rightarrow> (system_allocator \<times> (unit, resource_error) result) option" where
  "reserve_mmio_loop s rng [] = Some (s, Ok ())"
| "reserve_mmio_loop s rng (pool # ps) =
     (if range_end rng < range_start pool then Some (s, Ok ())
      else let overlap = intersect pool rng in
        if range_is_empty overlap then reserve_mmio_loop s rng ps
        else do {
          (s, id) \<leftarrow> get_anon_alloc s;
          (as, res) \<leftarrow> set_allocate_at (mmio_address_spaces s) overlap id ''pci mmio reserve'';
          let s = s\<lparr>mmio_address_spaces := as\<rparr>;
          case res of
            Err e \<Rightarrow> Some (s, Err e)
          | Ok _ \<Rightarrow> reserve_mmio_loop s rng ps
        })"

definition reserve_mmio ::
  "system_allocator \<Rightarrow> address_range \<Rightarrow> (system_allocator \<times> (unit, resource_error) result) option" where
  "reserve_mmio s rng = reserve_mmio_loop s rng (sort_key range_start (mmio_pools s))"

section \<open>Invariant\<close>

definition pci_slots :: "u8 \<Rightarrow> address_range" where
  "pci_slots b = \<lparr>range_start = if b = 0 then 8 else 0, range_end = 255\<rparr>"

definition pci_pool_ok :: "usize \<Rightarrow> u8 \<Rightarrow> address_allocator \<Rightarrow> bool" where
  "pci_pool_ok n b A \<longleftrightarrow> unit_pool.anon_ok n A \<and> pools A = [pci_slots b] \<and> preferred_align A = 8"

abbreviation pci_pool :: "system_allocator \<Rightarrow> u8 \<Rightarrow> address_allocator option" where
  "pci_pool s b \<equiv> bmap_get cmp_word b (pci_allocator s)"

text \<open>What is free and what is held on a bus, whether or not its allocator exists yet.\<close>

definition pci_free :: "system_allocator \<Rightarrow> u8 \<Rightarrow> u64 set" where
  "pci_free s b = (case pci_pool s b of Some A \<Rightarrow> free A | None \<Rightarrow> addrs (pci_slots b))"

definition pci_held :: "system_allocator \<Rightarrow> u8 \<Rightarrow> u64 set" where
  "pci_held s b = (case pci_pool s b of Some A \<Rightarrow> allocated A | None \<Rightarrow> {})"

definition number_pool_ok :: "usize \<Rightarrow> u64 \<Rightarrow> address_allocator \<Rightarrow> bool" where
  "number_pool_ok n m A \<longleftrightarrow> unit_pool.anon_ok n A \<and> union_addrs (pools A) \<subseteq> {.. m}"

definition sys_inv :: "system_allocator \<Rightarrow> bool" where
  "sys_inv s \<longleftrightarrow>
     number_pool_ok (next_anon_id s) 1023 (irq_allocator s) \<and>
     number_pool_ok (next_anon_id s) 255 (gpe_allocator s) \<and>
     (\<forall>b A. pci_pool s b = Some A \<longrightarrow> pci_pool_ok (next_anon_id s) b A) \<and>
     length (mmio_address_spaces s) = 2 \<and> (\<forall>A \<in> set (mmio_address_spaces s). allocator_inv A) \<and>
     pred_option allocator_inv (io_address_space s) \<and>
     pred_option allocator_inv (mmio_platform_address_spaces s)"

lemma sys_invD:
  assumes "sys_inv s"
  shows "number_pool_ok (next_anon_id s) 1023 (irq_allocator s)"
    "number_pool_ok (next_anon_id s) 255 (gpe_allocator s)"
    "pci_pool s b = Some A \<Longrightarrow> pci_pool_ok (next_anon_id s) b A"
    "length (mmio_address_spaces s) = 2" "A \<in> set (mmio_address_spaces s) \<Longrightarrow> allocator_inv A"
  using assms by (auto simp: sys_inv_def)

lemma number_pool_ok_mono: "number_pool_ok n m A \<Longrightarrow> n \<le> n' \<Longrightarrow> number_pool_ok n' m A"
  using unit_pool.anon_ok_mono by (auto simp: number_pool_ok_def)

lemma pci_pool_ok_mono: "pci_pool_ok n b A \<Longrightarrow> n \<le> n' \<Longrightarrow> pci_pool_ok n' b A"
  using unit_pool.anon_ok_mono by (auto simp: pci_pool_ok_def)

lemma get_anon_allocE:
  assumes "sys_inv s" "next_anon_id s \<noteq> - 1"
  obtains n where "checked_add (next_anon_id s) 1 = Some n" "next_anon_id s \<le> n"
    "get_anon_alloc s = Some (s\<lparr>next_anon_id := n\<rparr>, Anon n)" "sys_inv (s\<lparr>next_anon_id := n\<rparr>)"
proof -
  have "unat (next_anon_id s) \<noteq> 2 ^ 64 - 1"
    using assms(2) by (simp add: word_unat_eq_iff unsigned_minus_1_eq_mask mask_eq_exp_minus_1)
  then obtain n where n: "checked_add (next_anon_id s) 1 = Some n" "unat n = unat (next_anon_id s) + 1"
    using checked_add_ex [of "next_anon_id s" 1] unat_bound [of "next_anon_id s"] by auto
  then have "next_anon_id s \<le> n" by (simp add: word_nat)
  moreover from this have "sys_inv (s\<lparr>next_anon_id := n\<rparr>)"
    using assms(1) by (auto simp: sys_inv_def intro: number_pool_ok_mono pci_pool_ok_mono)
  ultimately show thesis using n by (intro that) (simp_all add: get_anon_alloc_def)
qed

section \<open>Interrupt and event numbers\<close>

lemma number_pool_bound: "number_pool_ok n m A \<Longrightarrow> v \<in> free A \<union> allocated A \<Longrightarrow> v \<le> m"
  using allocator_invD(4) [of A]
  by (auto simp: number_pool_ok_def unit_pool.anon_ok_def unit_pool_inv_def)

lemma unit_keeps:
  assumes "unit_pool_inv A"
  shows "take_unit tag A k = Some (A', v) \<Longrightarrow> pools A' = pools A \<and> preferred_align A' = preferred_align A"
    "reserve_unit tag A w k = Some (A', b) \<Longrightarrow> pools A' = pools A \<and> preferred_align A' = preferred_align A"
    "release_unit A w = (A', b) \<Longrightarrow> pools A' = pools A \<and> preferred_align A' = preferred_align A"
proof -
  have inv: "allocator_inv A" using assms by (simp add: unit_pool_inv_def)
  show "take_unit tag A k = Some (A', v) \<Longrightarrow> pools A' = pools A \<and> preferred_align A' = preferred_align A"
    using allocate_keeps [OF inv, of 1 k tag A'] by (auto simp: take_unit_def keeps_def split: Option.bind_splits)
  show "reserve_unit tag A w k = Some (A', b) \<Longrightarrow> pools A' = pools A \<and> preferred_align A' = preferred_align A"
    using allocate_at_keeps [OF inv, of _ k tag A']
    by (fastforce simp: reserve_unit_def keeps_def split: Option.bind_splits)
  show "release_unit A w = (A', b) \<Longrightarrow> pools A' = pools A \<and> preferred_align A' = preferred_align A"
    using release_containing_keeps [OF inv, of w A'] by (auto simp: release_unit_def keeps_def split: prod.splits)
qed

lemma anon_ok_inv: "unit_pool.anon_ok n A \<Longrightarrow> unit_pool_inv A"
  by (simp add: unit_pool.anon_ok_def)

lemma take_unit_choice:
  assumes "unit_pool.anon_ok n A" "checked_add n 1 = Some n'" "take_unit tag A (Anon n') = Some (A', Some v)"
  shows "unit_choice A v"
proof -
  have "get_alloc A (Anon n') = None" using unit_pool.anon_fresh(1) [OF assms(1,2)] by (meson domIff)
  then show ?thesis
    by (rule take_unit_cases [OF anon_ok_inv [OF assms(1)], of _ tag]) (use assms(3) in auto)
qed

lemma number_take:
  assumes "number_pool_ok n m A" "checked_add n 1 = Some n'"
  obtains (none) "free A = {}" "take_unit tag A (Anon n') = Some (A, None)" "number_pool_ok n' m A"
    | (some) A' v where "take_unit tag A (Anon n') = Some (A', Some v)" "number_pool_ok n' m A'"
      "unit_choice A v" "v \<le> m" "free A' = free A - {v}" "allocated A' = insert v (allocated A)"
proof -
  have ok: "unit_pool.anon_ok n A" using assms(1) by (simp add: number_pool_ok_def)
  show thesis
  proof (rule unit_pool.anon_take [OF ok assms(2), of tag])
    fix A' v assume a: "take_unit tag A (Anon n') = Some (A', Some v)" "unit_pool.anon_ok n' A'"
      "v \<in> free A" "free A' = free A - {v}" "allocated A' = insert v (allocated A)"
    then show thesis
      using unit_keeps(1) [OF anon_ok_inv [OF ok] a(1)] number_pool_bound [OF assms(1), of v] assms(1)
        take_unit_choice [OF ok assms(2) a(1)]
      by (intro some [of A' v]) (auto simp: number_pool_ok_def)
  qed (use assms none in \<open>auto simp: number_pool_ok_def\<close>)
qed

lemma number_reserve:
  assumes "number_pool_ok n m A" "checked_add n 1 = Some n'"
  obtains A' where "reserve_unit tag A v (Anon n') = Some (A', v \<in> free A)" "number_pool_ok n' m A'"
    "free A' = free A - {v}" "allocated A' = (if v \<in> free A then insert v (allocated A) else allocated A)"
proof -
  have ok: "unit_pool.anon_ok n A" using assms(1) by (simp add: number_pool_ok_def)
  obtain A' where a: "reserve_unit tag A v (Anon n') = Some (A', v \<in> free A)" "unit_pool.anon_ok n' A'"
    "free A' = free A - {v}" "allocated A' = (if v \<in> free A then insert v (allocated A) else allocated A)"
    by (rule unit_pool.anon_reserve [OF ok assms(2), of tag v])
  then show thesis
    using unit_keeps(2) [OF anon_ok_inv [OF ok] a(1)] assms(1) by (intro that) (auto simp: number_pool_ok_def)
qed

lemma number_release:
  assumes "number_pool_ok n m A"
  obtains A' where "release_unit A v = (A', v \<in> allocated A)" "number_pool_ok n m A'"
    "free A' = (if v \<in> allocated A then insert v (free A) else free A)" "allocated A' = allocated A - {v}"
proof -
  have ok: "unit_pool.anon_ok n A" using assms(1) by (simp add: number_pool_ok_def)
  obtain A' where a: "release_unit A v = (A', v \<in> allocated A)" "unit_pool.anon_ok n A'"
    "free A' = (if v \<in> allocated A then insert v (free A) else free A)" "allocated A' = allocated A - {v}"
    by (rule unit_pool.anon_release [OF ok, of v])
  then show thesis
    using unit_keeps(3) [OF anon_ok_inv [OF ok] a(1)] assms(1) by (intro that) (auto simp: number_pool_ok_def)
qed

lemma result_ok_map_ok: "result_ok (map_ok f r) = map_option f (result_ok r)"
  by (cases r) simp_all

lemma number_ops_unit:
  "allocate_irq s = do { (s, id) \<leftarrow> get_anon_alloc s;
     (A, v) \<leftarrow> take_unit ''irq-auto'' (irq_allocator s) id;
     Some (s\<lparr>irq_allocator := A\<rparr>, map_option ucast v) }"
  "allocate_gpe s = do { (s, id) \<leftarrow> get_anon_alloc s;
     (A, v) \<leftarrow> take_unit ''gpe-auto'' (gpe_allocator s) id;
     Some (s\<lparr>gpe_allocator := A\<rparr>, map_option ucast v) }"
  "reserve_irq s i = do { (s, id) \<leftarrow> get_anon_alloc s;
     (A, b) \<leftarrow> reserve_unit ''irq-fixed'' (irq_allocator s) (ucast i) id;
     Some (s\<lparr>irq_allocator := A\<rparr>, b) }"
  "release_irq s i = s\<lparr>irq_allocator := fst (release_unit (irq_allocator s) (ucast i))\<rparr>"
  by (auto simp: allocate_irq_def allocate_gpe_def reserve_irq_def release_irq_def take_unit_def
      reserve_unit_def release_unit_def result_ok_map_ok Let_def split: prod.splits Option.bind_splits)

lemma ucast_u32_small: "v \<le> 1023 \<Longrightarrow> ucast (ucast v :: u32) = (v :: u64)"
  by (simp add: word_nat word_unat_eq_iff unsigned_ucast_eq unsigned_take_bit_eq take_bit_nat_eq_self)

lemma allocate_irq_cases:
  assumes "sys_inv s" "next_anon_id s \<noteq> - 1"
  obtains (none) s' where "free (irq_allocator s) = {}" "allocate_irq s = Some (s', None)" "sys_inv s'"
      "irq_allocator s' = irq_allocator s"
    | (some) s' i where "allocate_irq s = Some (s', Some i)" "sys_inv s'" "i \<le> 1023"
      "unit_choice (irq_allocator s) (ucast i)"
      "free (irq_allocator s') = free (irq_allocator s) - {ucast i}"
      "allocated (irq_allocator s') = insert (ucast i) (allocated (irq_allocator s))"
proof -
  obtain n where n: "checked_add (next_anon_id s) 1 = Some n" "next_anon_id s \<le> n"
    "get_anon_alloc s = Some (s\<lparr>next_anon_id := n\<rparr>, Anon n)" "sys_inv (s\<lparr>next_anon_id := n\<rparr>)"
    by (rule get_anon_allocE [OF assms])
  show thesis
  proof (rule number_take [OF sys_invD(1) [OF assms(1)] n(1), of "''irq-auto''"])
    assume "free (irq_allocator s) = {}" "take_unit ''irq-auto'' (irq_allocator s) (Anon n) = Some (irq_allocator s, None)"
    then show thesis using n(3,4) by (intro none [of "s\<lparr>next_anon_id := n\<rparr>"]) (simp_all add: number_ops_unit)
  next
    fix A v assume a: "take_unit ''irq-auto'' (irq_allocator s) (Anon n) = Some (A, Some v)"
      "number_pool_ok n 1023 A" "unit_choice (irq_allocator s) v" "v \<le> 1023"
      "free A = free (irq_allocator s) - {v}" "allocated A = insert v (allocated (irq_allocator s))"
    have v: "ucast (ucast v :: u32) = v" using a(4) by (rule ucast_u32_small)
    then have "unat (ucast v :: u32) = unat v"
      using a(4) by (simp add: word_nat unsigned_ucast_eq take_bit_nat_eq_self)
    then have "(ucast v :: u32) \<le> 1023" using a(4) by (simp add: word_nat)
    moreover have "sys_inv (s\<lparr>next_anon_id := n, irq_allocator := A\<rparr>)"
      using n(4) a(2) by (simp add: sys_inv_def)
    ultimately show thesis
      using a v n(3)
      by (intro some [of "s\<lparr>next_anon_id := n, irq_allocator := A\<rparr>" "ucast v"]) (simp_all add: number_ops_unit)
  qed
qed

lemma reserve_irq_cases:
  assumes "sys_inv s" "next_anon_id s \<noteq> - 1"
  obtains s' where "reserve_irq s i = Some (s', ucast i \<in> free (irq_allocator s))" "sys_inv s'"
    "free (irq_allocator s') = free (irq_allocator s) - {ucast i}"
    "allocated (irq_allocator s') = (if ucast i \<in> free (irq_allocator s)
       then insert (ucast i) (allocated (irq_allocator s)) else allocated (irq_allocator s))"
proof -
  obtain n where n: "checked_add (next_anon_id s) 1 = Some n" "next_anon_id s \<le> n"
    "get_anon_alloc s = Some (s\<lparr>next_anon_id := n\<rparr>, Anon n)" "sys_inv (s\<lparr>next_anon_id := n\<rparr>)"
    by (rule get_anon_allocE [OF assms])
  obtain A where a: "reserve_unit ''irq-fixed'' (irq_allocator s) (ucast i) (Anon n)
      = Some (A, ucast i \<in> free (irq_allocator s))" "number_pool_ok n 1023 A"
    "free A = free (irq_allocator s) - {ucast i}"
    "allocated A = (if ucast i \<in> free (irq_allocator s)
       then insert (ucast i) (allocated (irq_allocator s)) else allocated (irq_allocator s))"
    by (rule number_reserve [OF sys_invD(1) [OF assms(1)] n(1), of "''irq-fixed''" "ucast i"])
  show thesis
    by (rule that [of "s\<lparr>next_anon_id := n, irq_allocator := A\<rparr>"])
       (use n(3,4) a in \<open>simp_all add: number_ops_unit sys_inv_def\<close>)
qed

lemma release_irq_cases:
  assumes "sys_inv s"
  shows "sys_inv (release_irq s i)"
    "free (irq_allocator (release_irq s i)) = (if ucast i \<in> allocated (irq_allocator s)
       then insert (ucast i) (free (irq_allocator s)) else free (irq_allocator s))"
    "allocated (irq_allocator (release_irq s i)) = allocated (irq_allocator s) - {ucast i}"
proof -
  obtain A where a: "release_unit (irq_allocator s) (ucast i) = (A, ucast i \<in> allocated (irq_allocator s))"
    "number_pool_ok (next_anon_id s) 1023 A"
    "free A = (if ucast i \<in> allocated (irq_allocator s) then insert (ucast i) (free (irq_allocator s))
       else free (irq_allocator s))" "allocated A = allocated (irq_allocator s) - {ucast i}"
    by (rule number_release [OF sys_invD(1) [OF assms], of "ucast i"])
  then show "sys_inv (release_irq s i)"
    "free (irq_allocator (release_irq s i)) = (if ucast i \<in> allocated (irq_allocator s)
       then insert (ucast i) (free (irq_allocator s)) else free (irq_allocator s))"
    "allocated (irq_allocator (release_irq s i)) = allocated (irq_allocator s) - {ucast i}"
    using assms by (simp_all add: number_ops_unit sys_inv_def)
qed

lemma allocate_gpe_cases:
  assumes "sys_inv s" "next_anon_id s \<noteq> - 1"
  obtains (none) s' where "free (gpe_allocator s) = {}" "allocate_gpe s = Some (s', None)" "sys_inv s'"
      "gpe_allocator s' = gpe_allocator s"
    | (some) s' i where "allocate_gpe s = Some (s', Some i)" "sys_inv s'" "i \<le> 255"
      "unit_choice (gpe_allocator s) (ucast i)"
      "free (gpe_allocator s') = free (gpe_allocator s) - {ucast i}"
      "allocated (gpe_allocator s') = insert (ucast i) (allocated (gpe_allocator s))"
proof -
  obtain n where n: "checked_add (next_anon_id s) 1 = Some n" "next_anon_id s \<le> n"
    "get_anon_alloc s = Some (s\<lparr>next_anon_id := n\<rparr>, Anon n)" "sys_inv (s\<lparr>next_anon_id := n\<rparr>)"
    by (rule get_anon_allocE [OF assms])
  show thesis
  proof (rule number_take [OF sys_invD(2) [OF assms(1)] n(1), of "''gpe-auto''"])
    assume "free (gpe_allocator s) = {}" "take_unit ''gpe-auto'' (gpe_allocator s) (Anon n) = Some (gpe_allocator s, None)"
    then show thesis using n(3,4) by (intro none [of "s\<lparr>next_anon_id := n\<rparr>"]) (simp_all add: number_ops_unit)
  next
    fix A v assume a: "take_unit ''gpe-auto'' (gpe_allocator s) (Anon n) = Some (A, Some v)"
      "number_pool_ok n 255 A" "unit_choice (gpe_allocator s) v" "v \<le> 255"
      "free A = free (gpe_allocator s) - {v}" "allocated A = insert v (allocated (gpe_allocator s))"
    have v: "ucast (ucast v :: u32) = v" using a(4) by (intro ucast_u32_small) (simp add: word_nat)
    then have "unat (ucast v :: u32) = unat v"
      using a(4) by (simp add: word_nat unsigned_ucast_eq take_bit_nat_eq_self)
    then have "(ucast v :: u32) \<le> 255" using a(4) by (simp add: word_nat)
    moreover have "sys_inv (s\<lparr>next_anon_id := n, gpe_allocator := A\<rparr>)"
      using n(4) a(2) by (simp add: sys_inv_def)
    ultimately show thesis
      using a v n(3)
      by (intro some [of "s\<lparr>next_anon_id := n, gpe_allocator := A\<rparr>" "ucast v"]) (simp_all add: number_ops_unit)
  qed
qed

section \<open>PCI functions\<close>

lemma bmap_get_insert_word:
  "bmap_get cmp_word k' (fst (bmap_insert cmp_word k v m)) = (if k' = k then Some v else bmap_get cmp_word k' m)"
  by (induction m) (auto simp: bmap_get_def cmp_word_def split: prod.splits if_splits)

lemma pci_pool_put:
  "pci_pool (put_pci_allocator b A s) b' = (if b' = b then Some A else pci_pool s b')"
  by (simp add: put_pci_allocator_def bmap_get_insert_word)

lemma put_pci_fields [simp]:
  "next_anon_id (put_pci_allocator b A s) = next_anon_id s"
  "irq_allocator (put_pci_allocator b A s) = irq_allocator s"
  "gpe_allocator (put_pci_allocator b A s) = gpe_allocator s"
  "mmio_address_spaces (put_pci_allocator b A s) = mmio_address_spaces s"
  "io_address_space (put_pci_allocator b A s) = io_address_space s"
  "mmio_platform_address_spaces (put_pci_allocator b A s) = mmio_platform_address_spaces s"
  by (simp_all add: put_pci_allocator_def)

lemma sys_inv_put_pci:
  "sys_inv s \<Longrightarrow> pci_pool_ok (next_anon_id s) b A \<Longrightarrow> sys_inv (put_pci_allocator b A s)"
  by (auto simp: sys_inv_def pci_pool_put split: if_splits)

lemma pci_views_put:
  "pci_free (put_pci_allocator b A s) = (pci_free s)(b := free A)"
  "pci_held (put_pci_allocator b A s) = (pci_held s)(b := allocated A)"
  by (simp_all add: fun_eq_iff pci_free_def pci_held_def pci_pool_put)

lemma addrs_pci_slots: "addrs (pci_slots b) = {if b = 0 then 8 else 0 .. 255}"
  by (simp add: addrs_def pci_slots_def atLeastAtMost_def atLeast_def atMost_def Int_def)

lemma new_pci_allocator:
  obtains A where "new_allocator (pci_slots b) (Some 1) (Some 8) = Ok A" "pci_pool_ok n b A"
    "free A = addrs (pci_slots b)" "allocated A = {}"
proof -
  have "new_allocator \<lparr>range_start = r, range_end = 255\<rparr> (Some 1) (Some 8) =
      Ok \<lparr>pools = [\<lparr>range_start = r, range_end = 255\<rparr>], min_align = 1, preferred_align = 8, allocs = [],
          regions = [\<lparr>range_start = r, range_end = 255\<rparr>]\<rparr>" if "r = 0 \<or> r = 8" for r
    using that by (elim disjE) (simp only:, code_simp)+
  then obtain A where A: "new_allocator (pci_slots b) (Some 1) (Some 8) = Ok A" "pools A = [pci_slots b]"
    "min_align A = 1" "preferred_align A = 8" by (auto simp: pci_slots_def)
  note inv = new_from_list_inv [OF A(1) [unfolded new_allocator_def]]
  have "- 1 \<notin> addrs (pci_slots b)"
    by (simp add: addrs_pci_slots word_nat unsigned_minus_1_eq_mask mask_eq_exp_minus_1)
  moreover have "get_alloc A = Map.empty" using inv(3) by (simp add: fun_eq_iff get_alloc_def)
  ultimately have "pci_pool_ok n b A"
    using A inv
    by (simp add: pci_pool_ok_def unit_pool.anon_ok_def unit_pool_inv_def union_addrs_def)
  then show thesis
    using A inv by (intro that) (auto simp: allocated_def entries_addrs_def union_addrs_def)
qed

lemma get_pci_allocatorE:
  assumes "sys_inv s"
  obtains s' A where "get_pci_allocator_mut s b = Some (s', A)" "sys_inv s'" "pci_pool s' b = Some A"
    "pci_pool_ok (next_anon_id s) b A" "free A = pci_free s b" "allocated A = pci_held s b"
    "pci_free s' = pci_free s" "pci_held s' = pci_held s" "next_anon_id s' = next_anon_id s"
proof (cases "pci_pool s b")
  case None
  obtain A where A: "new_allocator (pci_slots b) (Some 1) (Some 8) = Ok A" "pci_pool_ok (next_anon_id s) b A"
    "free A = addrs (pci_slots b)" "allocated A = {}"
    by (rule new_pci_allocator)
  then have g: "get_pci_allocator_mut s b = Some (put_pci_allocator b A s, A)"
    using None by (simp add: get_pci_allocator_mut_def pci_slots_def)
  have v: "pci_free s b = free A" "pci_held s b = allocated A"
    using None A by (simp_all add: pci_free_def pci_held_def)
  show thesis
    by (rule that [OF g])
       (use A v sys_inv_put_pci [OF assms A(2)] in \<open>simp_all add: pci_views_put pci_pool_put fun_upd_idem\<close>)
next
  case (Some A)
  then show thesis
    using assms sys_invD(3) [OF assms Some]
    by (intro that [of s A]) (simp_all add: get_pci_allocator_mut_def pci_free_def pci_held_def)
qed

lemma pci_pool_bound: "pci_pool_ok n b A \<Longrightarrow> v \<in> free A \<union> allocated A \<Longrightarrow> v \<in> addrs (pci_slots b)"
  using allocator_invD(4) [of A]
  by (auto simp: pci_pool_ok_def unit_pool.anon_ok_def unit_pool_inv_def union_addrs_def)

definition function_address :: "u8 \<Rightarrow> u64 \<Rightarrow> pci_address" where
  "function_address b v = \<lparr>bus = b, dev = ucast (drop_bit 3 v), func = ucast (v AND 7)\<rparr>"

lemma unat_pci_df: "unat (func a) < 8 \<Longrightarrow> unat (pci_df a) = 8 * unat (dev a) + unat (func a)"
  using unat_push_bit_or [of "ucast (func a) :: u64" 3 "ucast (dev a)"] unat_bound [of "dev a"]
  by (simp add: pci_df_def unsigned_ucast_eq take_bit_nat_eq_self)

lemma function_address_df:
  assumes "v \<le> 255"
  shows "pci_address_ok (function_address b v)" "pci_df (function_address b v) = v"
    "bus (function_address b v) = b" "func (function_address b v) = 0 \<longleftrightarrow> 8 dvd unat v"
proof -
  have v: "unat v \<le> 255" using assms by (simp add: word_nat)
  have m: "v AND 7 = v AND mask 3" by (simp add: mask_eq_decr_exp)
  have "unat (drop_bit 3 v) = unat v div 8" by (simp add: unat_drop_bit)
  then have d: "unat (dev (function_address b v)) = unat v div 8"
    using v by (simp add: function_address_def unsigned_ucast_eq take_bit_nat_eq_self)
  have f: "unat (func (function_address b v)) = unat v mod 8"
    using unat_drop_mask [of 0 v 3] v
    by (simp add: function_address_def m unsigned_ucast_eq take_bit_nat_eq_self)
  show "pci_address_ok (function_address b v)"
    using d f div_le_mono [OF v, of 8] mod_less_divisor [of 8 "unat v"]
    by (simp add: pci_address_ok_def word_nat)
  show "pci_df (function_address b v) = v"
    using unat_pci_df [of "function_address b v"] d f by (simp add: word_unat_eq_iff)
  show "bus (function_address b v) = b" by (simp add: function_address_def)
  show "func (function_address b v) = 0 \<longleftrightarrow> 8 dvd unat v"
    using f by (simp add: word_unat_eq_iff dvd_eq_mod_eq_0)
qed

lemma pci_ops_unit:
  "allocate_pci s b tag = do { (s, id) \<leftarrow> get_anon_alloc s;
     case get_pci_allocator_mut s b of
       None \<Rightarrow> Some (s, None)
     | Some (s, A) \<Rightarrow> do { (A, v) \<leftarrow> take_unit tag A id;
         Some (put_pci_allocator b A s, map_option (function_address b) v) } }"
  "reserve_pci s a tag = do { (s, id) \<leftarrow> get_anon_alloc s;
     case get_pci_allocator_mut s (bus a) of
       None \<Rightarrow> Some (s, False)
     | Some (s, A) \<Rightarrow> do { (A, ok) \<leftarrow> reserve_unit tag A (pci_df a) id;
         Some (put_pci_allocator (bus a) A s, ok) } }"
  "release_pci s a =
     (case get_pci_allocator_mut s (bus a) of
        None \<Rightarrow> (s, False)
      | Some (s, A) \<Rightarrow> (case release_unit A (pci_df a) of (A, ok) \<Rightarrow> (put_pci_allocator (bus a) A s, ok)))"
  unfolding allocate_pci_def reserve_pci_def release_pci_def take_unit_def reserve_unit_def release_unit_def
    result_ok_map_ok function_address_def
  by (auto simp: Let_def split: prod.splits option.splits Option.bind_splits)

lemma pci_pool_ok_anon: "pci_pool_ok n b A \<Longrightarrow> unit_pool.anon_ok n A"
  by (simp add: pci_pool_ok_def)

lemma pci_pool_ok_keep:
  "pci_pool_ok n b A \<Longrightarrow> unit_pool.anon_ok n' A' \<Longrightarrow> pools A' = pools A \<and> preferred_align A' = preferred_align A
     \<Longrightarrow> pci_pool_ok n' b A'"
  by (simp add: pci_pool_ok_def)

text \<open>The address handed out on a bus: a free function, function 0 of a device while there is one, the
  lowest such.\<close>

definition pci_choice :: "u64 set \<Rightarrow> pci_address \<Rightarrow> bool" where
  "pci_choice F a \<longleftrightarrow> pci_address_ok a \<and> pci_df a \<in> F \<and>
     (\<forall>w \<in> F. if 8 dvd unat w then func a = 0 \<and> pci_df a \<le> w else func a = 0 \<or> pci_df a \<le> w)"

lemma get_pci_anon:
  "get_pci_allocator_mut (s\<lparr>next_anon_id := n\<rparr>) b =
     map_option (\<lambda>(t, A). (t\<lparr>next_anon_id := n\<rparr>, A)) (get_pci_allocator_mut s b)"
  by (auto simp: get_pci_allocator_mut_def put_pci_allocator_def Let_def split: option.splits result.splits)

lemma pci_views_anon:
  "pci_free (s\<lparr>next_anon_id := n\<rparr>) = pci_free s" "pci_held (s\<lparr>next_anon_id := n\<rparr>) = pci_held s"
  by (simp_all add: fun_eq_iff pci_free_def pci_held_def)

lemma pci_prepare:
  assumes "sys_inv s" "next_anon_id s \<noteq> - 1"
  obtains n t A where "checked_add (next_anon_id s) 1 = Some n" "next_anon_id s \<le> n"
    "get_anon_alloc s = Some (s\<lparr>next_anon_id := n\<rparr>, Anon n)"
    "get_pci_allocator_mut (s\<lparr>next_anon_id := n\<rparr>) b = Some (t, A)" "sys_inv t" "next_anon_id t = n"
    "pci_pool_ok (next_anon_id s) b A" "free A = pci_free s b" "allocated A = pci_held s b"
    "pci_free t = pci_free s" "pci_held t = pci_held s"
proof -
  obtain n where n: "checked_add (next_anon_id s) 1 = Some n" "next_anon_id s \<le> n"
    "get_anon_alloc s = Some (s\<lparr>next_anon_id := n\<rparr>, Anon n)"
    by (rule get_anon_allocE [OF assms])
  obtain t A where t: "get_pci_allocator_mut s b = Some (t, A)" "sys_inv t" "next_anon_id t = next_anon_id s"
    "pci_pool_ok (next_anon_id s) b A" "free A = pci_free s b" "allocated A = pci_held s b"
    "pci_free t = pci_free s" "pci_held t = pci_held s"
    by (rule get_pci_allocatorE [OF assms(1), of b])
  have "sys_inv (t\<lparr>next_anon_id := n\<rparr>)"
    using t(2,3) n(2) by (auto simp: sys_inv_def intro: number_pool_ok_mono pci_pool_ok_mono)
  then show thesis
    using n t by (intro that [of n "t\<lparr>next_anon_id := n\<rparr>" A]) (simp_all add: get_pci_anon pci_views_anon)
qed

lemma allocate_pci_cases:
  assumes "sys_inv s" "next_anon_id s \<noteq> - 1"
  obtains (none) s' where "pci_free s b = {}" "allocate_pci s b tag = Some (s', None)" "sys_inv s'"
      "pci_free s' = pci_free s" "pci_held s' = pci_held s"
    | (some) s' a where "allocate_pci s b tag = Some (s', Some a)" "sys_inv s'" "bus a = b"
      "pci_choice (pci_free s b) a" "pci_df a \<in> addrs (pci_slots b)"
      "pci_free s' = (pci_free s)(b := pci_free s b - {pci_df a})"
      "pci_held s' = (pci_held s)(b := insert (pci_df a) (pci_held s b))"
proof (rule pci_prepare [OF assms, of b])
  fix n t A
  assume n: "checked_add (next_anon_id s) 1 = Some n" "next_anon_id s \<le> n"
    "get_anon_alloc s = Some (s\<lparr>next_anon_id := n\<rparr>, Anon n)"
    "get_pci_allocator_mut (s\<lparr>next_anon_id := n\<rparr>) b = Some (t, A)"
    and t: "sys_inv t" "next_anon_id t = n" "pci_pool_ok (next_anon_id s) b A" "free A = pci_free s b"
    "allocated A = pci_held s b" "pci_free t = pci_free s" "pci_held t = pci_held s"
  note ok = pci_pool_ok_anon [OF t(3)]
  show thesis
  proof (rule unit_pool.anon_take [OF ok n(1), of tag])
    assume "free A = {}" "take_unit tag A (Anon n) = Some (A, None)"
    then show thesis
      using n t sys_inv_put_pci [OF t(1), of b A] pci_pool_ok_mono [OF t(3) n(2)]
      by (intro none [of "put_pci_allocator b A t"]) (simp_all add: pci_ops_unit pci_views_put fun_upd_idem)
  next
    fix A' v assume a: "take_unit tag A (Anon n) = Some (A', Some v)" "unit_pool.anon_ok n A'"
      "v \<in> free A" "free A' = free A - {v}" "allocated A' = insert v (allocated A)"
    have ok': "pci_pool_ok n b A'"
      using pci_pool_ok_keep [OF t(3) a(2) unit_keeps(1) [OF anon_ok_inv [OF ok] a(1)]] .
    have vb: "v \<in> addrs (pci_slots b)" using pci_pool_bound [OF t(3)] a(3) by blast
    then have v: "v \<le> 255" by (simp add: addrs_pci_slots)
    note fa = function_address_df [OF v, of b]
    have "pci_choice (pci_free s b) (function_address b v)"
      using take_unit_choice [OF ok n(1) a(1)] fa t(3,4)
      by (simp add: pci_choice_def unit_choice_def pci_pool_ok_def cong: if_cong)
    then show thesis
      using n t a fa vb sys_inv_put_pci [OF t(1), of b A'] ok'
      by (intro some [of "put_pci_allocator b A' t" "function_address b v"])
         (simp_all add: pci_ops_unit pci_views_put)
  qed
qed

lemma reserve_pci_cases:
  assumes "sys_inv s" "next_anon_id s \<noteq> - 1"
  obtains s' where "reserve_pci s a tag = Some (s', pci_df a \<in> pci_free s (bus a))" "sys_inv s'"
    "pci_free s' = (pci_free s)(bus a := pci_free s (bus a) - {pci_df a})"
    "pci_held s' = (if pci_df a \<in> pci_free s (bus a)
       then (pci_held s)(bus a := insert (pci_df a) (pci_held s (bus a))) else pci_held s)"
proof (rule pci_prepare [OF assms, of "bus a"])
  fix n t A
  assume n: "checked_add (next_anon_id s) 1 = Some n" "next_anon_id s \<le> n"
    "get_anon_alloc s = Some (s\<lparr>next_anon_id := n\<rparr>, Anon n)"
    "get_pci_allocator_mut (s\<lparr>next_anon_id := n\<rparr>) (bus a) = Some (t, A)"
    and t: "sys_inv t" "next_anon_id t = n" "pci_pool_ok (next_anon_id s) (bus a) A"
    "free A = pci_free s (bus a)" "allocated A = pci_held s (bus a)" "pci_free t = pci_free s"
    "pci_held t = pci_held s"
  note ok = pci_pool_ok_anon [OF t(3)]
  obtain A' where r: "reserve_unit tag A (pci_df a) (Anon n) = Some (A', pci_df a \<in> free A)"
    "unit_pool.anon_ok n A'" "free A' = free A - {pci_df a}"
    "allocated A' = (if pci_df a \<in> free A then insert (pci_df a) (allocated A) else allocated A)"
    by (rule unit_pool.anon_reserve [OF ok n(1), of tag "pci_df a"])
  have ok': "pci_pool_ok n (bus a) A'"
    using pci_pool_ok_keep [OF t(3) r(2) unit_keeps(2) [OF anon_ok_inv [OF ok] r(1)]] .
  show thesis
    using n t r sys_inv_put_pci [OF t(1), of "bus a" A'] ok'
    by (intro that [of "put_pci_allocator (bus a) A' t"])
       (simp_all add: pci_ops_unit pci_views_put fun_upd_idem)
qed

lemma release_pci_cases:
  assumes "sys_inv s"
  obtains s' where "release_pci s a = (s', pci_df a \<in> pci_held s (bus a))" "sys_inv s'"
    "pci_free s' = (if pci_df a \<in> pci_held s (bus a)
       then (pci_free s)(bus a := insert (pci_df a) (pci_free s (bus a))) else pci_free s)"
    "pci_held s' = (pci_held s)(bus a := pci_held s (bus a) - {pci_df a})" "next_anon_id s' = next_anon_id s"
proof (rule get_pci_allocatorE [OF assms, of "bus a"])
  fix t A
  assume g: "get_pci_allocator_mut s (bus a) = Some (t, A)"
    and t: "sys_inv t" "next_anon_id t = next_anon_id s" "pci_pool_ok (next_anon_id s) (bus a) A"
    "free A = pci_free s (bus a)" "allocated A = pci_held s (bus a)" "pci_free t = pci_free s"
    "pci_held t = pci_held s"
  note ok = pci_pool_ok_anon [OF t(3)]
  obtain A' where r: "release_unit A (pci_df a) = (A', pci_df a \<in> allocated A)"
    "unit_pool.anon_ok (next_anon_id s) A'"
    "free A' = (if pci_df a \<in> allocated A then insert (pci_df a) (free A) else free A)"
    "allocated A' = allocated A - {pci_df a}"
    by (rule unit_pool.anon_release [OF ok, of "pci_df a"])
  have ok': "pci_pool_ok (next_anon_id s) (bus a) A'"
    using pci_pool_ok_keep [OF t(3) r(2) unit_keeps(3) [OF anon_ok_inv [OF ok] r(1)]] .
  show thesis
    using g t r sys_inv_put_pci [OF t(1), of "bus a" A'] ok'
    by (intro that [of "put_pci_allocator (bus a) A' t"])
       (simp_all add: pci_ops_unit pci_views_put fun_upd_idem)
qed

section \<open>MMIO\<close>

abbreviation mmio :: "system_allocator \<Rightarrow> mmio_type \<Rightarrow> address_allocator" where
  "mmio s ty \<equiv> mmio_address_spaces s ! mmio_index ty"

lemma mmio_index_less [simp]: "sys_inv s \<Longrightarrow> mmio_index ty < length (mmio_address_spaces s)"
  by (cases ty) (simp_all add: sys_inv_def)

lemma mmio_inv: "sys_inv s \<Longrightarrow> allocator_inv (mmio s ty)"
  by (meson mmio_index_less nth_mem sys_invD(5))

lemma mmio_index_eq [simp]: "mmio_index ty = mmio_index ty' \<longleftrightarrow> ty = ty'"
  by (cases ty; cases ty') simp_all

text \<open>Whatever the alignment and the direction, a successful allocation takes a free block.\<close>

definition granted :: "address_allocator \<Rightarrow> u64 \<Rightarrow> alloc \<Rightarrow> string \<Rightarrow> address_allocator \<Rightarrow> u64 \<Rightarrow> bool" where
  "granted A sz k tag A' a \<longleftrightarrow> keeps A A' \<and> sz \<noteq> 0 \<and> unat (min_align A) dvd unat a \<and>
     block a sz \<subseteq> free A \<and> free A' = free A - block a sz \<and>
     get_alloc A' = (get_alloc A)(k \<mapsto> (\<lparr>range_start = a, range_end = a + sz - 1\<rparr>, tag))"

lemma power_of_two_dvd:
  "is_power_of_two a \<Longrightarrow> is_power_of_two b \<Longrightarrow> a \<le> b \<Longrightarrow> unat a dvd unat (b :: 'a::len word)"
  by (elim is_power_of_twoE) (auto simp: word_nat le_imp_power_dvd)

lemma internal_allocate_Ok:
  assumes "allocator_inv A" "internal_allocate_with_align A sz k tag al reverse = Some (A', Ok a)"
  shows "granted A sz k tag A' a" "unat (max (min_align A) al) dvd unat a"
proof -
  have "\<not> (map_of (allocs A) k \<noteq> None \<or> sz = 0 \<or> \<not> is_power_of_two (max (min_align A) al))"
    using assms(2) by (auto simp: internal_allocate_with_align_def Let_def split: if_splits)
  then have n: "map_of (allocs A) k = None" "sz \<noteq> 0" "is_power_of_two (max (min_align A) al)"
    by blast+
  have "unat (max (min_align A) al) dvd unat a \<and> keeps A A' \<and> block a sz \<subseteq> free A \<and>
     free A' = free A - block a sz \<and>
     map_of (allocs A') = (map_of (allocs A))(k \<mapsto> (\<lparr>range_start = a, range_end = a + sz - 1\<rparr>, tag))"
    by (rule internal_allocate_cases [OF assms(1) n, of tag reverse])
       (use assms(2) in \<open>auto simp: keeps_def picks_def fits_def\<close>)
  moreover have "unat (min_align A) dvd unat (max (min_align A) al)"
    by (rule power_of_two_dvd [OF allocator_invD(5) [OF assms(1)] n(3)]) simp
  ultimately show "granted A sz k tag A' a" "unat (max (min_align A) al) dvd unat a"
    using n(2) dvd_trans by (auto simp: granted_def get_alloc_def fun_eq_iff)
qed

text \<open>\<open>allocate\<close> and \<open>reverse_allocate\<close> try twice; a failed attempt leaves the allocator as it was.\<close>

lemma mmio_outcome:
  assumes "allocator_inv A"
    and "(case (alignment opts, top_down opts) of
           (Some al, True) \<Rightarrow> reverse_allocate_with_align A sz k tag al
         | (Some al, False) \<Rightarrow> allocate_with_align A sz k tag al
         | (None, True) \<Rightarrow> reverse_allocate A sz k tag
         | (None, False) \<Rightarrow> allocate A sz k tag) = Some (A', res)"
  shows "case res of Ok a \<Rightarrow> granted A sz k tag A' a \<and>
      (\<forall>al. alignment opts = Some al \<longrightarrow> unat (max (min_align A) al) dvd unat a) | Err e \<Rightarrow> A' = A"
proof -
  have one: "case res of Ok a \<Rightarrow> granted A sz k tag A' a \<and> unat (max (min_align A) al) dvd unat a | Err e \<Rightarrow> A' = A"
    if "internal_allocate_with_align A sz k tag al reverse = Some (A', res)" for al reverse A' res
    using internal_allocate_Ok [OF assms(1)] internal_allocate_errors [OF _ assms(1)] that
    by (auto split: result.splits)
  have two: "case res of Ok a \<Rightarrow> granted A sz k tag A' a | Err e \<Rightarrow> A' = A"
    if "internal_allocate_with_align A sz k tag (preferred_align A) reverse = Some (B, r)"
      "(case r of Ok a \<Rightarrow> Some (B, Ok a) | Err _ \<Rightarrow> internal_allocate_with_align B sz k tag (min_align B) reverse)
         = Some (A', res)" for B r reverse
    using one [OF that(1)] that(2) one [of "min_align A" reverse A' res]
    by (cases r; cases res) auto
  show ?thesis
    using assms(2) one two
    by (cases "alignment opts"; cases "top_down opts")
       (fastforce simp: allocate_def reverse_allocate_def allocate_with_align_def reverse_allocate_with_align_def
          split: result.splits Option.bind_splits)+
qed

lemma sys_inv_mmio_update:
  assumes "sys_inv s" "allocator_inv A"
  shows "sys_inv (s\<lparr>mmio_address_spaces := (mmio_address_spaces s)[mmio_index ty := A]\<rparr>)"
proof -
  have "set ((mmio_address_spaces s)[mmio_index ty := A]) \<subseteq> insert A (set (mmio_address_spaces s))"
    by (rule set_update_subset_insert)
  then show ?thesis using assms by (auto simp: sys_inv_def)
qed

lemma mmio_update:
  assumes "sys_inv s"
  shows "mmio (s\<lparr>mmio_address_spaces := (mmio_address_spaces s)[mmio_index ty := A]\<rparr>) ty' =
    (if ty' = ty then A else mmio s ty')"
  using mmio_index_less [OF assms, of ty] by (simp add: nth_list_update)

lemma allocate_mmio_internal_outcome:
  assumes "sys_inv s" "allocate_mmio_internal s sz k tag opts ty = Some (s', res)"
  shows "sys_inv s' \<and> (\<forall>ty'. ty' \<noteq> ty \<longrightarrow> mmio s' ty' = mmio s ty') \<and>
    (case res of
       Ok a \<Rightarrow> granted (mmio s ty) sz k tag (mmio s' ty) a \<and>
         (\<forall>al. alignment opts = Some al \<longrightarrow> unat (max (min_align (mmio s ty)) al) dvd unat a)
     | Err e \<Rightarrow> mmio s' ty = mmio s ty)"
proof -
  obtain A where A: "(case (alignment opts, top_down opts) of
           (Some al, True) \<Rightarrow> reverse_allocate_with_align (mmio s ty) sz k tag al
         | (Some al, False) \<Rightarrow> allocate_with_align (mmio s ty) sz k tag al
         | (None, True) \<Rightarrow> reverse_allocate (mmio s ty) sz k tag
         | (None, False) \<Rightarrow> allocate (mmio s ty) sz k tag) = Some (A, res)"
    "s' = s\<lparr>mmio_address_spaces := (mmio_address_spaces s)[mmio_index ty := A]\<rparr>"
    using assms(2) by (auto simp: allocate_mmio_internal_def Let_def bind_eq_Some_conv)
  note o = mmio_outcome [OF mmio_inv [OF assms(1)] A(1)]
  have "allocator_inv A"
    using o mmio_inv [OF assms(1)] by (auto simp: granted_def keeps_def split: result.splits)
  then have "sys_inv s'" unfolding A(2) by (rule sys_inv_mmio_update [OF assms(1)])
  moreover have m: "mmio s' ty' = (if ty' = ty then A else mmio s ty')" for ty'
    unfolding A(2) by (rule mmio_update [OF assms(1)])
  ultimately show ?thesis using o unfolding m by (auto split: result.splits)
qed

lemma allocate_mmio_outcome:
  assumes "sys_inv s" "allocate_mmio s sz k tag opts = Some (s', Ok a)"
  obtains ty where "sys_inv s'" "ty = High \<Longrightarrow> prefetchable opts \<and> max_address opts = - 1"
    "granted (mmio s ty) sz k tag (mmio s' ty) a" "\<And>ty'. ty' \<noteq> ty \<Longrightarrow> mmio s' ty' = mmio s ty'"
    "\<And>al. alignment opts = Some al \<Longrightarrow> unat (max (min_align (mmio s ty)) al) dvd unat a"
    "0xffffffff \<le> max_address opts"
proof -
  have m: "0xffffffff \<le> max_address opts" using assms(2) by (auto simp: allocate_mmio_def split: if_splits)
  let ?ty = "if max_address opts < - 1 \<or> \<not> prefetchable opts then Low else High"
  obtain t res where t: "allocate_mmio_internal s sz k tag opts ?ty = Some (t, res)"
    "(if ?ty = High \<and> res = Err OutOfSpace then allocate_mmio_internal t sz k tag opts Low
      else Some (t, res)) = Some (s', Ok a)"
    using assms(2) m by (auto simp: allocate_mmio_def Let_def bind_eq_Some_conv split: if_splits)
  note o = allocate_mmio_internal_outcome [OF assms(1) t(1)]
  show thesis
  proof (cases "?ty = High \<and> res = Err OutOfSpace")
    case True
    then have same: "mmio t ty = mmio s ty" for ty using o by (cases "ty = High") auto
    have "allocate_mmio_internal t sz k tag opts Low = Some (s', Ok a)" using True t(2) by simp
    note low = allocate_mmio_internal_outcome [OF conjunct1 [OF o] this, unfolded same]
    show thesis using m low by (intro that [of Low]) auto
  next
    case False
    then have "t = s'" "res = Ok a" using t(2) by (auto split: if_splits)
    then show thesis
      using o m by (intro that [of ?ty]) (auto split: if_splits simp: not_less word_order.extremum_unique)
  qed
qed

section \<open>Reserving MMIO\<close>

definition mmio_free :: "system_allocator \<Rightarrow> u64 set" where
  "mmio_free s = free (mmio s Low) \<union> free (mmio s High)"

text \<open>The low and the high window do not share an address.\<close>

definition mmio_disjoint :: "system_allocator \<Rightarrow> bool" where
  "mmio_disjoint s \<longleftrightarrow>
     union_addrs (pools (mmio s Low)) \<inter> union_addrs (pools (mmio s High)) = {}"

lemma mmio_spaces: "sys_inv s \<Longrightarrow> mmio_address_spaces s = [mmio s Low, mmio s High]"
  using sys_invD(4) [of s] by (auto simp: numeral_2_eq_2 length_Suc_conv)

lemma free_pools: "allocator_inv A \<Longrightarrow> free A \<subseteq> union_addrs (pools A)"
  using allocator_invD(4) by blast

lemma allocate_at_result:
  assumes "allocator_inv A" "allocate_at A rng k tag = Some (A', res)"
  shows "keeps A A'" "if is_ok res then addrs rng \<subseteq> free A \<and> free A' = free A - addrs rng else A' = A"
proof -
  show "keeps A A'" by (rule allocate_at_keeps [OF assms])
  show "if is_ok res then addrs rng \<subseteq> free A \<and> free A' = free A - addrs rng else A' = A"
  proof (cases "map_of (allocs A) k \<noteq> None \<or> range_is_empty rng")
    case True
    then show ?thesis using assms by (auto simp: allocate_at_def split: if_splits)
  next
    case False
    then have n: "map_of (allocs A) k = None" "addrs rng \<noteq> {}"
      by (auto simp: range_is_empty_addrs)
    show ?thesis
      by (rule allocate_at_cases [OF assms(1) n, of tag])
         (use assms in \<open>auto simp: free_def union_addrs_def\<close>)
  qed
qed

lemma set_allocate_at_result:
  assumes "allocator_inv A" "allocator_inv B" "set_allocate_at [A, B] rng k tag = Some (as, Ok ())"
  obtains A' B' where "as = [A', B']" "keeps A A'" "keeps B B'" "addrs rng \<subseteq> free A \<union> free B"
    "free A' \<union> free B' \<subseteq> free A \<union> free B"
    "free A \<inter> free B = {} \<Longrightarrow> free A' \<union> free B' = (free A \<union> free B) - addrs rng"
proof -
  obtain A' r where a: "allocate_at A rng k tag = Some (A', r)"
    "(if is_ok r then Some ([A', B], r)
      else do { (as', res') \<leftarrow> first_ok (\<lambda>a. allocate_at a rng k tag) r [B]; Some (A' # as', res') })
       = Some (as, Ok ())"
    using assms(3) by (simp add: set_allocate_at_def bind_eq_Some_conv) blast
  note ra = allocate_at_result [OF assms(1) a(1)]
  show thesis
  proof (cases "is_ok r")
    case True
    then have "as = [A', B]" using a(2) by simp
    then show thesis
      using True ra assms(2) by (intro that [of A' B]) (auto simp: keeps_refl)
  next
    case False
    then obtain B' r' where b: "allocate_at B rng k tag = Some (B', r')" "as = [A', B']" "r' = Ok ()"
      using a(2) by (auto simp: bind_eq_Some_conv split: if_splits)
    note rb = allocate_at_result [OF assms(2) b(1)]
    show thesis
      using False ra rb b(2,3) assms(1) by (intro that [of A' B']) (auto simp: keeps_refl)
  qed
qed

lemma sys_inv_spaces:
  "sys_inv s \<Longrightarrow> allocator_inv A \<Longrightarrow> allocator_inv B \<Longrightarrow> sys_inv (s\<lparr>mmio_address_spaces := [A, B]\<rparr>)"
  by (simp add: sys_inv_def)

lemma mmio_disjoint_free: "sys_inv s \<Longrightarrow> mmio_disjoint s \<Longrightarrow> free (mmio s Low) \<inter> free (mmio s High) = {}"
  using free_pools [OF mmio_inv, of s Low] free_pools [OF mmio_inv, of s High]
  by (auto simp: mmio_disjoint_def)

text \<open>The part of the range that lies in the pools the loop still has to visit.\<close>

abbreviation within :: "address_range \<Rightarrow> address_range list \<Rightarrow> u64 set" where
  "within rng ps \<equiv> addrs rng \<inter> union_addrs ps"

lemma union_addrs_simps [simp]:
  "union_addrs [] = {}" "union_addrs (p # ps) = addrs p \<union> union_addrs ps"
  by (auto simp: union_addrs_def)

lemma later_pools_miss:
  assumes "range_end rng < range_start p" "sorted (map range_start (p # ps))"
  shows "within rng (p # ps) = {}"
proof -
  have "range_end rng < range_start q" if "q \<in> set (p # ps)" for q
    using assms that by (auto intro: less_le_trans)
  then show ?thesis by (force simp: union_addrs_def addrs_def)
qed

lemma reserve_mmio_loop_ok:
  assumes "reserve_mmio_loop s rng ps = Some (s', Ok ())" "sys_inv s" "mmio_disjoint s"
    "sorted (map range_start ps)"
  shows "sys_inv s' \<and> mmio_disjoint s' \<and> within rng ps \<subseteq> mmio_free s \<and>
    mmio_free s' = mmio_free s - within rng ps"
  using assms
proof (induction ps arbitrary: s)
  case (Cons p ps)
  show ?case
  proof (cases "range_end rng < range_start p \<or> range_is_empty (intersect p rng)")
    case True
    then consider "range_end rng < range_start p" | "\<not> range_end rng < range_start p" "addrs p \<inter> addrs rng = {}"
      by (auto simp: range_sem)
    then show ?thesis
    proof cases
      case 1
      then show ?thesis using Cons.prems later_pools_miss [OF 1 Cons.prems(4)] by simp
    next
      case 2
      then have "within rng (p # ps) = within rng ps" by auto
      then show ?thesis using 2 True Cons by (simp add: range_sem)
    qed
  next
    case False
    then obtain t n where n: "checked_add (next_anon_id s) 1 = Some n" "t = s\<lparr>next_anon_id := n\<rparr>"
      "get_anon_alloc s = Some (t, Anon n)"
      using Cons.prems(1) by (auto simp: get_anon_alloc_def Let_def bind_eq_Some_conv)
    obtain as where as: "set_allocate_at [mmio s Low, mmio s High] (intersect p rng) (Anon n) ''pci mmio reserve''
        = Some (as, Ok ())" "reserve_mmio_loop (t\<lparr>mmio_address_spaces := as\<rparr>) rng ps = Some (s', Ok ())"
      using Cons.prems(1) False n mmio_spaces [OF Cons.prems(2)]
      by (auto simp: Let_def bind_eq_Some_conv split: result.splits) (metis old.unit.exhaust result.exhaust)
    have "next_anon_id s \<le> n" using n(1) by (simp add: rust_arith word_nat)
    then have t: "sys_inv t"
      using Cons.prems(2) n(2) by (auto simp: sys_inv_def intro: number_pool_ok_mono pci_pool_ok_mono)
    obtain A B where AB: "as = [A, B]" "keeps (mmio s Low) A" "keeps (mmio s High) B"
      "addrs (intersect p rng) \<subseteq> mmio_free s" "free A \<union> free B = mmio_free s - addrs (intersect p rng)"
      using set_allocate_at_result [OF mmio_inv [OF Cons.prems(2)] mmio_inv [OF Cons.prems(2)] as(1)]
        mmio_disjoint_free [OF Cons.prems(2,3)] unfolding mmio_free_def by metis
    let ?u = "t\<lparr>mmio_address_spaces := as\<rparr>"
    have "sys_inv ?u" using sys_inv_spaces [OF t] AB(1-3) by (simp add: keeps_def)
    moreover have "mmio_disjoint ?u" using AB(1-3) Cons.prems(3) by (simp add: mmio_disjoint_def keeps_def)
    moreover have "mmio_free ?u = mmio_free s - addrs (intersect p rng)" using AB(1,5) by (simp add: mmio_free_def)
    ultimately show ?thesis
      using Cons.IH [OF as(2)] Cons.prems(4) AB(4) by (auto simp: range_sem)
  qed
qed simp

section \<open>Construction\<close>

lemma reserve_high_mmio_split:
  assumes "reserve_high_mmio high rs = Some (Ok (h, reserved))"
  shows "addrs h \<union> (case reserved of Some r \<Rightarrow> addrs r | None \<Rightarrow> {}) = addrs high"
    "addrs h \<inter> (case reserved of Some r \<Rightarrow> addrs r | None \<Rightarrow> {}) = {}"
proof -
  have "addrs h \<union> (case reserved of Some r \<Rightarrow> addrs r | None \<Rightarrow> {}) = addrs high \<and>
    addrs h \<inter> (case reserved of Some r \<Rightarrow> addrs r | None \<Rightarrow> {}) = {}"
  proof (cases rs)
    case None
    then show ?thesis using assms by (auto simp: reserve_high_mmio_def)
  next
    case (Some l)
    obtain n e st where x: "range_len high = Some n" "unat l \<le> unat n"
      "unat e + 1 = unat (range_start high) + unat l" "unat st = unat e + 1"
      "h = \<lparr>range_start = st, range_end = range_end high\<rparr>"
      "reserved = Some \<lparr>range_start = range_start high, range_end = e\<rparr>"
      using assms Some
      by (auto simp: reserve_high_mmio_def bind_eq_Some_conv rust_arith word_nat not_less
          split: option.splits if_splits)
    have n: "unat n = (if range_is_empty high then 0 else unat (range_end high) - unat (range_start high) + 1)"
      using x(1) by (simp add: range_len_Some)
    have "a \<in> addrs h \<longleftrightarrow> a \<in> addrs high \<and> unat e < unat a"
      "a \<in> addrs \<lparr>range_start = range_start high, range_end = e\<rparr> \<longleftrightarrow> a \<in> addrs high \<and> unat a \<le> unat e" for a
      using x n by (auto simp: addrs_unat range_is_empty_def word_nat split: if_splits)
    then show ?thesis using x(6) by auto
  qed
  then show "addrs h \<union> (case reserved of Some r \<Rightarrow> addrs r | None \<Rightarrow> {}) = addrs high"
    "addrs h \<inter> (case reserved of Some r \<Rightarrow> addrs r | None \<Rightarrow> {}) = {}" by blast+
qed

definition admitted :: "address_range list \<Rightarrow> u64 set" where
  "admitted ranges = (if ranges = [] then UNIV else union_addrs ranges)"

lemma intersect_mmio_range_addrs:
  "union_addrs (intersect_mmio_range ranges r) = addrs r \<inter> admitted ranges"
  by (auto simp: intersect_mmio_range_def admitted_def union_addrs_def range_sem)

lemma intersect_mmio_range_disjoint:
  "sorted_wrt (\<lambda>p q. addrs p \<inter> addrs q = {}) ranges \<Longrightarrow>
     sorted_wrt (\<lambda>p q. addrs p \<inter> addrs q = {}) (intersect_mmio_range ranges r)"
  by (induction ranges) (auto simp: intersect_mmio_range_def range_sem sorted_wrt_map split: if_splits)

lemma new_number_pool:
  assumes "new_allocator r (Some 1) None = Ok A" "addrs r \<subseteq> {.. m}" "m < - 1"
  shows "number_pool_ok n m A"
proof -
  note inv = new_from_list_inv [OF assms(1) [unfolded new_allocator_def]]
  have al: "min_align A = 1" "preferred_align A = 1"
    using assms(1) by (auto simp: new_allocator_def new_from_list_def Let_def split: if_splits)
  have "union_addrs (pools A) = addrs r"
    using inv allocator_invD(4) [OF inv(1)] by (simp add: allocated_def entries_addrs_def)
  moreover have "get_alloc A = Map.empty" using inv(3) by (simp add: fun_eq_iff get_alloc_def)
  ultimately show ?thesis
    using inv(1) al assms(2,3)
    by (auto simp: number_pool_ok_def unit_pool.anon_ok_def unit_pool_inv_def)
qed

lemma new_pools:
  assumes "new_from_list ps al p = Ok A" "sorted_wrt (\<lambda>p q. addrs p \<inter> addrs q = {}) ps"
  shows "union_addrs (pools A) = union_addrs ps"
  using new_from_list_inv [OF assms] allocator_invD(4) [OF new_from_list_inv(1) [OF assms]]
  by (simp add: allocated_def entries_addrs_def)

lemma system_allocator_new_ok:
  assumes "system_allocator_new page_size config rs ranges = Some (Ok s)"
    and "sorted_wrt (\<lambda>p q. addrs p \<inter> addrs q = {}) ranges"
  shows "sys_inv s" "free (mmio s Low) = addrs (low_mmio config) \<inter> admitted ranges"
    "union_addrs (pools (mmio s Low)) = addrs (low_mmio config) \<inter> admitted ranges"
    "union_addrs (pools (mmio s High)) = free (mmio s High)" "free (irq_allocator s) = {ucast (first_irq config) .. 1023}"
    "\<exists>h. reserve_high_mmio (high_mmio config) rs = Some (Ok (h, reserved_region s)) \<and>
       free (mmio s High) = addrs h \<inter> admitted ranges"
    "pci_held s = (\<lambda>_. {})" "next_anon_id s = 0"
proof -
  obtain h io low hi pl irq gpe where c:
    "reserve_high_mmio (high_mmio config) rs = Some (Ok (h, reserved_region s))"
    "new_io (config_io config) = Ok io"
    "new_from_list (intersect_mmio_range ranges (low_mmio config)) (Some page_size) None = Ok low"
    "new_from_list (intersect_mmio_range ranges h) (Some page_size) None = Ok hi"
    "new_platform page_size (platform_mmio config) = Ok pl"
    "new_allocator \<lparr>range_start = ucast (first_irq config), range_end = 1023\<rparr> (Some 1) None = Ok irq"
    "new_allocator \<lparr>range_start = 0, range_end = 255\<rparr> (Some 1) None = Ok gpe"
    "s = \<lparr>io_address_space = io, mmio_address_spaces = [low, hi], mmio_platform_address_spaces = pl,
       reserved_region = reserved_region s, pci_allocator = [], irq_allocator = irq, gpe_allocator = gpe,
       next_anon_id = 0\<rparr>"
    using assms(1) by (auto simp: system_allocator_new_def bind_eq_Some_conv and_then_Ok)
  note d = intersect_mmio_range_disjoint [OF assms(2)]
  note inv = new_from_list_inv [OF c(3) d] new_from_list_inv [OF c(4) d]
  note num = new_from_list_inv [OF c(6) [unfolded new_allocator_def]]
  have single: "allocator_inv A" if "new_allocator r a p = Ok A" for r a p A
    using new_from_list_inv(1) [of "[r]" a p A] that by (simp add: new_allocator_def)
  have "pred_option allocator_inv io" "pred_option allocator_inv pl"
    using c(2,5) single by (auto simp: new_io_def new_platform_def map_ok_Ok split: option.splits if_splits)
  moreover have "number_pool_ok 0 1023 irq" "number_pool_ok 0 255 gpe"
    using new_number_pool [OF c(6), of 1023 0] new_number_pool [OF c(7), of 255 0]
    by (auto simp: addrs_def word_nat unsigned_minus_1_eq_mask mask_eq_exp_minus_1)
  ultimately show "sys_inv s"
    using inv by (subst c(8)) (simp add: sys_inv_def bmap_get_def)
  show "free (mmio s Low) = addrs (low_mmio config) \<inter> admitted ranges"
    "union_addrs (pools (mmio s Low)) = addrs (low_mmio config) \<inter> admitted ranges"
    "union_addrs (pools (mmio s High)) = free (mmio s High)"
    using inv new_pools [OF c(3) d] new_pools [OF c(4) d] by (subst c(8), simp add: intersect_mmio_range_addrs)+
  show "\<exists>h. reserve_high_mmio (high_mmio config) rs = Some (Ok (h, reserved_region s)) \<and>
       free (mmio s High) = addrs h \<inter> admitted ranges"
    using c(1) inv by (subst (2) c(8)) (auto simp: intersect_mmio_range_addrs)
  show "free (irq_allocator s) = {ucast (first_irq config) .. 1023}"
    using num by (subst c(8)) (auto simp: addrs_def)
  show "pci_held s = (\<lambda>_. {})" by (subst c(8)) (simp add: fun_eq_iff pci_held_def bmap_get_def)
  show "next_anon_id s = 0" by (subst c(8)) simp
qed

section \<open>Sequences of operations\<close>

text \<open>What the rest of the monitor can do to the system allocator: the operations above, and, through
  \<open>mmio_allocator\<close>, \<open>io_allocator\<close> and \<open>mmio_platform_allocator\<close>, any operation of a single address
  allocator.\<close>

inductive sys_step :: "system_allocator \<Rightarrow> system_allocator \<Rightarrow> bool" where
  anon: "get_anon_alloc s = Some (s', k) \<Longrightarrow> sys_step s s'"
| irq: "allocate_irq s = Some (s', i) \<Longrightarrow> sys_step s s'"
| free_irq: "sys_step s (release_irq s j)"
| fixed_irq: "reserve_irq s j = Some (s', ok) \<Longrightarrow> sys_step s s'"
| gpe: "allocate_gpe s = Some (s', i) \<Longrightarrow> sys_step s s'"
| pci: "allocate_pci s b tag = Some (s', a) \<Longrightarrow> sys_step s s'"
| fixed_pci: "reserve_pci s p tag = Some (s', ok) \<Longrightarrow> sys_step s s'"
| free_pci: "release_pci s p = (s', ok) \<Longrightarrow> sys_step s s'"
| mmio: "allocate_mmio s sz k tag opts = Some (s', res) \<Longrightarrow> sys_step s s'"
| fixed_mmio: "reserve_mmio s rng = Some (s', done) \<Longrightarrow> sys_step s s'"
| via_mmio: "allocator_step (mmio s ty) A \<Longrightarrow>
    sys_step s (s\<lparr>mmio_address_spaces := (mmio_address_spaces s)[mmio_index ty := A]\<rparr>)"
| via_io: "io_address_space s = Some B \<Longrightarrow> allocator_step B A \<Longrightarrow> sys_step s (s\<lparr>io_address_space := Some A\<rparr>)"
| via_platform: "mmio_platform_address_spaces s = Some B \<Longrightarrow> allocator_step B A \<Longrightarrow>
    sys_step s (s\<lparr>mmio_platform_address_spaces := Some A\<rparr>)"

inductive_cases sys_stepE: "sys_step s s'"

lemma anon_not_max: "checked_add (next_anon_id s) 1 = Some n \<Longrightarrow> next_anon_id s \<noteq> - 1"
  by (auto simp: checked_add_code)

lemma uses_anon: "(get_anon_alloc s \<bind> f) = Some y \<Longrightarrow> next_anon_id s \<noteq> - 1"
  by (auto simp: get_anon_alloc_def bind_eq_Some_conv checked_add_code split: if_splits)

lemma get_anon_alloc_inv:
  "sys_inv s \<Longrightarrow> get_anon_alloc s = Some (s', k) \<Longrightarrow>
     sys_inv s' \<and> irq_allocator s' = irq_allocator s \<and> mmio_address_spaces s' = mmio_address_spaces s"
  using anon_not_max get_anon_allocE [of s] by (fastforce simp: get_anon_alloc_def bind_eq_Some_conv)

lemma first_ok_inv:
  assumes "first_ok f res0 as = Some (as', res)" "\<And>a a' r. a \<in> set as \<Longrightarrow> f a = Some (a', r) \<Longrightarrow> P a'"
    "\<And>a. a \<in> set as \<Longrightarrow> P a"
  shows "length as' = length as \<and> (\<forall>a \<in> set as'. P a)"
  using assms
proof (induction f res0 as arbitrary: as' rule: first_ok.induct)
  case (2 f res0 a as)
  obtain a' r where a: "f a = Some (a', r)" using 2(2) by (auto simp: bind_eq_Some_conv)
  then have "P a'" using 2(3) by (meson list.set_intros(1))
  show ?case
  proof (cases "is_ok r")
    case True
    then show ?thesis using 2(2,4) a \<open>P a'\<close> by auto
  next
    case False
    then obtain as'' where "first_ok f r as = Some (as'', res)" "as' = a' # as''"
      using 2(2) a by (auto simp: bind_eq_Some_conv)
    then show ?thesis using 2(1) [OF a refl False] 2(3,4) \<open>P a'\<close> by auto
  qed
qed simp

lemma reserve_mmio_loop_inv:
  "reserve_mmio_loop s rng ps = Some (s', res) \<Longrightarrow> sys_inv s \<Longrightarrow>
     sys_inv s' \<and> irq_allocator s' = irq_allocator s"
proof (induction ps arbitrary: s)
  case (Cons p ps)
  show ?case
  proof (cases "range_end rng < range_start p \<or> range_is_empty (intersect p rng)")
    case True
    then show ?thesis using Cons by (auto simp: Let_def split: if_splits)
  next
    case False
    then obtain t k as r where t: "get_anon_alloc s = Some (t, k)"
      "set_allocate_at (mmio_address_spaces t) (intersect p rng) k ''pci mmio reserve'' = Some (as, r)"
      "(case r of Err e \<Rightarrow> Some (t\<lparr>mmio_address_spaces := as\<rparr>, Err e)
        | Ok _ \<Rightarrow> reserve_mmio_loop (t\<lparr>mmio_address_spaces := as\<rparr>) rng ps) = Some (s', res)"
      using Cons.prems(1) by (auto simp: Let_def bind_eq_Some_conv)
    note i = get_anon_alloc_inv [OF Cons.prems(2) t(1)]
    have inv: "\<And>A. A \<in> set (mmio_address_spaces t) \<Longrightarrow> allocator_inv A" using sys_invD(5) i by blast
    have "length as = length (mmio_address_spaces t) \<and> (\<forall>A \<in> set as. allocator_inv A)"
    proof (rule first_ok_inv [OF t(2) [unfolded set_allocate_at_def]])
      show "A \<in> set (mmio_address_spaces t) \<Longrightarrow> allocate_at A (intersect p rng) k ''pci mmio reserve'' = Some (A', r')
          \<Longrightarrow> allocator_inv A'" for A A' r'
        using allocate_at_keeps [OF inv, of A "intersect p rng"] by (simp add: keeps_def)
    qed (rule inv)
    then have "sys_inv (t\<lparr>mmio_address_spaces := as\<rparr>)" using conjunct1 [OF i] by (simp add: sys_inv_def)
    then show ?thesis
      using t(3) i Cons.IH [of "t\<lparr>mmio_address_spaces := as\<rparr>"] by (cases r) auto
  qed
qed simp

lemma allocate_mmio_runs:
  assumes "allocate_mmio s sz k tag opts = Some (s', res)"
  obtains (refused) "s' = s"
    | (once) ty where "allocate_mmio_internal s sz k tag opts ty = Some (s', res)"
    | (twice) t r where "allocate_mmio_internal s sz k tag opts High = Some (t, r)"
        "allocate_mmio_internal t sz k tag opts Low = Some (s', res)"
proof (cases "max_address opts < 0xffffffff")
  case True
  then show thesis using assms refused by (simp add: allocate_mmio_def)
next
  case False
  define ty where "ty = (if max_address opts < - 1 \<or> \<not> prefetchable opts then Low else High)"
  have "do { (t, r) \<leftarrow> allocate_mmio_internal s sz k tag opts ty;
      if ty = High \<and> r = Err OutOfSpace then allocate_mmio_internal t sz k tag opts Low
      else Some (t, r) } = Some (s', res)"
    using assms False by (simp add: allocate_mmio_def Let_def ty_def)
  then obtain t r where t: "allocate_mmio_internal s sz k tag opts ty = Some (t, r)"
    "(if ty = High \<and> r = Err OutOfSpace then allocate_mmio_internal t sz k tag opts Low
      else Some (t, r)) = Some (s', res)"
    by (auto simp: bind_eq_Some_conv)
  show thesis
  proof (cases "ty = High \<and> r = Err OutOfSpace")
    case True
    then show thesis using t twice by simp
  next
    case F: False
    then show thesis using t(2) once [of ty] t(1) by (simp only: if_False)
  qed
qed

lemma frame_irq:
  "allocate_gpe s = Some (s', i) \<Longrightarrow> irq_allocator s' = irq_allocator s"
  "allocate_pci s b tag = Some (s', a) \<Longrightarrow> irq_allocator s' = irq_allocator s"
  "reserve_pci s p tag = Some (s', ok) \<Longrightarrow> irq_allocator s' = irq_allocator s"
  "release_pci s p = (s', ok) \<Longrightarrow> irq_allocator s' = irq_allocator s"
  "allocate_mmio s sz k tag opts = Some (s', res) \<Longrightarrow> irq_allocator s' = irq_allocator s"
proof -
  have g: "irq_allocator t = irq_allocator s" if "get_pci_allocator_mut s b = Some (t, A)" for s t b A
    using that by (auto simp: get_pci_allocator_mut_def Let_def split: option.splits result.splits)
  show "allocate_gpe s = Some (s', i) \<Longrightarrow> irq_allocator s' = irq_allocator s"
    by (auto simp: allocate_gpe_def get_anon_alloc_def bind_eq_Some_conv)
  have g': "irq_allocator s' = irq_allocator s"
    if run: "do { (s, id) \<leftarrow> get_anon_alloc s;
          case get_pci_allocator_mut s b of None \<Rightarrow> Some (s, x)
          | Some (s, A) \<Rightarrow> do { (A, res) \<leftarrow> h A id; Some (put_pci_allocator b A s, r res) } } = Some (s', y)"
    for s s' b x h r y
  proof -
    obtain n where n: "(case get_pci_allocator_mut (s\<lparr>next_anon_id := n\<rparr>) b of None \<Rightarrow> Some (s\<lparr>next_anon_id := n\<rparr>, x)
          | Some (s, A) \<Rightarrow> do { (A, res) \<leftarrow> h A (Anon n); Some (put_pci_allocator b A s, r res) }) = Some (s', y)"
      using run by (auto simp: get_anon_alloc_def bind_eq_Some_conv)
    then show ?thesis
      by (cases "get_pci_allocator_mut (s\<lparr>next_anon_id := n\<rparr>) b") (auto dest!: g simp: bind_eq_Some_conv)
  qed
  show "allocate_pci s b tag = Some (s', a) \<Longrightarrow> irq_allocator s' = irq_allocator s"
    unfolding allocate_pci_def by (rule g')
  show "reserve_pci s p tag = Some (s', ok) \<Longrightarrow> irq_allocator s' = irq_allocator s"
    unfolding reserve_pci_def Let_def by (rule g')
  show "release_pci s p = (s', ok) \<Longrightarrow> irq_allocator s' = irq_allocator s"
    by (auto simp: release_pci_def dest!: g split: option.splits prod.splits)
  have m: "irq_allocator s' = irq_allocator s" if "allocate_mmio_internal s sz k tag opts ty = Some (s', res)"
    for s s' ty res
    using that unfolding allocate_mmio_internal_def Let_def bind_eq_Some_conv by auto
  show "irq_allocator s' = irq_allocator s" if a: "allocate_mmio s sz k tag opts = Some (s', res)"
  proof (rule allocate_mmio_runs [OF a])
    show "irq_allocator s' = irq_allocator s" if "s' = s" using that by simp
    show "irq_allocator s' = irq_allocator s"
      if "allocate_mmio_internal s sz k tag opts ty = Some (s', res)" for ty
      using m [OF that] .
    show "irq_allocator s' = irq_allocator s"
      if "allocate_mmio_internal s sz k tag opts High = Some (t, r)"
        "allocate_mmio_internal t sz k tag opts Low = Some (s', res)" for t r
      using m [OF that(1)] m [OF that(2)] by simp
  qed
qed

definition irq_numbers :: "system_allocator \<Rightarrow> u64 set" where
  "irq_numbers s = free (irq_allocator s) \<union> allocated (irq_allocator s)"

lemma unit_choice_free: "unit_choice A v \<Longrightarrow> v \<in> free A"
  by (simp add: unit_choice_def)

lemma sys_step_inv: "sys_step s s' \<Longrightarrow> sys_inv s \<Longrightarrow> sys_inv s' \<and> irq_numbers s' = irq_numbers s"
proof (induction rule: sys_step.induct)
  case (anon s s' k)
  then show ?case using get_anon_alloc_inv [OF anon(2,1)] by (simp add: irq_numbers_def)
next
  case (irq s s' i)
  have "next_anon_id s \<noteq> - 1" using irq(1) [unfolded allocate_irq_def] by (rule uses_anon)
  then show ?case
    by (rule allocate_irq_cases [OF irq(2)]) (use irq(1) in \<open>auto simp: irq_numbers_def dest: unit_choice_free\<close>)
next
  case (free_irq s j)
  then show ?case
    using release_irq_cases [OF free_irq, of j] by (auto simp: irq_numbers_def)
next
  case (fixed_irq s j s' ok)
  have "next_anon_id s \<noteq> - 1" using fixed_irq(1) [unfolded reserve_irq_def] by (rule uses_anon)
  then obtain t where "reserve_irq s j = Some (t, ucast j \<in> free (irq_allocator s))" "sys_inv t"
    "free (irq_allocator t) = free (irq_allocator s) - {ucast j}"
    "allocated (irq_allocator t) = (if ucast j \<in> free (irq_allocator s)
       then insert (ucast j) (allocated (irq_allocator s)) else allocated (irq_allocator s))"
    by (rule reserve_irq_cases [OF fixed_irq(2), of j])
  then show ?case using fixed_irq(1) by (simp add: irq_numbers_def) blast
next
  case (gpe s s' i)
  have "next_anon_id s \<noteq> - 1" using gpe(1) [unfolded allocate_gpe_def] by (rule uses_anon)
  then have "sys_inv s'" by (rule allocate_gpe_cases [OF gpe(2)]) (use gpe(1) in auto)
  then show ?case using frame_irq(1) [OF gpe(1)] by (simp add: irq_numbers_def)
next
  case (pci s b tag s' a)
  have "next_anon_id s \<noteq> - 1" using pci(1) [unfolded allocate_pci_def] by (rule uses_anon)
  then have "sys_inv s'" by (rule allocate_pci_cases [OF pci(2), of b tag]) (use pci(1) in auto)
  then show ?case using frame_irq(2) [OF pci(1)] by (simp add: irq_numbers_def)
next
  case (fixed_pci s p tag s' ok)
  have "next_anon_id s \<noteq> - 1" using fixed_pci(1) [unfolded reserve_pci_def] by (rule uses_anon)
  then have "sys_inv s'" by (rule reserve_pci_cases [OF fixed_pci(2), of p tag]) (use fixed_pci(1) in auto)
  then show ?case using frame_irq(3) [OF fixed_pci(1)] by (simp add: irq_numbers_def)
next
  case (free_pci s p s' ok)
  have "sys_inv s'" by (rule release_pci_cases [OF free_pci(2), of p]) (use free_pci(1) in auto)
  then show ?case using frame_irq(4) [OF free_pci(1)] by (simp add: irq_numbers_def)
next
  case (mmio s sz k tag opts s' res)
  have "sys_inv s'"
    by (rule allocate_mmio_runs [OF mmio(1)]) (use mmio(2) allocate_mmio_internal_outcome in metis)+
  then show ?case using frame_irq(5) [OF mmio(1)] by (simp add: irq_numbers_def)
next
  case (fixed_mmio s rng s' r)
  then show ?case using reserve_mmio_loop_inv by (auto simp: reserve_mmio_def irq_numbers_def)
next
  case (via_mmio s ty A)
  have "allocator_inv A"
    using allocator_step_keeps [OF via_mmio(1) mmio_inv [OF via_mmio(2)]] by (simp add: keeps_def)
  then show ?case using sys_inv_mmio_update [OF via_mmio(2)] by (simp add: irq_numbers_def)
next
  case (via_io s B A)
  then show ?case using allocator_step_keeps [OF via_io(2)] by (auto simp: sys_inv_def keeps_def irq_numbers_def)
next
  case (via_platform s B A)
  then show ?case
    using allocator_step_keeps [OF via_platform(2)] by (auto simp: sys_inv_def keeps_def irq_numbers_def)
qed

lemma sys_steps_inv:
  "sys_step\<^sup>*\<^sup>* s s' \<Longrightarrow> sys_inv s \<Longrightarrow> sys_inv s' \<and> irq_numbers s' = irq_numbers s"
  by (induction rule: rtranclp_induct) (use sys_step_inv in auto)

lemma pci_partition:
  assumes "sys_inv s"
  shows "pci_free s b \<inter> pci_held s b = {}" "pci_free s b \<union> pci_held s b = addrs (pci_slots b)"
  using sys_invD(3) [OF assms, of b] allocator_invD(3,4)
  by (fastforce simp: pci_free_def pci_held_def pci_pool_ok_def unit_pool.anon_ok_def unit_pool_inv_def
      union_addrs_def split: option.splits)+

lemma irq_partition: "sys_inv s \<Longrightarrow> free (irq_allocator s) \<inter> allocated (irq_allocator s) = {}"
  using allocator_invD(3) [of "irq_allocator s"]
  by (simp add: sys_inv_def number_pool_ok_def unit_pool.anon_ok_def unit_pool_inv_def)

section \<open>Properties\<close>

definition demo_config :: system_allocator_config where
  "demo_config = \<lparr>config_io = None, low_mmio = \<lparr>range_start = 0x1000, range_end = 0x8fff\<rparr>,
     high_mmio = \<lparr>range_start = 0x10000, range_end = 0x1ffff\<rparr>, platform_mmio = None, first_irq = 5\<rparr>"

definition demo_pool_of :: "u64 \<Rightarrow> u64 \<Rightarrow> u64 \<Rightarrow> address_allocator" where
  "demo_pool_of lo hi al = \<lparr>pools = [\<lparr>range_start = lo, range_end = hi\<rparr>], min_align = al, preferred_align = al,
     allocs = [], regions = [\<lparr>range_start = lo, range_end = hi\<rparr>]\<rparr>"

definition demo_system :: system_allocator where
  "demo_system = \<lparr>io_address_space = None,
     mmio_address_spaces = [demo_pool_of 0x1000 0x8fff 0x1000, demo_pool_of 0x14000 0x1ffff 0x1000],
     mmio_platform_address_spaces = None,
     reserved_region = Some \<lparr>range_start = 0x10000, range_end = 0x13fff\<rparr>, pci_allocator = [],
     irq_allocator = demo_pool_of 5 1023 1, gpe_allocator = demo_pool_of 0 255 1, next_anon_id = 0\<rparr>"

lemma new_demo_system: "system_allocator_new 0x1000 demo_config (Some 0x4000) [] = Some (Ok demo_system)"
  by code_simp

lemmas demo_new = system_allocator_new_ok [OF new_demo_system sorted_wrt.simps(1) [THEN iffD2, OF TrueI]]


lemma allocate_irq_demo: "\<exists>s. allocate_irq demo_system = Some (s, Some 5)"
proof -
  have "map_option snd (allocate_irq demo_system) = Some (Some 5)" by code_simp
  then show ?thesis by auto
qed


text \<open>C30: \<open>allocate_irq\<close> hands out the lowest free interrupt number, at most 1023, and takes it out of the
  free ones; it fails only when no number is free. It never collides with a key in use.\<close>

theorem allocate_irq_lowest:
  assumes "sys_inv s" "next_anon_id s \<noteq> - 1" "preferred_align (irq_allocator s) = 1"
  shows "\<exists>s' r. allocate_irq s = Some (s', r) \<and> sys_inv s' \<and>
    (case r of
       None \<Rightarrow> free (irq_allocator s) = {} \<and> irq_allocator s' = irq_allocator s
     | Some i \<Rightarrow> i \<le> 1023 \<and> ucast i \<in> free (irq_allocator s) \<and> (\<forall>w \<in> free (irq_allocator s). ucast i \<le> w) \<and>
         free (irq_allocator s') = free (irq_allocator s) - {ucast i} \<and>
         allocated (irq_allocator s') = insert (ucast i) (allocated (irq_allocator s)))"
  by (rule allocate_irq_cases [OF assms(1,2)]) (use assms(3) in \<open>auto simp: unit_choice_def\<close>)

theorem allocate_irq_lowest_witness:
  "\<exists>s. allocate_irq demo_system = Some (s, Some 5) \<and> 5 \<notin> free (irq_allocator s) \<and> sys_inv s"
proof -
  have "next_anon_id demo_system \<noteq> - 1" "preferred_align (irq_allocator demo_system) = 1"
    by (simp_all add: demo_system_def demo_pool_of_def)
  from allocate_irq_lowest [OF demo_new(1) this] allocate_irq_demo
  show ?thesis by auto
qed

text \<open>C13: \<open>allocate_pci\<close> returns a valid free address of the bus: function 0 of the lowest device whose
  function 0 is free if there is one, the lowest free function otherwise; never a function of the
  host bridge's device on bus 0. It fails only when the bus is full.\<close>

theorem allocate_pci_choice:
  assumes "sys_inv s" "next_anon_id s \<noteq> - 1"
  shows "\<exists>s' r. allocate_pci s b tag = Some (s', r) \<and> sys_inv s' \<and>
    (case r of
       None \<Rightarrow> pci_free s b = {} \<and> pci_free s' = pci_free s \<and> pci_held s' = pci_held s
     | Some a \<Rightarrow> bus a = b \<and> pci_choice (pci_free s b) a \<and> (bus a = 0 \<longrightarrow> dev a \<noteq> 0) \<and>
         pci_free s' = (pci_free s)(b := pci_free s b - {pci_df a}) \<and>
         pci_held s' = (pci_held s)(b := insert (pci_df a) (pci_held s b)))"
proof (rule allocate_pci_cases [OF assms, of b tag])
  fix s' assume "pci_free s b = {}" "allocate_pci s b tag = Some (s', None)" "sys_inv s'"
    "pci_free s' = pci_free s" "pci_held s' = pci_held s"
  then show ?thesis by auto
next
  fix s' a assume a: "allocate_pci s b tag = Some (s', Some a)" "sys_inv s'" "bus a = b"
    "pci_choice (pci_free s b) a" "pci_df a \<in> addrs (pci_slots b)"
    "pci_free s' = (pci_free s)(b := pci_free s b - {pci_df a})"
    "pci_held s' = (pci_held s)(b := insert (pci_df a) (pci_held s b))"
  have "unat (func a) < 8" using a(4) by (simp add: pci_choice_def pci_address_ok_def word_nat)
  then have "bus a = 0 \<longrightarrow> dev a \<noteq> 0"
    using unat_pci_df [of a] a(3,5) by (auto simp: addrs_pci_slots word_nat)
  with a show ?thesis by auto
qed

theorem allocate_pci_choice_witness:
  "\<exists>s a. allocate_pci demo_system 0 ''x'' = Some (s, Some a) \<and> func a = 0 \<and> dev a = 1 \<and> sys_inv s"
proof -
  have "map_option snd (allocate_pci demo_system 0 ''x'') = Some (Some \<lparr>bus = 0, dev = 1, func = 0\<rparr>)"
    by code_simp
  moreover have "next_anon_id demo_system \<noteq> - 1" by (simp add: demo_system_def)
  ultimately show ?thesis using allocate_pci_choice [OF demo_new(1), of 0 "''x''"] by auto
qed

text \<open>\<open>reserve_pci\<close> succeeds exactly on a free function, and releasing it afterwards succeeds and
  makes every bus what it was.\<close>

theorem reserve_release_pci:
  assumes "sys_inv s" "next_anon_id s \<noteq> - 1"
  shows "\<exists>s' s''. reserve_pci s a tag = Some (s', pci_df a \<in> pci_free s (bus a)) \<and> sys_inv s' \<and>
    (pci_df a \<in> pci_free s (bus a) \<longrightarrow> pci_df a \<notin> pci_free s' (bus a) \<and>
       release_pci s' a = (s'', True) \<and> sys_inv s'' \<and> pci_free s'' = pci_free s \<and> pci_held s'' = pci_held s)"
proof (rule reserve_pci_cases [OF assms, of a tag])
  fix s' assume r: "reserve_pci s a tag = Some (s', pci_df a \<in> pci_free s (bus a))" "sys_inv s'"
    "pci_free s' = (pci_free s)(bus a := pci_free s (bus a) - {pci_df a})"
    "pci_held s' = (if pci_df a \<in> pci_free s (bus a)
       then (pci_held s)(bus a := insert (pci_df a) (pci_held s (bus a))) else pci_held s)"
  obtain s'' where q: "release_pci s' a = (s'', pci_df a \<in> pci_held s' (bus a))" "sys_inv s''"
    "pci_free s'' = (if pci_df a \<in> pci_held s' (bus a)
       then (pci_free s')(bus a := insert (pci_df a) (pci_free s' (bus a))) else pci_free s')"
    "pci_held s'' = (pci_held s')(bus a := pci_held s' (bus a) - {pci_df a})"
    by (rule release_pci_cases [OF r(2), of a])
  show ?thesis
  proof (cases "pci_df a \<in> pci_free s (bus a)")
    case True
    then have "pci_df a \<notin> pci_held s (bus a)" using pci_partition(1) [OF assms(1), of "bus a"] by auto
    then have "pci_free s'' = pci_free s" "pci_held s'' = pci_held s" "pci_df a \<in> pci_held s' (bus a)"
      using True q(3,4) r(3,4) by (auto simp: fun_eq_iff)
    with q(1,2) r(1-3) True show ?thesis by auto
  qed (use r in auto)
qed

theorem reserve_release_pci_witness:
  "\<exists>s' s''. reserve_pci demo_system \<lparr>bus = 3, dev = 4, func = 5\<rparr> ''x'' = Some (s', True) \<and>
     release_pci s' \<lparr>bus = 3, dev = 4, func = 5\<rparr> = (s'', True) \<and> pci_free s'' = pci_free demo_system"
proof -
  have n: "next_anon_id demo_system \<noteq> - 1" by (simp add: demo_system_def)
  have "map_option snd (reserve_pci demo_system \<lparr>bus = 3, dev = 4, func = 5\<rparr> ''x'') = Some True" by code_simp
  then show ?thesis
    using reserve_release_pci [OF demo_new(1) n, of "\<lparr>bus = 3, dev = 4, func = 5\<rparr>" "''x''"] by auto
qed

text \<open>C14: the options of an MMIO request are honoured. The block comes from the high window only if the
  request is prefetchable and unbounded; it is free before, taken after, aligned as asked, and ends
  at or below \<open>max_address\<close> provided the low window lies below 4 GiB. The other window is untouched.\<close>

theorem allocate_mmio_honours_options:
  assumes "sys_inv s" "allocate_mmio s sz k tag opts = Some (s', Ok a)"
    "union_addrs (pools (mmio s Low)) \<subseteq> {.. 0xffffffff}"
  shows "sys_inv s' \<and> (\<exists>ty. (ty = High \<longrightarrow> prefetchable opts \<and> max_address opts = - 1) \<and>
    granted (mmio s ty) sz k tag (mmio s' ty) a \<and> (\<forall>ty'. ty' \<noteq> ty \<longrightarrow> mmio s' ty' = mmio s ty') \<and>
    (\<forall>al. alignment opts = Some al \<longrightarrow> unat (max (min_align (mmio s ty)) al) dvd unat a) \<and>
    block a sz \<subseteq> {.. max_address opts})"
proof (rule allocate_mmio_outcome [OF assms(1,2)])
  fix ty assume o: "sys_inv s'" "ty = High \<Longrightarrow> prefetchable opts \<and> max_address opts = - 1"
    "granted (mmio s ty) sz k tag (mmio s' ty) a" "\<And>ty'. ty' \<noteq> ty \<Longrightarrow> mmio s' ty' = mmio s ty'"
    "\<And>al. alignment opts = Some al \<Longrightarrow> unat (max (min_align (mmio s ty)) al) dvd unat a"
    "0xffffffff \<le> max_address opts"
  have "block a sz \<subseteq> {.. max_address opts}"
  proof (cases ty)
    case Low
    have "block a sz \<subseteq> union_addrs (pools (mmio s ty))"
      using o(3) free_pools [OF mmio_inv [OF assms(1)], of ty] by (auto simp: granted_def)
    then have "block a sz \<subseteq> {.. 0xffffffff}" using assms(3) Low by blast
    then show ?thesis using o(6) by (meson atMost_subset_iff subset_trans)
  next
    case High
    then show ?thesis using o(2) by auto
  qed
  with o show ?thesis by blast
qed

theorem allocate_mmio_honours_options_witness:
  "\<exists>s' ty. allocate_mmio demo_system 0x2000 (Anon 9) ''x'' (with_top_down True alloc_options_new) = Some (s', Ok 0x7000) \<and>
     granted (mmio demo_system ty) 0x2000 (Anon 9) ''x'' (mmio s' ty) 0x7000 \<and> ty \<noteq> High"
proof -
  let ?o = "with_top_down True alloc_options_new"
  have "map_option snd (allocate_mmio demo_system 0x2000 (Anon 9) ''x'' ?o) = Some (Ok 0x7000)" by code_simp
  then obtain s' where r: "allocate_mmio demo_system 0x2000 (Anon 9) ''x'' ?o = Some (s', Ok 0x7000)" by auto
  have "union_addrs (pools (mmio demo_system Low)) \<subseteq> {.. 0xffffffff}"
    by (auto simp: demo_system_def demo_pool_of_def addrs_def word_nat)
  from allocate_mmio_honours_options [OF demo_new(1) r this] r show ?thesis
    by (auto simp: with_top_down_def alloc_options_new_def)
qed

text \<open>a successful \<open>reserve_mmio\<close> takes exactly the addresses of the range out of the free MMIO space,
  however many pools the range crosses. So if any part of the range that lies in a pool had been
  allocated, the call returns an error, as its comment says.\<close>

theorem reserve_mmio_excludes:
  assumes "sys_inv s" "mmio_disjoint s" "reserve_mmio s rng = Some (s', Ok ())"
  shows "sys_inv s' \<and> mmio_disjoint s' \<and> mmio_free s' = mmio_free s - addrs rng \<and>
    addrs rng \<inter> (union_addrs (pools (mmio s Low)) \<union> union_addrs (pools (mmio s High))) \<subseteq> mmio_free s"
proof -
  let ?ps = "sort_key range_start (mmio_pools s)"
  have "set ?ps = set (pools (mmio s Low)) \<union> set (pools (mmio s High))"
    unfolding mmio_pools_def by (subst mmio_spaces [OF assms(1)]) simp
  then have u: "union_addrs ?ps = union_addrs (pools (mmio s Low)) \<union> union_addrs (pools (mmio s High))"
    by (simp add: union_addrs_def)
  have "mmio_free s \<subseteq> union_addrs ?ps"
    using free_pools [OF mmio_inv [OF assms(1)], of Low] free_pools [OF mmio_inv [OF assms(1)], of High]
    unfolding u mmio_free_def by auto
  with reserve_mmio_loop_ok [OF assms(3) [unfolded reserve_mmio_def] assms(1,2)]
  show ?thesis by (auto simp: u)
qed

theorem reserve_mmio_excludes_witness:
  "\<exists>s'. reserve_mmio demo_system \<lparr>range_start = 0x8000, range_end = 0x15fff\<rparr> = Some (s', Ok ()) \<and>
     mmio_free s' = mmio_free demo_system - {0x8000 .. 0x15fff}"
proof -
  let ?r = "\<lparr>range_start = 0x8000, range_end = 0x15fff\<rparr> :: address_range"
  have "map_option snd (reserve_mmio demo_system ?r) = Some (Ok ())" by code_simp
  then obtain s' where r: "reserve_mmio demo_system ?r = Some (s', Ok ())" by auto
  have "mmio_disjoint demo_system"
    by (auto simp: mmio_disjoint_def demo_system_def demo_pool_of_def addrs_def word_nat)
  moreover have "addrs ?r = {0x8000 .. 0x15fff}" by (auto simp: addrs_def)
  ultimately show ?thesis using reserve_mmio_excludes [OF demo_new(1) _ r] r by auto
qed

text \<open>\<open>SystemAllocator::new\<close> sets up the windows as documented: nothing is held, the low window is the
  configured one cut down to the admitted ranges, and the configured high window is split without
  loss or overlap into the reserved region and the high window.\<close>

theorem system_allocator_new_windows:
  assumes "system_allocator_new page_size config rs ranges = Some (Ok s)"
    and "sorted_wrt (\<lambda>p q. addrs p \<inter> addrs q = {}) ranges"
  shows "sys_inv s \<and> free (mmio s Low) = addrs (low_mmio config) \<inter> admitted ranges \<and>
    (let reserved = (case reserved_region s of Some r \<Rightarrow> addrs r | None \<Rightarrow> {})
     in free (mmio s High) \<union> reserved \<inter> admitted ranges = addrs (high_mmio config) \<inter> admitted ranges \<and>
        free (mmio s High) \<inter> reserved = {})"
proof -
  note new = system_allocator_new_ok [OF assms]
  obtain h where h: "reserve_high_mmio (high_mmio config) rs = Some (Ok (h, reserved_region s))"
    "free (mmio s High) = addrs h \<inter> admitted ranges" using new(6) by blast
  show ?thesis using new(1,2) h(2) reserve_high_mmio_split [OF h(1)] by (auto simp: Let_def)
qed

theorem system_allocator_new_windows_witness:
  "free (mmio demo_system High) = {0x14000 .. 0x1ffff} \<and> sys_inv demo_system"
  using system_allocator_new_windows [OF new_demo_system]
  by (auto simp: demo_system_def demo_pool_of_def free_def addrs_def Let_def)

text \<open>\<open>release_pci\<close> of a function that is not held fails, but on a bus nothing was ever allocated on
  it still creates the allocator of that bus; from then on \<open>pci_bus_empty\<close> reports devices on a bus
  that has none.\<close>

theorem release_pci_marks_bus_used:
  assumes "sys_inv s" "pci_bus_empty s (bus a)"
  shows "\<exists>s'. release_pci s a = (s', False) \<and> pci_held s' (bus a) = {} \<and> \<not> pci_bus_empty s' (bus a)"
proof -
  have none: "pci_pool s (bus a) = None" using assms(2) by (simp add: pci_bus_empty_def)
  then have held: "pci_held s (bus a) = {}" by (simp add: pci_held_def)
  obtain t A where t: "get_pci_allocator_mut s (bus a) = Some (t, A)"
    by (rule get_pci_allocatorE [OF assms(1), of "bus a"])
  obtain s' where r: "release_pci s a = (s', pci_df a \<in> pci_held s (bus a))"
    "pci_held s' = (pci_held s)(bus a := pci_held s (bus a) - {pci_df a})"
    by (rule release_pci_cases [OF assms(1), of a])
  have "pci_pool s' (bus a) \<noteq> None"
    using r(1) t by (auto simp: pci_ops_unit pci_pool_put split: prod.splits)
  then show ?thesis using r held by (auto simp: pci_bus_empty_def)
qed

theorem release_pci_marks_bus_used_witness:
  "\<exists>s'. release_pci demo_system \<lparr>bus = 7, dev = 1, func = 0\<rparr> = (s', False) \<and> \<not> pci_bus_empty s' 7"
proof -
  have "pci_bus_empty demo_system (bus \<lparr>bus = 7, dev = 1, func = 0\<rparr>)"
    by (simp add: pci_bus_empty_def demo_system_def bmap_get_def)
  from release_pci_marks_bus_used [OF demo_new(1) this] show ?thesis by auto
qed

end
