(* ===== verification/Io_Bus.thy ===== *)
theory Io_Bus
  imports BTree_Model
begin

text \<open>
  \<open>crosvm/devices/src/bus.rs\<close>: the routing of guest accesses to devices. The devices are entries of a
  \<open>BTreeMap\<close> ordered by base address; an access goes to the last entry at or below the address. The
  states of the devices live in a heap indexed by the \<open>Arc\<close> pointers, so that one device may have
  several entries. The statistics of the optional \<open>stats\<close> feature are left out.
\<close>

section \<open>Ranges, entries and the bus\<close>

record bus_access_info =
  access_offset :: u64
  access_address :: u64
  requester :: usize

datatype bus_type = Mmio | Io

datatype bus_error = Empty | Overlap (base: u64) (len: u64) (other_base: u64) (other_len: u64)

record bus_range =
  range_base :: u64
  range_size :: u64

definition bus_range_contains :: "bus_range \<Rightarrow> u64 \<Rightarrow> bool" where
  "bus_range_contains r addr \<longleftrightarrow>
     range_base r \<le> addr \<and> addr < saturating_add (range_base r) (range_size r)"

definition bus_range_overlaps :: "bus_range \<Rightarrow> u64 \<Rightarrow> u64 \<Rightarrow> bool" where
  "bus_range_overlaps r b l \<longleftrightarrow>
     range_base r < saturating_add b l \<and> b < saturating_add (range_base r) (range_size r)"

definition bus_range_cmp :: "bus_range \<Rightarrow> bus_range \<Rightarrow> ordering" where
  "bus_range_cmp r q = cmp_word (range_base r) (range_base q)"

text \<open>A device is reached through an \<open>Arc\<close>; its pointer is a natural number that indexes the heap of
  device states.  The two constructors are the two traits a device can be registered under.\<close>

datatype bus_device_entry = OuterSync (entry_ptr: nat) | InnerSync (entry_ptr: nat)

record bus =
  devices :: "(bus_range \<times> bus_device_entry) list"
  access_id :: usize
  bus_kind :: bus_type

definition bus_new :: "bus_type \<Rightarrow> bus" where
  "bus_new ty = \<lparr>devices = [], access_id = 0, bus_kind = ty\<rparr>"

definition get_bus_type :: "bus \<Rightarrow> bus_type" where
  "get_bus_type b = bus_kind b"

definition set_access_id :: "usize \<Rightarrow> bus \<Rightarrow> bus" where
  "set_access_id i b = b\<lparr>access_id := i\<rparr>"

definition first_before :: "bus \<Rightarrow> u64 \<Rightarrow> (bus_range \<times> bus_device_entry) option" where
  "first_before b addr =
     next_back (bmap_range_to_incl bus_range_cmp \<lparr>range_base = addr, range_size = 1\<rparr> (devices b))"

text \<open>The outer \<open>option\<close> is the panic of \<open>addr - range.base\<close>.\<close>

definition get_device :: "bus \<Rightarrow> u64 \<Rightarrow> (u64 \<times> u64 \<times> bus_device_entry) option option" where
  "get_device b addr =
     (case first_before b addr of
        Some (rng, entry) \<Rightarrow> do {
          off \<leftarrow> checked_sub addr (range_base rng);
          Some (if off < range_size rng then Some (off, addr, entry) else None)
        }
      | None \<Rightarrow> Some None)"

definition bus_insert_entry ::
  "bus \<Rightarrow> bus_device_entry \<Rightarrow> u64 \<Rightarrow> u64 \<Rightarrow> bus \<times> (unit, bus_error) result" where
  "bus_insert_entry b entry bs ln =
     (if ln = 0 then (b, Err (Overlap bs ln 0 0))
      else case find (\<lambda>(r, _). bus_range_overlaps r bs ln) (devices b) of
        Some (r, _) \<Rightarrow> (b, Err (Overlap bs ln (range_base r) (range_size r)))
      | None \<Rightarrow>
          (case bmap_insert bus_range_cmp \<lparr>range_base = bs, range_size = ln\<rparr> entry (devices b) of
             (ds, Some _) \<Rightarrow> (b\<lparr>devices := ds\<rparr>, Err (Overlap bs ln bs ln))
           | (ds, None) \<Rightarrow> (b\<lparr>devices := ds\<rparr>, Ok ())))"

definition bus_insert :: "bus \<Rightarrow> nat \<Rightarrow> u64 \<Rightarrow> u64 \<Rightarrow> bus \<times> (unit, bus_error) result" where
  "bus_insert b device bs ln = bus_insert_entry b (OuterSync device) bs ln"

definition bus_insert_sync :: "bus \<Rightarrow> nat \<Rightarrow> u64 \<Rightarrow> u64 \<Rightarrow> bus \<times> (unit, bus_error) result" where
  "bus_insert_sync b device bs ln = bus_insert_entry b (InnerSync device) bs ln"

definition bus_remove :: "bus \<Rightarrow> u64 \<Rightarrow> u64 \<Rightarrow> bus \<times> (unit, bus_error) result" where
  "bus_remove b bs ln =
     (if ln = 0 then (b, Err (Overlap bs ln 0 0))
      else if list_ex (\<lambda>(r, _). range_base r = bs \<and> range_size r = ln) (devices b)
      then (case bmap_remove bus_range_cmp \<lparr>range_base = bs, range_size = ln\<rparr> (devices b) of
              (ds, ret) \<Rightarrow> (b\<lparr>devices := ds\<rparr>, if ret \<noteq> None then Ok () else Err Empty))
      else (b, Err Empty))"

section \<open>Devices\<close>

text \<open>The traits \<open>BusDevice\<close> and \<open>BusDeviceSync\<close>: what the bus calls.  The state of a device changes
  in every call that takes it mutably; a read fills the buffer it is given; a call may panic.\<close>

record ('d, 'v, 'e) device_ops =
  debug_label :: "'d \<Rightarrow> string"
  dev_read :: "'d \<Rightarrow> bus_access_info \<Rightarrow> u8 list \<Rightarrow> ('d \<times> u8 list) option"
  dev_write :: "'d \<Rightarrow> bus_access_info \<Rightarrow> u8 list \<Rightarrow> 'd option"
  dev_sleep :: "'d \<Rightarrow> 'd \<times> (unit, 'e) result"
  dev_wake :: "'d \<Rightarrow> 'd \<times> (unit, 'e) result"
  dev_snapshot :: "'d \<Rightarrow> 'd \<times> ('v, 'e) result"
  dev_restore :: "'d \<Rightarrow> 'v \<Rightarrow> 'd \<times> (unit, 'e) result"
  read_sync :: "'d \<Rightarrow> bus_access_info \<Rightarrow> u8 list \<Rightarrow> ('d \<times> u8 list) option"
  write_sync :: "'d \<Rightarrow> bus_access_info \<Rightarrow> u8 list \<Rightarrow> 'd option"
  sleep_sync :: "'d \<Rightarrow> 'd \<times> (unit, 'e) result"
  wake_sync :: "'d \<Rightarrow> 'd \<times> (unit, 'e) result"
  snapshot_sync :: "'d \<Rightarrow> 'd \<times> ('v, 'e) result"
  restore_sync :: "'d \<Rightarrow> 'v \<Rightarrow> 'd \<times> (unit, 'e) result"

definition bus_read ::
  "('d, 'v, 'e) device_ops \<Rightarrow> bus \<Rightarrow> (nat \<Rightarrow> 'd) \<Rightarrow> u64 \<Rightarrow> u8 list \<Rightarrow> ((nat \<Rightarrow> 'd) \<times> u8 list \<times> bool) option" where
  "bus_read ops b h addr data = do {
     let data = replicate (length data) 0;
     dev \<leftarrow> get_device b addr;
     case dev of
       Some (off, address, entry) \<Rightarrow> do {
         let io = \<lparr>access_offset = off, access_address = address, requester = access_id b\<rparr>;
         (d, data) \<leftarrow> (case entry of
             OuterSync p \<Rightarrow> dev_read ops (h p) io data
           | InnerSync p \<Rightarrow> read_sync ops (h p) io data);
         Some (h(entry_ptr entry := d), data, True)
       }
     | None \<Rightarrow> Some (h, data, False)
   }"

definition bus_write ::
  "('d, 'v, 'e) device_ops \<Rightarrow> bus \<Rightarrow> (nat \<Rightarrow> 'd) \<Rightarrow> u64 \<Rightarrow> u8 list \<Rightarrow> ((nat \<Rightarrow> 'd) \<times> bool) option" where
  "bus_write ops b h addr data = do {
     dev \<leftarrow> get_device b addr;
     case dev of
       Some (off, address, entry) \<Rightarrow> do {
         let io = \<lparr>access_offset = off, access_address = address, requester = access_id b\<rparr>;
         d \<leftarrow> (case entry of
             OuterSync p \<Rightarrow> dev_write ops (h p) io data
           | InnerSync p \<Rightarrow> write_sync ops (h p) io data);
         Some (h(entry_ptr entry := d), True)
       }
     | None \<Rightarrow> Some (h, False)
   }"

section \<open>Walking over the devices\<close>

text \<open>\<open>seen_ptrs\<close> is the set of pointers met so far.\<close>

fun dedup_devices :: "nat list \<Rightarrow> bus_device_entry list \<Rightarrow> bus_device_entry list" where
  "dedup_devices seen [] = []"
| "dedup_devices seen (e # es) =
     (if entry_ptr e \<in> set seen then dedup_devices seen es
      else e # dedup_devices (entry_ptr e # seen) es)"

definition unique_devices :: "bus \<Rightarrow> bus_device_entry list" where
  "unique_devices b = dedup_devices [] (map snd (devices b))"

definition is_whitespace :: "char \<Rightarrow> bool" where
  "is_whitespace c \<longleftrightarrow> (let n = of_char c :: u8 in 9 \<le> n \<and> n \<le> 13 \<or> n = 32 \<or> n = 0x85 \<or> n = 0xa0)"

fun dec_string :: "nat \<Rightarrow> string" where
  "dec_string n = (if n < 10 then [''0123456789'' ! n] else dec_string (n div 10) @ [''0123456789'' ! (n mod 10)])"

declare dec_string.simps [simp del]

text \<open>\<open>next_ids\<close> counts how many keys each label has got.\<close>

definition choose_key :: "(string \<times> nat) list \<Rightarrow> string \<Rightarrow> (string \<times> nat) list \<times> string" where
  "choose_key next_ids label0 =
     (let label = map (\<lambda>c. if is_whitespace c then CHR ''-'' else c) label0;
          id = (case map_of next_ids label of Some n \<Rightarrow> n | None \<Rightarrow> 0)
      in ((label, id + 1) # next_ids, label @ ''-'' @ dec_string id))"

fun snapshot_keys ::
  "(bus_device_entry \<Rightarrow> string) \<Rightarrow> (string \<times> nat) list \<Rightarrow> bus_device_entry list \<Rightarrow> (string \<times> bus_device_entry) list" where
  "snapshot_keys label next_ids [] = []"
| "snapshot_keys label next_ids (e # es) =
     (case choose_key next_ids (label e) of
        (next_ids', key) \<Rightarrow> (key, e) # snapshot_keys label next_ids' es)"

definition unique_devices_with_snapshot_key ::
  "('d, 'v, 'e) device_ops \<Rightarrow> bus \<Rightarrow> (nat \<Rightarrow> 'd) \<Rightarrow> (string \<times> bus_device_entry) list" where
  "unique_devices_with_snapshot_key ops b h =
     snapshot_keys (\<lambda>e. debug_label ops (h (entry_ptr e))) [] (unique_devices b)"

datatype 'e walk_error = DeviceError string 'e | FragmentError string

fun sleep_walk ::
  "('d, 'v, 'e) device_ops \<Rightarrow> (nat \<Rightarrow> 'd) \<Rightarrow> bus_device_entry list \<Rightarrow> (nat \<Rightarrow> 'd) \<times> (unit, 'e walk_error) result" where
  "sleep_walk ops h [] = (h, Ok ())"
| "sleep_walk ops h (e # es) =
     (case (case e of OuterSync p \<Rightarrow> dev_sleep ops (h p) | InnerSync p \<Rightarrow> sleep_sync ops (h p)) of
        (d, Ok _) \<Rightarrow> sleep_walk ops (h(entry_ptr e := d)) es
      | (d, Err x) \<Rightarrow> (h(entry_ptr e := d), Err (DeviceError (''failed to sleep '' @ debug_label ops d) x)))"

definition sleep_devices where
  "sleep_devices ops b h = sleep_walk ops h (unique_devices b)"

fun wake_walk ::
  "('d, 'v, 'e) device_ops \<Rightarrow> (nat \<Rightarrow> 'd) \<Rightarrow> bus_device_entry list \<Rightarrow> (nat \<Rightarrow> 'd) \<times> (unit, 'e walk_error) result" where
  "wake_walk ops h [] = (h, Ok ())"
| "wake_walk ops h (e # es) =
     (case (case e of OuterSync p \<Rightarrow> dev_wake ops (h p) | InnerSync p \<Rightarrow> wake_sync ops (h p)) of
        (d, Ok _) \<Rightarrow> wake_walk ops (h(entry_ptr e := d)) es
      | (d, Err x) \<Rightarrow> (h(entry_ptr e := d), Err (DeviceError (''failed to wake '' @ debug_label ops d) x)))"

definition wake_devices where
  "wake_devices ops b h = wake_walk ops h (unique_devices b)"

text \<open>A snapshot directory (\<open>snapshot/src/lib.rs\<close>): \<open>write_fragment\<close> creates a new file and fails if it
  exists; \<open>read_fragment\<close> fails if it does not.  Serialisation is lossless.\<close>

type_synonym 'v fragments = "(string \<times> 'v) list"

definition write_fragment :: "'v fragments \<Rightarrow> string \<Rightarrow> 'v \<Rightarrow> 'v fragments option" where
  "write_fragment w name v = (if map_of w name = None then Some ((name, v) # w) else None)"

definition read_fragment :: "'v fragments \<Rightarrow> string \<Rightarrow> 'v option" where
  "read_fragment w name = map_of w name"

fun snapshot_walk ::
  "('d, 'v, 'e) device_ops \<Rightarrow> (nat \<Rightarrow> 'd) \<Rightarrow> 'v fragments \<Rightarrow> (string \<times> bus_device_entry) list
     \<Rightarrow> (nat \<Rightarrow> 'd) \<times> 'v fragments \<times> (unit, 'e walk_error) result" where
  "snapshot_walk ops h w [] = (h, w, Ok ())"
| "snapshot_walk ops h w ((key, e) # es) =
     (case (case e of OuterSync p \<Rightarrow> dev_snapshot ops (h p) | InnerSync p \<Rightarrow> snapshot_sync ops (h p)) of
        (d, Ok v) \<Rightarrow>
          (case write_fragment w key v of
             None \<Rightarrow> (h(entry_ptr e := d), w, Err (FragmentError key))
           | Some w' \<Rightarrow> snapshot_walk ops (h(entry_ptr e := d)) w' es)
      | (d, Err x) \<Rightarrow>
          (h(entry_ptr e := d), w, Err (DeviceError (''failed to snapshot '' @ debug_label ops d) x)))"

definition snapshot_devices where
  "snapshot_devices ops b h w = snapshot_walk ops h w (unique_devices_with_snapshot_key ops b h)"

fun restore_walk ::
  "('d, 'v, 'e) device_ops \<Rightarrow> (nat \<Rightarrow> 'd) \<Rightarrow> 'v fragments \<Rightarrow> (string \<times> bus_device_entry) list
     \<Rightarrow> (nat \<Rightarrow> 'd) \<times> (unit, 'e walk_error) result" where
  "restore_walk ops h w [] = (h, Ok ())"
| "restore_walk ops h w ((key, e) # es) =
     (case read_fragment w key of
        None \<Rightarrow> (h, Err (FragmentError key))
      | Some v \<Rightarrow>
          (case (case e of OuterSync p \<Rightarrow> dev_restore ops (h p) v | InnerSync p \<Rightarrow> restore_sync ops (h p) v) of
             (d, Ok _) \<Rightarrow> restore_walk ops (h(entry_ptr e := d)) w es
           | (d, Err x) \<Rightarrow>
               (h(entry_ptr e := d), Err (DeviceError (''restore failed for device '' @ debug_label ops d) x))))"

definition restore_devices where
  "restore_devices ops b h w = restore_walk ops h w (unique_devices_with_snapshot_key ops b h)"

section \<open>Routing\<close>

definition span :: "bus_range \<Rightarrow> u64 set" where
  "span r = {a. bus_range_contains r a}"

lemma span_unat:
  "a \<in> span r \<longleftrightarrow> unat (range_base r) \<le> unat a \<and>
     unat a < min (unat (range_base r) + unat (range_size r)) (2 ^ 64 - 1)"
  by (simp add: span_def bus_range_contains_def word_nat rust_arith)

lemma not_max_unat: "a \<noteq> - 1 \<longleftrightarrow> unat a < 2 ^ 64 - 1" for a :: u64
  using unat_bound [of a]
  by (auto simp: word_unat_eq_iff unsigned_minus_1_eq_mask mask_eq_exp_minus_1)

lemma base_in_span: "range_size r \<noteq> 0 \<Longrightarrow> range_base r \<noteq> - 1 \<Longrightarrow> range_base r \<in> span r"
  by (simp add: span_unat not_max_unat flip: unat_gt_0)

lemma overlaps_span:
  assumes "range_size r \<noteq> 0" "ln \<noteq> 0"
  shows "bus_range_overlaps r bs ln \<longleftrightarrow> span r \<inter> span \<lparr>range_base = bs, range_size = ln\<rparr> \<noteq> {}"
proof -
  have pos: "0 < unat (range_size r)" "0 < unat ln" using assms by (simp_all add: unat_gt_0)
  show ?thesis
  proof
    assume o: "bus_range_overlaps r bs ln"
    have "max (range_base r) bs \<in> span r \<inter> span \<lparr>range_base = bs, range_size = ln\<rparr>"
      using o pos by (auto simp: bus_range_overlaps_def span_unat word_nat rust_arith max_def)
    then show "span r \<inter> span \<lparr>range_base = bs, range_size = ln\<rparr> \<noteq> {}" by blast
  next
    assume "span r \<inter> span \<lparr>range_base = bs, range_size = ln\<rparr> \<noteq> {}"
    then obtain a where "a \<in> span r" "a \<in> span \<lparr>range_base = bs, range_size = ln\<rparr>" by blast
    then show "bus_range_overlaps r bs ln"
      by (simp add: bus_range_overlaps_def span_unat word_nat rust_arith)
  qed
qed

interpretation bus_range_ord: ord_cmp bus_range_cmp
  by unfold_locales (auto simp: bus_range_cmp_def cmp_word_def split: if_splits)

text \<open>The comment on \<open>Bus\<close>: no two devices overlap.\<close>

definition bus_ok :: "bus \<Rightarrow> bool" where
  "bus_ok b \<longleftrightarrow> bus_range_ord.bmap_ok (devices b) \<and>
     (\<forall>(r, e) \<in> set (devices b). range_size r \<noteq> 0) \<and>
     (\<forall>(r, e) \<in> set (devices b). \<forall>(q, f) \<in> set (devices b). r \<noteq> q \<longrightarrow> span r \<inter> span q = {})"

lemma bus_ok_new: "bus_ok (bus_new ty)"
  by (simp add: bus_ok_def bus_new_def)

lemma devices_sorted:
  "bus_ok b \<Longrightarrow> sorted_wrt (\<lambda>(r, e) (q, f). range_base r < range_base q) (devices b)"
  by (auto simp: bus_ok_def bus_range_ord.bmap_ok_def sorted_wrt_map bus_range_cmp_def cmp_word_def
      elim!: sorted_wrt_mono_rel [rotated] split: if_splits)

lemma same_base:
  assumes "bus_ok b" "(r, e) \<in> set (devices b)" "(q, f) \<in> set (devices b)" "range_base r = range_base q"
  shows "r = q \<and> e = f"
proof -
  have lt: "range_base (fst (devices b ! i)) < range_base (fst (devices b ! j))"
    if "i < j" "j < length (devices b)" for i j
    using sorted_wrt_nth_less [OF devices_sorted [OF assms(1)] that] by (simp add: case_prod_beta)
  obtain i j where ij: "i < length (devices b)" "devices b ! i = (r, e)" "j < length (devices b)"
    "devices b ! j = (q, f)"
    using assms(2,3) by (auto simp: in_set_conv_nth)
  then have "i = j" using lt [of i j] lt [of j i] assms(4) by (metis fst_conv less_irrefl linorder_neqE_nat)
  with ij show ?thesis by simp
qed

lemma first_before_eq: "first_before b addr = next_back (filter (\<lambda>(r, e). range_base r \<le> addr) (devices b))"
proof -
  have "(\<lambda>(k', _ :: bus_device_entry). bus_range_cmp k' \<lparr>range_base = addr, range_size = 1\<rparr> \<noteq> Greater) =
      (\<lambda>(r, e). range_base r \<le> addr)"
    by (auto simp: fun_eq_iff bus_range_cmp_def cmp_word_def)
  then show ?thesis by (simp add: first_before_def bmap_range_to_incl_def)
qed

lemma get_device_total:
  obtains dev where "get_device b addr = Some dev"
proof (cases "first_before b addr")
  case (Some x)
  obtain r e where x: "x = (r, e)" by (cases x)
  then have "range_base r \<le> addr" using Some by (auto simp: first_before_eq dest!: next_back_Some)
  then show thesis using Some x that by (auto simp: get_device_def checked_sub_def)
qed (use that in \<open>simp add: get_device_def\<close>)

lemma first_before_contains:
  assumes "bus_ok b" "(r, e) \<in> set (devices b)" "addr \<in> span r"
  shows "first_before b addr = Some (r, e)"
proof -
  let ?m = "filter (\<lambda>(r, e). range_base r \<le> addr) (devices b)"
  have r: "(r, e) \<in> set ?m" using assms(2,3) by (simp add: span_unat word_nat)
  then have "next_back ?m \<noteq> None" by (metis empty_iff empty_set next_back_None)
  then obtain q f where q: "next_back ?m = Some (q, f)" by (metis option.exhaust prod.exhaust)
  then have qm: "(q, f) \<in> set (devices b)" "range_base q \<le> addr" by (auto dest: next_back_Some)
  have "sorted_wrt (\<lambda>(r, e) (q, f). range_base r < range_base q) ?m"
    using devices_sorted [OF assms(1)] by (rule sorted_wrt_filter)
  then have le: "range_base r \<le> range_base q" using next_back_sorted [OF _ q r] by fastforce
  have "q = r"
  proof (rule ccontr)
    assume "q \<noteq> r"
    then have dis: "span r \<inter> span q = {}" using assms(1,2) qm(1) by (fastforce simp: bus_ok_def)
    have a: "unat addr < 2 ^ 64 - 1" using assms(3) by (simp add: span_unat)
    then have "range_base q \<in> span q"
      using qm assms(1) by (intro base_in_span) (auto simp: bus_ok_def not_max_unat word_nat)
    moreover have "range_base q \<in> span r"
      using assms(3) le qm(2) by (simp add: span_unat word_nat)
    ultimately show False using dis by blast
  qed
  then show ?thesis using q same_base [OF assms(1,2) qm(1)] by (simp add: first_before_eq)
qed

lemma get_device_iff:
  assumes "bus_ok b" "addr \<noteq> - 1"
  shows "get_device b addr = Some (Some (off, a, e)) \<longleftrightarrow>
    a = addr \<and> (\<exists>r. (r, e) \<in> set (devices b) \<and> addr \<in> span r \<and> off = addr - range_base r)"
proof
  assume "a = addr \<and> (\<exists>r. (r, e) \<in> set (devices b) \<and> addr \<in> span r \<and> off = addr - range_base r)"
  then obtain r where r: "a = addr" "(r, e) \<in> set (devices b)" "addr \<in> span r" "off = addr - range_base r"
    by blast
  have le: "range_base r \<le> addr" using r(3) by (simp add: span_unat word_nat)
  then have "off < range_size r"
    using r(3,4) by (auto simp: span_unat word_nat unat_sub)
  then show "get_device b addr = Some (Some (off, a, e))"
    using first_before_contains [OF assms(1) r(2,3)] le r by (simp add: get_device_def checked_sub_def)
next
  assume g: "get_device b addr = Some (Some (off, a, e))"
  then obtain r where r: "first_before b addr = Some (r, e)" "a = addr" "off < range_size r"
    "unat addr = unat off + unat (range_base r)"
    by (auto simp: get_device_def bind_eq_Some_conv rust_arith split: option.splits if_splits prod.splits)
  then have "(r, e) \<in> set (devices b)" by (auto simp: first_before_eq dest: next_back_Some)
  moreover have "addr \<in> span r" using r(3,4) assms(2) by (auto simp: span_unat word_nat not_max_unat)
  moreover have "off = addr - range_base r"
    using r(4) by (simp add: word_unat_eq_iff unat_sub word_nat)
  ultimately show "a = addr \<and> (\<exists>r. (r, e) \<in> set (devices b) \<and> addr \<in> span r \<and> off = addr - range_base r)"
    using r(2) by blast
qed

lemma get_device_None:
  assumes "bus_ok b" "addr \<noteq> - 1"
  shows "get_device b addr = Some None \<longleftrightarrow> (\<forall>(r, e) \<in> set (devices b). addr \<notin> span r)"
proof -
  obtain dev where d: "get_device b addr = Some dev" by (rule get_device_total)
  show ?thesis
  proof (cases dev)
    case None
    then show ?thesis using d get_device_iff [OF assms] by (fastforce split: prod.splits)
  next
    case (Some x)
    obtain off a e where "x = (off, a, e)" by (cases x)
    then show ?thesis using d Some get_device_iff [OF assms, of off a e] by auto
  qed
qed

section \<open>Insertion and removal\<close>

lemma find_overlap_None:
  assumes "bus_ok b" "ln \<noteq> 0"
  shows "find (\<lambda>(r, _). bus_range_overlaps r bs ln) (devices b) = None \<longleftrightarrow>
    (\<forall>(r, e) \<in> set (devices b). span r \<inter> span \<lparr>range_base = bs, range_size = ln\<rparr> = {})"
proof -
  have "range_size r \<noteq> 0" if "(r, e) \<in> set (devices b)" for r e
    using assms(1) that by (auto simp: bus_ok_def)
  then show ?thesis using overlaps_span [OF _ assms(2)] by (fastforce simp: find_None_iff)
qed

lemma bus_insert_entry_free:
  assumes "bus_ok b" "bs \<noteq> - 1" and ln: "ln \<noteq> 0"
    and none: "find (\<lambda>(r, _). bus_range_overlaps r bs ln) (devices b) = None"
  obtains b' where "bus_insert_entry b e bs ln = (b', Ok ())" "bus_ok b'"
      "set (devices b') = insert (\<lparr>range_base = bs, range_size = ln\<rparr>, e) (set (devices b))"
      "access_id b' = access_id b" "bus_kind b' = bus_kind b"
proof -
  let ?n = "\<lparr>range_base = bs, range_size = ln\<rparr>"
  have free: "\<forall>(r, f) \<in> set (devices b). span r \<inter> span ?n = {}"
    using none find_overlap_None [OF assms(1) ln, of bs] by simp
  have bn: "bs \<in> span ?n" using base_in_span [of ?n] ln assms(2) by simp
  have "bus_range_cmp ?n r \<noteq> Equal" if "(r, f) \<in> set (devices b)" for r f
  proof
    assume "bus_range_cmp ?n r = Equal"
    then have "range_base r = bs" by (auto simp: bus_range_cmp_def cmp_word_def split: if_splits)
    then have "bs \<in> span r"
      using base_in_span [of r] that assms by (auto simp: bus_ok_def)
    with bn free that show False by blast
  qed
  then have ins: "set (fst (bmap_insert bus_range_cmp ?n e (devices b))) = insert (?n, e) (set (devices b))"
    "snd (bmap_insert bus_range_cmp ?n e (devices b)) = None"
    using bus_range_ord.bmap_insert_fresh [of "devices b" ?n e] by auto
  let ?b = "b\<lparr>devices := fst (bmap_insert bus_range_cmp ?n e (devices b))\<rparr>"
  have "bus_range_ord.bmap_ok (devices ?b)"
    using assms(1) bus_range_ord.bmap_ok_insert [of "devices b" ?n e] by (simp add: bus_ok_def)
  moreover have "range_size r \<noteq> 0" if "(r, f) \<in> set (devices ?b)" for r f
    using that assms(1) ln ins(1) by (auto simp: bus_ok_def)
  moreover have "span r \<inter> span q = {}"
    if "(r, f) \<in> set (devices ?b)" "(q, g) \<in> set (devices ?b)" "r \<noteq> q" for r f q g
  proof -
    have "(r, f) = (?n, e) \<or> (r, f) \<in> set (devices b)" "(q, g) = (?n, e) \<or> (q, g) \<in> set (devices b)"
      using that(1,2) ins(1) by auto
    then show ?thesis using that(3) free assms(1) by (fastforce simp: bus_ok_def)
  qed
  ultimately have "bus_ok ?b" unfolding bus_ok_def by blast
  moreover have "bus_insert_entry b e bs ln = (?b, Ok ())"
    using ln none ins(2) by (auto simp: bus_insert_entry_def split: prod.splits)
  ultimately show thesis using ins(1) by (intro that [of ?b]) simp_all
qed

lemma bus_insert_entry_cases:
  assumes "bus_ok b" "bs \<noteq> - 1"
  obtains (bad) err where "bus_insert_entry b e bs ln = (b, Err err)"
      "ln = 0 \<or> (\<exists>(r, f) \<in> set (devices b). span r \<inter> span \<lparr>range_base = bs, range_size = ln\<rparr> \<noteq> {})"
    | (ok) b' where "bus_insert_entry b e bs ln = (b', Ok ())" "bus_ok b'" "ln \<noteq> 0"
      "\<forall>(r, f) \<in> set (devices b). span r \<inter> span \<lparr>range_base = bs, range_size = ln\<rparr> = {}"
      "set (devices b') = insert (\<lparr>range_base = bs, range_size = ln\<rparr>, e) (set (devices b))"
      "access_id b' = access_id b" "bus_kind b' = bus_kind b"
proof (cases "ln = 0")
  case True
  then show thesis by (intro bad) (simp_all add: bus_insert_entry_def)
next
  case ln: False
  show thesis
  proof (cases "find (\<lambda>(r, _). bus_range_overlaps r bs ln) (devices b)")
    case (Some x)
    obtain r g where x: "x = (r, g)" by (cases x)
    have "bus_insert_entry b e bs ln = (b, Err (Overlap bs ln (range_base r) (range_size r)))"
      using Some ln x by (simp add: bus_insert_entry_def)
    moreover have "\<exists>(r, f) \<in> set (devices b). span r \<inter> span \<lparr>range_base = bs, range_size = ln\<rparr> \<noteq> {}"
      using Some find_overlap_None [OF assms(1) ln, of bs] by force
    ultimately show thesis by (intro bad) simp_all
  next
    case None
    have free: "\<forall>(r, f) \<in> set (devices b). span r \<inter> span \<lparr>range_base = bs, range_size = ln\<rparr> = {}"
      using None find_overlap_None [OF assms(1) ln, of bs] by simp
    show thesis
      by (rule bus_insert_entry_free [OF assms ln None, of e]) (rule ok [OF _ _ ln free])
  qed
qed

lemma get_device_insert:
  assumes "bus_ok b" "bus_ok b'" "set (devices b') = insert (r, e) (set (devices b))"
    "\<forall>(q, f) \<in> set (devices b). span q \<inter> span r = {}" "addr \<noteq> - 1"
  shows "get_device b' addr =
    (if addr \<in> span r then Some (Some (addr - range_base r, addr, e)) else get_device b addr)"
proof (cases "addr \<in> span r")
  case True
  then show ?thesis using get_device_iff [OF assms(2,5)] assms(3) by auto
next
  case False
  obtain d where d: "get_device b addr = Some d" by (rule get_device_total)
  show ?thesis
  proof (cases d)
    case None
    then show ?thesis
      using False d get_device_None [OF assms(1,5)] get_device_None [OF assms(2,5)] assms(3) by auto
  next
    case (Some x)
    obtain off a f where "x = (off, a, f)" by (cases x)
    then show ?thesis
      using False d Some get_device_iff [OF assms(1,5), of off a f] get_device_iff [OF assms(2,5), of off a f] assms(3)
      by auto
  qed
qed

lemma bus_ok_subset:
  assumes "bus_ok b" "bus_range_ord.bmap_ok ds" "set ds \<subseteq> set (devices b)"
  shows "bus_ok (b\<lparr>devices := ds\<rparr>)"
  using assms unfolding bus_ok_def by simp blast

lemma bus_remove_cases:
  assumes "bus_ok b"
  obtains (ok) b' e where "(\<lparr>range_base = bs, range_size = ln\<rparr>, e) \<in> set (devices b)"
      "bus_remove b bs ln = (b', Ok ())" "bus_ok b'"
      "set (devices b') = set (devices b) - {(\<lparr>range_base = bs, range_size = ln\<rparr>, e)}"
      "access_id b' = access_id b" "bus_kind b' = bus_kind b"
    | (bad) err where "\<nexists>e. (\<lparr>range_base = bs, range_size = ln\<rparr>, e) \<in> set (devices b)"
      "bus_remove b bs ln = (b, Err err)"
proof (cases "\<exists>e. (\<lparr>range_base = bs, range_size = ln\<rparr>, e) \<in> set (devices b)")
  case True
  let ?r = "\<lparr>range_base = bs, range_size = ln\<rparr>"
  from True obtain e where e: "(?r, e) \<in> set (devices b)" by blast
  then have ln: "ln \<noteq> 0" using assms by (auto simp: bus_ok_def)
  let ?f = "filter (\<lambda>(k, v). bus_range_cmp ?r k \<noteq> Equal) (devices b)"
  have ex: "list_ex (\<lambda>(r, _). range_base r = bs \<and> range_size r = ln) (devices b)"
    using e by (auto simp: list_ex_iff intro!: bexI [of _ "(?r, e)"])
  have cmp: "bus_range_cmp ?r k = Equal \<longleftrightarrow> range_base k = bs" for k
    by (auto simp: bus_range_cmp_def cmp_word_def)
  have eq: "bus_range_cmp ?r k = Equal \<longleftrightarrow> (k, v) = (?r, e)" if "(k, v) \<in> set (devices b)" for k v
  proof
    show "bus_range_cmp ?r k = Equal \<Longrightarrow> (k, v) = (?r, e)"
      using same_base [OF assms that e] by (simp add: cmp)
  qed (simp add: cmp)
  have rm: "bmap_remove bus_range_cmp ?r (devices b) = (?f, bmap_get bus_range_cmp ?r (devices b))"
    using bus_range_ord.bmap_remove_sorted [of "devices b" ?r] assms by (simp add: bus_ok_def)
  have "find (\<lambda>(k, _). bus_range_cmp ?r k = Equal) (devices b) \<noteq> None"
    using e by (auto simp: find_None_iff bus_range_ord.cmp_refl)
  then have "bmap_get bus_range_cmp ?r (devices b) \<noteq> None" by (auto simp: bmap_get_def)
  then have run: "bus_remove b bs ln = (b\<lparr>devices := ?f\<rparr>, Ok ())"
    using ln ex rm by (simp add: bus_remove_def)
  have set: "set ?f = set (devices b) - {(?r, e)}"
    using eq by (simp only: set_filter case_prod_beta) fastforce
  have "bus_ok (b\<lparr>devices := ?f\<rparr>)"
    by (rule bus_ok_subset [OF assms])
       (use assms bus_range_ord.bmap_ok_filter [of "devices b"] in \<open>auto simp: bus_ok_def\<close>)
  with run set e show thesis by (intro ok [of e "b\<lparr>devices := ?f\<rparr>"]) simp_all
next
  case False
  have "\<not> list_ex (\<lambda>(r, _). range_base r = bs \<and> range_size r = ln) (devices b)"
  proof
    assume "list_ex (\<lambda>(r, _). range_base r = bs \<and> range_size r = ln) (devices b)"
    then obtain r e where "(r, e) \<in> set (devices b)" "range_base r = bs" "range_size r = ln"
      by (auto simp: list_ex_iff)
    then show False using False by (cases r) auto
  qed
  then have "\<exists>err. bus_remove b bs ln = (b, Err err)" by (simp add: bus_remove_def)
  then show thesis using False bad by blast
qed

section \<open>Visiting every device once\<close>

lemma dedup_devices_ok:
  "distinct (map entry_ptr (dedup_devices seen es)) \<and>
   entry_ptr ` set (dedup_devices seen es) = entry_ptr ` set es - set seen \<and>
   set (dedup_devices seen es) \<subseteq> set es"
  by (induction seen es rule: dedup_devices.induct) auto

definition bus_ptrs :: "bus \<Rightarrow> nat set" where
  "bus_ptrs b = entry_ptr ` snd ` set (devices b)"

lemma unique_devices_ok:
  "distinct (map entry_ptr (unique_devices b))" "entry_ptr ` set (unique_devices b) = bus_ptrs b"
  using dedup_devices_ok [of "[]" "map snd (devices b)"]
  by (simp_all add: unique_devices_def bus_ptrs_def image_image)

text \<open>The operation a walk performs on one device, as the entry selects it.\<close>

definition sleep_of where
  "sleep_of ops e = (case e of OuterSync p \<Rightarrow> dev_sleep ops | InnerSync p \<Rightarrow> sleep_sync ops)"

definition snapshot_of where
  "snapshot_of ops e = (case e of OuterSync p \<Rightarrow> dev_snapshot ops | InnerSync p \<Rightarrow> snapshot_sync ops)"

definition restore_of where
  "restore_of ops e = (case e of OuterSync p \<Rightarrow> dev_restore ops | InnerSync p \<Rightarrow> restore_sync ops)"

lemma walk_ops:
  "(case e of OuterSync p \<Rightarrow> dev_sleep ops (h p) | InnerSync p \<Rightarrow> sleep_sync ops (h p)) = sleep_of ops e (h (entry_ptr e))"
  "(case e of OuterSync p \<Rightarrow> dev_snapshot ops (h p) | InnerSync p \<Rightarrow> snapshot_sync ops (h p))
     = snapshot_of ops e (h (entry_ptr e))"
  "(case e of OuterSync p \<Rightarrow> dev_restore ops (h p) v | InnerSync p \<Rightarrow> restore_sync ops (h p) v)
     = restore_of ops e (h (entry_ptr e)) v"
  by (cases e; simp add: sleep_of_def snapshot_of_def restore_of_def)+

lemma sleep_walk_Ok:
  assumes "sleep_walk ops h es = (h', Ok ())" "distinct (map entry_ptr es)"
  shows "(\<forall>e \<in> set es. sleep_of ops e (h (entry_ptr e)) = (h' (entry_ptr e), Ok ())) \<and>
    (\<forall>p. p \<notin> entry_ptr ` set es \<longrightarrow> h' p = h p)"
  using assms
proof (induction es arbitrary: h)
  case (Cons e es)
  obtain d where d: "sleep_of ops e (h (entry_ptr e)) = (d, Ok ())"
    "sleep_walk ops (h(entry_ptr e := d)) es = (h', Ok ())"
    using Cons.prems(1) by (auto simp: walk_ops split: prod.splits result.splits)
  from Cons.IH [OF d(2)] Cons.prems(2) have ih:
    "\<forall>f \<in> set es. sleep_of ops f ((h(entry_ptr e := d)) (entry_ptr f)) = (h' (entry_ptr f), Ok ())"
    "\<forall>p. p \<notin> entry_ptr ` set es \<longrightarrow> h' p = (h(entry_ptr e := d)) p" by auto
  then have "h' (entry_ptr e) = d" using Cons.prems(2) by auto
  moreover have "\<forall>f \<in> set es. entry_ptr f \<noteq> entry_ptr e"
    using Cons.prems(2) by (metis distinct.simps(2) image_eqI list.set_map list.simps(9))
  ultimately show ?case using ih d(1) by auto
qed simp

section \<open>Snapshot keys\<close>

lemma dec_digit: "n < 10 \<Longrightarrow> ''0123456789'' ! n \<noteq> CHR ''-'' \<and> of_char (''0123456789'' ! n) = (48 + n :: nat)"
proof -
  have "list_all (\<lambda>n. ''0123456789'' ! n \<noteq> CHR ''-'' \<and> of_char (''0123456789'' ! n) = (48 + n :: nat)) [0..<10]"
    by code_simp
  then show "n < 10 \<Longrightarrow> ?thesis" by (simp add: list_all_iff)
qed

lemma dec_string_no_dash: "CHR ''-'' \<notin> set (dec_string n)"
proof (induction n rule: dec_string.induct)
  case (1 n)
  then show ?case using dec_digit [of n] dec_digit [of "n mod 10"] by (subst dec_string.simps) auto
qed

definition dec_value :: "string \<Rightarrow> nat" where
  "dec_value s = foldl (\<lambda>a c. 10 * a + (of_char c - 48)) 0 s"

lemma dec_value_string: "dec_value (dec_string n) = n"
proof (induction n rule: dec_string.induct)
  case (1 n)
  then show ?case
    using dec_digit [of n] dec_digit [of "n mod 10"]
    by (subst dec_string.simps) (auto simp: dec_value_def)
qed

lemma append_dash_inj:
  assumes "a @ CHR ''-'' # x = b @ CHR ''-'' # y" "CHR ''-'' \<notin> set x" "CHR ''-'' \<notin> set y"
  shows "a = b \<and> x = y"
proof -
  have e: "rev x @ CHR ''-'' # rev a = rev y @ CHR ''-'' # rev b"
    using arg_cong [OF assms(1), of rev] by simp
  have "takeWhile (\<lambda>c. c \<noteq> CHR ''-'') (rev x @ CHR ''-'' # rev a) = rev x"
    "takeWhile (\<lambda>c. c \<noteq> CHR ''-'') (rev y @ CHR ''-'' # rev b) = rev y"
    using assms(2,3) by (auto simp: takeWhile_append)
  then have "rev x = rev y" using e by simp
  then show ?thesis using e by simp
qed

lemma key_inj: "a @ ''-'' @ dec_string i = b @ ''-'' @ dec_string j \<longleftrightarrow> a = b \<and> i = j"
  using append_dash_inj [of a "dec_string i" b "dec_string j"] dec_string_no_dash dec_value_string by auto metis

definition used_ids :: "(string \<times> nat) list \<Rightarrow> string \<Rightarrow> nat" where
  "used_ids ids label = (case map_of ids label of Some n \<Rightarrow> n | None \<Rightarrow> 0)"

lemma snapshot_keys_fresh:
  "distinct (map fst (snapshot_keys label ids es)) \<and> map snd (snapshot_keys label ids es) = es \<and>
   (\<forall>k \<in> fst ` set (snapshot_keys label ids es). \<exists>l i. k = l @ ''-'' @ dec_string i \<and> used_ids ids l \<le> i)"
proof (induction label ids es rule: snapshot_keys.induct)
  case (2 label ids e es)
  define l where "l = map (\<lambda>c. if is_whitespace c then CHR ''-'' else c) (label e)"
  let ?ids = "(l, used_ids ids l + 1) # ids" and ?k = "l @ ''-'' @ dec_string (used_ids ids l)"
  have c: "choose_key ids (label e) = (?ids, ?k)"
    by (simp add: choose_key_def l_def [symmetric] used_ids_def Let_def)
  note ih = 2 [OF c [symmetric]]
  have up: "used_ids ids m \<le> used_ids ?ids m" for m by (simp add: used_ids_def)
  have "?k \<notin> fst ` set (snapshot_keys label ?ids es)"
  proof
    assume "?k \<in> fst ` set (snapshot_keys label ?ids es)"
    then obtain m i where "?k = m @ ''-'' @ dec_string i" "used_ids ?ids m \<le> i" using ih by blast
    then have "used_ids ?ids l \<le> used_ids ids l" by (simp only: key_inj) blast
    then show False by (simp add: used_ids_def)
  qed
  moreover have "\<exists>m i. k = m @ ''-'' @ dec_string i \<and> used_ids ids m \<le> i"
    if "k \<in> fst ` set (snapshot_keys label ?ids es)" for k
    using ih that up le_trans by meson
  ultimately show ?case using ih c by auto
qed simp

lemma unique_keys:
  "distinct (map fst (unique_devices_with_snapshot_key ops b h))"
  "map snd (unique_devices_with_snapshot_key ops b h) = unique_devices b"
  using snapshot_keys_fresh [of "\<lambda>e. debug_label ops (h (entry_ptr e))" "[]" "unique_devices b"]
  by (simp_all add: unique_devices_with_snapshot_key_def)

lemma snapshot_walk_Ok:
  assumes "distinct (map fst ks)" "distinct (map (entry_ptr \<circ> snd) ks)"
    "\<forall>k \<in> fst ` set ks. map_of w k = None"
    "\<And>e. e \<in> snd ` set ks \<Longrightarrow> snapshot_of ops e (h (entry_ptr e)) = (h (entry_ptr e), Ok (val e))"
  shows "\<exists>w'. snapshot_walk ops h w ks = (h, w', Ok ()) \<and>
    (\<forall>(k, e) \<in> set ks. map_of w' k = Some (val e)) \<and> (\<forall>k. k \<notin> fst ` set ks \<longrightarrow> map_of w' k = map_of w k)"
  using assms
proof (induction ks arbitrary: w)
  case (Cons a ks)
  obtain k e where a: "a = (k, e)" by (cases a)
  have s: "snapshot_of ops e (h (entry_ptr e)) = (h (entry_ptr e), Ok (val e))" using Cons.prems(4) a by simp
  have w: "write_fragment w k (val e) = Some ((k, val e) # w)"
    using Cons.prems(3) a by (simp add: write_fragment_def)
  have "\<forall>k' \<in> fst ` set ks. map_of ((k, val e) # w) k' = None"
    using Cons.prems(1,3) a by auto
  then obtain w' where w': "snapshot_walk ops h ((k, val e) # w) ks = (h, w', Ok ())"
    "\<forall>(k, e) \<in> set ks. map_of w' k = Some (val e)"
    "\<forall>k'. k' \<notin> fst ` set ks \<longrightarrow> map_of w' k' = map_of ((k, val e) # w) k'"
    using Cons.IH [of "(k, val e) # w"] Cons.prems by auto
  have "snapshot_walk ops h w (a # ks) = (h, w', Ok ())"
    using a s w w'(1) by (simp add: walk_ops)
  then show ?case using w'(2,3) a Cons.prems(1) by auto
qed simp

lemma restore_walk_Ok:
  assumes "distinct (map (entry_ptr \<circ> snd) ks)"
    "\<And>k e. (k, e) \<in> set ks \<Longrightarrow> map_of w k = Some (val e)"
    "\<And>e. e \<in> snd ` set ks \<Longrightarrow> restore_of ops e (h (entry_ptr e)) (val e) = (g (entry_ptr e), Ok ())"
  shows "\<exists>h'. restore_walk ops h w ks = (h', Ok ()) \<and>
    (\<forall>p. h' p = (if p \<in> entry_ptr ` snd ` set ks then g p else h p))"
  using assms
proof (induction ks arbitrary: h)
  case (Cons a ks)
  obtain k e where a: "a = (k, e)" by (cases a)
  have r: "read_fragment w k = Some (val e)" using Cons.prems(2) a by (simp add: read_fragment_def)
  have s: "restore_of ops e (h (entry_ptr e)) (val e) = (g (entry_ptr e), Ok ())" using Cons.prems(3) a by simp
  have ne: "entry_ptr f \<noteq> entry_ptr e" if "f \<in> snd ` set ks" for f
    using Cons.prems(1) a that by (auto simp: image_iff)
  obtain h' where h': "restore_walk ops (h(entry_ptr e := g (entry_ptr e))) w ks = (h', Ok ())"
    "\<forall>p. h' p = (if p \<in> entry_ptr ` snd ` set ks then g p else (h(entry_ptr e := g (entry_ptr e))) p)"
  proof -
    have "\<exists>h'. restore_walk ops (h(entry_ptr e := g (entry_ptr e))) w ks = (h', Ok ()) \<and>
      (\<forall>p. h' p = (if p \<in> entry_ptr ` snd ` set ks then g p else (h(entry_ptr e := g (entry_ptr e))) p))"
      by (rule Cons.IH) (use Cons.prems a ne in auto)
    then show thesis using that by blast
  qed
  have "restore_walk ops h w (a # ks) = (h', Ok ())" using a r s h'(1) by (simp add: walk_ops)
  then show ?case using h'(2) a by auto
qed simp

section \<open>The device contract\<close>

text \<open>What the bus relies on in a device: no access from the guest makes it panic, whatever the
  offset and the length of the data, its own invariant is kept, and a read fills exactly the buffer
  it is given. Each device theory shows this for its model; here it is used once for the bus.\<close>

locale io_device =
  fixes device_read :: "'d \<Rightarrow> bus_access_info \<Rightarrow> u8 list \<Rightarrow> ('d \<times> u8 list) option"
    and device_write :: "'d \<Rightarrow> bus_access_info \<Rightarrow> u8 list \<Rightarrow> 'd option"
    and inv :: "'d \<Rightarrow> bool"
  assumes read_total: "inv d \<Longrightarrow>
      \<exists>d' ys. device_read d io xs = Some (d', ys) \<and> inv d' \<and> length ys = length xs"
    and write_total: "inv d \<Longrightarrow> \<exists>d'. device_write d io xs = Some d' \<and> inv d'"

text \<open>The contract of a whole bus, whose devices are of one type with both flavours of access.\<close>

locale bus_device =
  fixes ops :: "('d, 'v, 'e) device_ops"
    and dev_inv :: "'d \<Rightarrow> bool"
  assumes dev_read_total: "dev_inv d \<Longrightarrow>
      \<exists>d' ys. dev_read ops d io xs = Some (d', ys) \<and> dev_inv d' \<and> length ys = length xs"
    and dev_write_total: "dev_inv d \<Longrightarrow> \<exists>d'. dev_write ops d io xs = Some d' \<and> dev_inv d'"
    and read_sync_total: "dev_inv d \<Longrightarrow>
      \<exists>d' ys. read_sync ops d io xs = Some (d', ys) \<and> dev_inv d' \<and> length ys = length xs"
    and write_sync_total: "dev_inv d \<Longrightarrow> \<exists>d'. write_sync ops d io xs = Some d' \<and> dev_inv d'"
begin

lemma bus_read_total:
  assumes "\<forall>p. dev_inv (h p)"
  obtains h' ys ok where "bus_read ops b h addr xs = Some (h', ys, ok)" "\<forall>p. dev_inv (h' p)"
    "length ys = length xs"
proof -
  obtain dev where dev: "get_device b addr = Some dev" by (rule get_device_total)
  show thesis
  proof (cases dev)
    case None
    then show thesis using dev assms that by (auto simp: bus_read_def)
  next
    case (Some x)
    obtain off a e where x: "x = (off, a, e)" by (cases x)
    let ?io = "\<lparr>access_offset = off, access_address = a, requester = access_id b\<rparr>"
    let ?zs = "replicate (length xs) (0 :: u8)"
    obtain d' ys where d: "(case e of OuterSync p \<Rightarrow> dev_read ops (h p) ?io ?zs
        | InnerSync p \<Rightarrow> read_sync ops (h p) ?io ?zs) = Some (d', ys)" "dev_inv d'" "length ys = length xs"
      using dev_read_total [of "h (entry_ptr e)" ?io ?zs] read_sync_total [of "h (entry_ptr e)" ?io ?zs] assms
      by (cases e) auto
    then have "bus_read ops b h addr xs = Some (h(entry_ptr e := d'), ys, True)"
      using dev Some x by (simp add: bus_read_def Let_def)
    then show thesis using assms d(2,3) by (intro that [of "h(entry_ptr e := d')" ys True]) auto
  qed
qed

lemma bus_write_total:
  assumes "\<forall>p. dev_inv (h p)"
  obtains h' ok where "bus_write ops b h addr xs = Some (h', ok)" "\<forall>p. dev_inv (h' p)"
proof -
  obtain dev where dev: "get_device b addr = Some dev" by (rule get_device_total)
  show thesis
  proof (cases dev)
    case None
    then show thesis using dev assms that by (auto simp: bus_write_def)
  next
    case (Some x)
    obtain off a e where x: "x = (off, a, e)" by (cases x)
    let ?io = "\<lparr>access_offset = off, access_address = a, requester = access_id b\<rparr>"
    obtain d' where d: "(case e of OuterSync p \<Rightarrow> dev_write ops (h p) ?io xs
        | InnerSync p \<Rightarrow> write_sync ops (h p) ?io xs) = Some d'" "dev_inv d'"
      using dev_write_total [of "h (entry_ptr e)" ?io xs] write_sync_total [of "h (entry_ptr e)" ?io xs] assms
      by (cases e) auto
    then have "bus_write ops b h addr xs = Some (h(entry_ptr e := d'), True)"
      using dev Some x by (simp add: bus_write_def Let_def)
    then show thesis using assms d(2) by (intro that [of "h(entry_ptr e := d')" True]) auto
  qed
qed

end

text \<open>A sequence of guest accesses to a bus: the data read, in order.\<close>

datatype guest_access = GuestRead u64 nat | GuestWrite u64 "u8 list"

fun guest_run ::
  "('d, 'v, 'e) device_ops \<Rightarrow> bus \<Rightarrow> (nat \<Rightarrow> 'd) \<Rightarrow> guest_access list \<Rightarrow> ((nat \<Rightarrow> 'd) \<times> u8 list list) option" where
  "guest_run ops b h [] = Some (h, [])"
| "guest_run ops b h (GuestRead addr n # as) = do {
     (h, data, _) \<leftarrow> bus_read ops b h addr (replicate n 0);
     (h, rest) \<leftarrow> guest_run ops b h as;
     Some (h, data # rest)
   }"
| "guest_run ops b h (GuestWrite addr data # as) = do {
     (h, _) \<leftarrow> bus_write ops b h addr data;
     guest_run ops b h as
   }"

context bus_device
begin

lemma guest_run_total:
  assumes "\<forall>p. dev_inv (h p)"
  obtains h' out where "guest_run ops b h as = Some (h', out)" "\<forall>p. dev_inv (h' p)"
proof -
  have "\<exists>h' out. guest_run ops b h as = Some (h', out) \<and> (\<forall>p. dev_inv (h' p))"
    using assms
  proof (induction as arbitrary: h)
    case (Cons a as)
    show ?case
    proof (cases a)
      case (GuestRead addr n)
      obtain h1 ys ok where "bus_read ops b h addr (replicate n 0) = Some (h1, ys, ok)" "\<forall>p. dev_inv (h1 p)"
        by (rule bus_read_total [OF Cons.prems])
      then show ?thesis using Cons.IH [of h1] GuestRead by auto
    next
      case (GuestWrite addr xs)
      obtain h1 ok where "bus_write ops b h addr xs = Some (h1, ok)" "\<forall>p. dev_inv (h1 p)"
        by (rule bus_write_total [OF Cons.prems])
      then show ?thesis using Cons.IH [of h1] GuestWrite by auto
    qed
  qed simp
  then show thesis using that by blast
qed

end

section \<open>Properties\<close>

definition demo_bus :: bus where
  "demo_bus = \<lparr>devices = [(\<lparr>range_base = 0x10, range_size = 0x10\<rparr>, OuterSync 1),
     (\<lparr>range_base = 0x30, range_size = 8\<rparr>, InnerSync 2), (\<lparr>range_base = 0x40, range_size = 4\<rparr>, OuterSync 1)],
     access_id = 0, bus_kind = Io\<rparr>"

lemma demo_bus_ok: "bus_ok demo_bus"
  by (auto simp: bus_ok_def demo_bus_def bus_range_cmp_def cmp_word_def span_unat)






text \<open>when \<open>sleep_devices\<close> succeeds, every device on the bus has been put to sleep exactly once, however
  many entries it has, and no other device has been touched.\<close>

theorem sleep_devices_once:
  assumes "sleep_devices ops b h = (h', Ok ())"
  shows "(\<forall>p \<in> bus_ptrs b. \<exists>e \<in> snd ` set (devices b). entry_ptr e = p \<and> sleep_of ops e (h p) = (h' p, Ok ())) \<and>
    (\<forall>p. p \<notin> bus_ptrs b \<longrightarrow> h' p = h p)"
proof -
  have "set (unique_devices b) \<subseteq> snd ` set (devices b)"
    using dedup_devices_ok [of "[]" "map snd (devices b)"] by (simp add: unique_devices_def)
  moreover have "\<forall>p \<in> bus_ptrs b. \<exists>e \<in> set (unique_devices b). entry_ptr e = p"
    using unique_devices_ok(2) [of b] by (metis imageE)
  ultimately show ?thesis
    using sleep_walk_Ok [OF assms [unfolded sleep_devices_def] unique_devices_ok(1)] unique_devices_ok(2) [of b]
    by fastforce
qed

definition demo_ops :: "(nat, nat, string) device_ops" where
  "demo_ops = \<lparr>debug_label = (\<lambda>d. ''demo device''),
     dev_read = (\<lambda>d io xs. Some (d, xs)), dev_write = (\<lambda>d io xs. Some (d + length xs)),
     dev_sleep = (\<lambda>d. (d + 100, Ok ())), dev_wake = (\<lambda>d. (d, Ok ())), dev_snapshot = (\<lambda>d. (d, Ok d)),
     dev_restore = (\<lambda>d v. (v, Ok ())),
     read_sync = (\<lambda>d io xs. Some (d, xs)), write_sync = (\<lambda>d io xs. Some (d + length xs)),
     sleep_sync = (\<lambda>d. (d + 100, Ok ())), wake_sync = (\<lambda>d. (d, Ok ())), snapshot_sync = (\<lambda>d. (d, Ok d)),
     restore_sync = (\<lambda>d v. (v, Ok ()))\<rparr>"

theorem sleep_devices_once_witness:
  "\<exists>h'. sleep_devices demo_ops demo_bus (\<lambda>p. p) = (h', Ok ()) \<and> h' 1 = 101 \<and> h' 3 = 3"
proof -
  have "snd (sleep_devices demo_ops demo_bus (\<lambda>p. p)) = Ok ()"
    by (simp add: sleep_devices_def unique_devices_def demo_bus_def demo_ops_def)
  then obtain h' where h: "sleep_devices demo_ops demo_bus (\<lambda>p. p) = (h', Ok ())" by (metis prod.collapse)
  have "bus_ptrs demo_bus = {1, 2}" by (auto simp: bus_ptrs_def demo_bus_def)
  then have "h' 3 = 3" "\<exists>e. sleep_of demo_ops e 1 = (h' 1, Ok ())"
    using sleep_devices_once [OF h] by auto
  moreover have "sleep_of demo_ops e 1 = (101, Ok ())" for e
    by (cases e) (simp_all add: sleep_of_def demo_ops_def)
  ultimately show ?thesis using h by auto
qed

lemma snapshot_keys_cong:
  "\<forall>e \<in> set es. l1 e = l2 e \<Longrightarrow> snapshot_keys l1 ids es = snapshot_keys l2 ids es"
  by (induction l1 ids es rule: snapshot_keys.induct) (auto split: prod.splits)

text \<open>C17: the snapshot keys of the devices on a bus are distinct, whatever their labels, so a snapshot into an
  empty directory never fails for a name that is taken, and every device gets its own data back:
  restoring the snapshot puts all devices of the bus back into the states they were saved in.\<close>

theorem snapshot_restore_roundtrip:
  assumes "\<forall>e \<in> set (unique_devices b). snapshot_of ops e (h (entry_ptr e)) = (h (entry_ptr e), Ok (val e))"
    and "\<forall>e \<in> set (unique_devices b). restore_of ops e (g (entry_ptr e)) (val e) = (h (entry_ptr e), Ok ())"
    and "\<forall>p \<in> bus_ptrs b. debug_label ops (g p) = debug_label ops (h p)"
  shows "distinct (map fst (unique_devices_with_snapshot_key ops b h)) \<and>
    (\<exists>w g'. snapshot_devices ops b h [] = (h, w, Ok ()) \<and> restore_devices ops b g w = (g', Ok ()) \<and>
       (\<forall>p. g' p = (if p \<in> bus_ptrs b then h p else g p)))"
proof -
  let ?ks = "unique_devices_with_snapshot_key ops b h"
  have ptrs: "distinct (map (entry_ptr \<circ> snd) ?ks)" "snd ` set ?ks = set (unique_devices b)"
    using unique_devices_ok(1) [of b] unique_keys(2) [of ops b h] by (simp_all flip: map_map set_map)
  obtain w where w: "snapshot_walk ops h [] ?ks = (h, w, Ok ())"
    "\<forall>(k, e) \<in> set ?ks. map_of w k = Some (val e)"
    using snapshot_walk_Ok [OF unique_keys(1) ptrs(1), of "[]" ops h val] assms(1) ptrs(2) by auto
  have "\<forall>e \<in> set (unique_devices b). debug_label ops (g (entry_ptr e)) = debug_label ops (h (entry_ptr e))"
    using assms(3) unique_devices_ok(2) [of b] by blast
  then have same: "unique_devices_with_snapshot_key ops b g = ?ks"
    unfolding unique_devices_with_snapshot_key_def by (rule snapshot_keys_cong)
  have "\<exists>g'. restore_walk ops g w ?ks = (g', Ok ()) \<and>
      (\<forall>p. g' p = (if p \<in> entry_ptr ` snd ` set ?ks then h p else g p))"
    by (rule restore_walk_Ok [OF ptrs(1)]) (use w(2) assms(2) ptrs(2) in auto)
  then show ?thesis
    using unique_keys(1) w(1) ptrs(2) unique_devices_ok(2) [of b]
    by (auto simp: snapshot_devices_def restore_devices_def same)
qed

theorem snapshot_restore_roundtrip_witness:
  "\<exists>w g'. snapshot_devices demo_ops demo_bus (\<lambda>p. p) [] = ((\<lambda>p. p), w, Ok ()) \<and>
     restore_devices demo_ops demo_bus (\<lambda>p. 0) w = (g', Ok ()) \<and> g' 2 = 2 \<and> g' 3 = 0"
proof -
  have o: "snapshot_of demo_ops e d = (d, Ok d)" "restore_of demo_ops e d v = (v, Ok ())" for e d v
    by (cases e; simp add: snapshot_of_def restore_of_def demo_ops_def)+
  have "bus_ptrs demo_bus = {1, 2}" by (auto simp: bus_ptrs_def demo_bus_def)
  then show ?thesis
    using snapshot_restore_roundtrip [of demo_bus demo_ops "\<lambda>p. p" entry_ptr "\<lambda>p. 0"] o
    by (auto simp: demo_ops_def)
qed

end
