(* ===== verification/Bit_Field.thy ===== *)
theory Bit_Field
  imports Prelude
begin

text \<open>
The accessors that the derive macro of \<open>bit_field/bit_field_derive/bit_field_derive.rs\<close> generates for packed
structures, with the laws of reading a field after writing one.
\<close>

section \<open>Bits of a packed structure\<close>

text \<open>A structure of \<open>n\<close> bytes is a word of \<open>8 * n\<close> bits: bit \<open>offset\<close> of the structure is bit
  \<open>offset mod 8\<close> of byte \<open>offset div 8\<close>.\<close>

definition bf_get_bit :: "'a::len word \<Rightarrow> nat \<Rightarrow> bool" where
  "bf_get_bit w off = bit w off"

definition bf_set_bit :: "'a::len word \<Rightarrow> nat \<Rightarrow> bool \<Rightarrow> 'a word" where
  "bf_set_bit w off val = (if val then w OR push_bit off 1 else w AND NOT (push_bit off 1))"

text \<open>The loops over the bits of a field, after \<open>n\<close> iterations.\<close>

primrec bf_get :: "'a::len word \<Rightarrow> nat \<Rightarrow> nat \<Rightarrow> u64" where
  "bf_get w off 0 = 0"
| "bf_get w off (Suc n) = (if bf_get_bit w (n + off) then bf_get w off n OR push_bit n 1 else bf_get w off n)"

primrec bf_set :: "'a::len word \<Rightarrow> nat \<Rightarrow> nat \<Rightarrow> u64 \<Rightarrow> 'a word" where
  "bf_set w off 0 val = w"
| "bf_set w off (Suc n) val = bf_set_bit (bf_set w off n val) (n + off) (val AND push_bit n 1 = push_bit n 1)"

lemma and_bit_eq:
  assumes "n < 64"
  shows "(v :: u64) AND push_bit n 1 = push_bit n 1 \<longleftrightarrow> bit v n"
proof -
  have "v AND push_bit n 1 = push_bit n 1 \<longleftrightarrow> (\<forall>i < 64. i = n \<longrightarrow> bit v i)"
    by (auto simp: bit_eq_iff bit_simps)
  then show ?thesis using assms by auto
qed

lemma bit_bf_set_bit: "bit (bf_set_bit w off val) i \<longleftrightarrow> (if i = off \<and> off < LENGTH('a) then val else bit (w :: 'a::len word) i)"
  by (auto simp: bf_set_bit_def bit_simps dest: bit_imp_le_length)

lemma bit_bf_get: "bit (bf_get w off n) i \<longleftrightarrow> i < n \<and> i < 64 \<and> bit w (i + off)"
  by (induction n) (auto simp: bf_get_bit_def bit_simps less_Suc_eq)

lemma bit_bf_set:
  assumes "n \<le> 64"
  shows "bit (bf_set w off n v) i \<longleftrightarrow> (if off \<le> i \<and> i < off + n then i < LENGTH('a) \<and> bit v (i - off) else bit (w :: 'a::len word) i)"
  using assms
proof (induction n)
  case (Suc n)
  have "bit (bf_set w off (Suc n) v) i \<longleftrightarrow> (if i = n + off \<and> n + off < LENGTH('a) then bit v n else bit (bf_set w off n v) i)"
    using Suc.prems by (simp only: bf_set.simps bit_bf_set_bit and_bit_eq [of n v] Suc_le_lessD)
  with Suc show ?case by (auto simp: less_Suc_eq dest: bit_imp_le_length)
qed auto

text \<open>The loops compute a shift and a mask.\<close>

lemma bf_get_eq [code]: "bf_get w off n = take_bit n (ucast (drop_bit off w))"
  by (rule bit_word_eqI) (auto simp: bit_bf_get bit_simps add.commute)

lemma bf_set_eq:
  assumes "n \<le> 64"
  shows "bf_set (w :: 'a::len word) off n v = w AND NOT (push_bit off (mask n)) OR push_bit off (ucast (take_bit n v))"
  using assms by (intro bit_word_eqI) (auto simp: bit_bf_set bit_simps dest: bit_imp_le_length)

lemma bf_set_code [code]:
  "bf_set (w :: 'a::len word) off n v =
     (if n \<le> 64 then w AND NOT (push_bit off (mask n)) OR push_bit off (ucast (take_bit n v)) else bf_set w off n v)"
  by (simp add: bf_set_eq)

lemma bf_get_set_same:
  assumes "n \<le> 64" "off + n \<le> LENGTH('a)"
  shows "bf_get (bf_set (w :: 'a::len word) off n v) off n = take_bit n v"
  using assms by (intro bit_eqI) (auto simp: bit_bf_get bit_bf_set bit_simps)

lemma bf_get_set_other:
  assumes "n \<le> 64" "m \<le> 64" "off' + m \<le> off \<or> off + n \<le> off'"
  shows "bf_get (bf_set w off n v) off' m = bf_get w off' m"
  using assms by (intro bit_eqI) (auto simp: bit_bf_get bit_bf_set)

end
