(* ===== verification/Ioapic.thy ===== *)
theory Ioapic
  imports Io_Bus Bit_Field
begin

text \<open>
The I/O interrupt controller of \<open>devices/src/irqchip/ioapic.rs\<close>: the redirection entries, the delivery of interrupts,
the set-up of their routes over the tube, the registers and the snapshots.  Delivered interrupts and
signalled resample events are recorded, newest first.  The lemmas at the end say what a guest write
does to an entry and what asserting a line does.
\<close>

section \<open>Redirection entries\<close>

datatype trigger_mode = Edge | Level

definition get_vector :: "u64 \<Rightarrow> u8" where
  "get_vector e = ucast (bf_get e 0 8)"

definition get_trigger_mode :: "u64 \<Rightarrow> trigger_mode" where
  "get_trigger_mode e = (if bf_get e 15 1 = 0 then Edge else Level)"

definition get_remote_irr :: "u64 \<Rightarrow> bool" where
  "get_remote_irr e \<longleftrightarrow> bf_get e 14 1 \<noteq> 0"

definition set_remote_irr :: "u64 \<Rightarrow> bool \<Rightarrow> u64" where
  "set_remote_irr e b = bf_set e 14 1 (if b then 1 else 0)"

definition get_interrupt_mask :: "u64 \<Rightarrow> bool" where
  "get_interrupt_mask e \<longleftrightarrow> bf_get e 16 1 \<noteq> 0"

definition set_interrupt_mask :: "u64 \<Rightarrow> bool \<Rightarrow> u64" where
  "set_interrupt_mask e b = bf_set e 16 1 (if b then 1 else 0)"

definition set_delivery_status :: "u64 \<Rightarrow> u64 \<Rightarrow> u64" where
  "set_delivery_status e v = bf_set e 12 1 v"

text \<open>The message of an interrupt: the address and the data a route is set up with.\<close>

definition msi_address_of :: "u64 \<Rightarrow> u64" where
  "msi_address_of e =
     (let a = bf_set (0 :: u32) 2 1 (bf_get e 11 1);
          a = bf_set a 12 8 (bf_get e 56 8);
          a = bf_set a 20 12 0xfee
      in bf_get a 0 32)"

definition msi_data_of :: "u64 \<Rightarrow> u32" where
  "msi_data_of e =
     (let d = bf_set (0 :: u32) 0 8 (bf_get e 0 8);
          d = bf_set d 8 3 (bf_get e 8 3);
          d = bf_set d 15 1 (bf_get e 15 1)
      in ucast (bf_get d 0 32))"

section \<open>State\<close>

record out_event_snapshot =
  snap_gsi :: u32
  snap_msi_address :: u64
  snap_msi_data :: u32

text \<open>An event is a handle.\<close>

record out_event =
  out_gsi :: u32
  out_handle :: nat
  out_snapshot :: "out_event_snapshot option"

datatype vm_irq_request =
    AllocateOneMsi (request_irqfd: nat) (request_queue: nat)
  | AllocateOneMsiAtGsi (request_irqfd: nat) (request_gsi: u32) (request_queue: nat)
  | AddMsiRoute (request_gsi: u32) u64 u32
  | ReleaseOneIrq (request_gsi: u32) (request_irqfd: nat)

datatype vm_irq_response = RespAllocateOneMsi u32 | RespOk | RespErr int

datatype tube_outcome = SendFails | RecvFails | Response vm_irq_response

datatype ioapic_error = CreateEvent int | AllocateOneMsiSend | AllocateOneMsiRecv | AllocateOneMsiErr int
  | AddMsiRouteSend | AddMsiRouteRecv | AddMsiRouteErr int | ReleaseOneIrqSend | ReleaseOneIrqRecv | ReleaseOneIrqErr int

text \<open>The environment of the device: the kernel creates and signals events, and the other end of the
  tube answers a request given all requests so far, the newest first.\<close>

record ioapic_env =
  create_event :: "vm_irq_request list \<Rightarrow> (nat, int) result"
  signal_ok :: "nat \<Rightarrow> bool"
  tube_peer :: "vm_irq_request list \<Rightarrow> tube_outcome"

record ioapic =
  num_pins :: nat
  ioregsel :: u8
  ioapicid :: u32
  rtc_remote_irr :: bool
  out_events :: "out_event option list"
  resample_events :: "nat list list"
  redirect_table :: "u64 list"
  interrupt_level :: "bool list"
  tube_log :: "vm_irq_request list"
  injections :: "nat list"
  resamples :: "nat list"

text \<open>Indexing a vector panics out of range.\<close>

definition vec_at :: "'a list \<Rightarrow> nat \<Rightarrow> 'a option" where
  "vec_at xs i = (if i < length xs then Some (xs ! i) else None)"

definition ioapic_new :: "nat \<Rightarrow> ioapic option" where
  "ioapic_new pins = do {
     assert_that (pins = 24);
     let entry = set_interrupt_mask 0 True;
     Some \<lparr>num_pins = pins, ioregsel = 0, ioapicid = 0, rtc_remote_irr = False, out_events = replicate pins None,
       resample_events = [], redirect_table = replicate pins entry, interrupt_level = replicate pins False,
       tube_log = [], injections = [], resamples = []\<rparr>
   }"

record ioapic_state =
  st_ioregsel :: u8
  st_ioapicid :: u32
  st_interrupt_level_bitmap :: u32
  st_redirect_table :: "u64 list"

definition level_bitmap :: "bool list \<Rightarrow> u32" where
  "level_bitmap levels = fold (\<lambda>l acc. acc * 2 + (if l then 1 else 0)) (rev (take 24 levels)) 0"

text \<open>The table of the state has 24 entries; those the device does not have are zero.\<close>

definition get_ioapic_state :: "ioapic \<Rightarrow> ioapic_state" where
  "get_ioapic_state p = \<lparr>st_ioregsel = ioregsel p, st_ioapicid = ioapicid p,
     st_interrupt_level_bitmap = level_bitmap (interrupt_level p),
     st_redirect_table = take 24 (redirect_table p) @ replicate (24 - length (redirect_table p)) 0\<rparr>"

definition set_ioapic_state :: "ioapic \<Rightarrow> ioapic_state \<Rightarrow> ioapic" where
  "set_ioapic_state p st = p\<lparr>ioregsel := st_ioregsel st, ioapicid := st_ioapicid st AND 0x0f000000,
     redirect_table := take (length (redirect_table p)) (st_redirect_table st) @
       drop (length (st_redirect_table st)) (redirect_table p),
     interrupt_level := map (\<lambda>i. if i < 24 then st_interrupt_level_bitmap st AND push_bit i 1 \<noteq> 0 else interrupt_level p ! i)
       [0..<length (interrupt_level p)]\<rparr>"

definition io_register_resample_events :: "ioapic \<Rightarrow> nat list list \<Rightarrow> ioapic" where
  "io_register_resample_events p evts = p\<lparr>resample_events := evts\<rparr>"

section \<open>Delivery\<close>

definition io_service_irq :: "ioapic_env \<Rightarrow> ioapic \<Rightarrow> nat \<Rightarrow> bool \<Rightarrow> (ioapic \<times> bool) option" where
  "io_service_irq env p irq level = do {
     entry \<leftarrow> vec_at (redirect_table p) irq;
     line \<leftarrow> vec_at (interrupt_level p) irq;
     if \<not> level then Some (p\<lparr>interrupt_level := (interrupt_level p)[irq := False]\<rparr>, True)
     else if get_trigger_mode entry = Edge \<and> line then Some (p, False)
     else do {
       let p = p\<lparr>interrupt_level := (interrupt_level p)[irq := True]\<rparr>;
       if get_interrupt_mask entry then Some (p, False)
       else if get_trigger_mode entry = Level \<and> get_remote_irr entry then Some (p, False)
       else if irq = 8 \<and> rtc_remote_irr p then Some (p, False)
       else do {
         let injected = (case vec_at (out_events p) irq of Some (Some oe) \<Rightarrow> signal_ok env (out_handle oe) | _ \<Rightarrow> False);
         let p = (if injected then p\<lparr>injections := irq # injections p\<rparr> else p);
         Some (if get_trigger_mode entry = Level \<and> level \<and> injected
             then p\<lparr>redirect_table := (redirect_table p)[irq := set_remote_irr entry True]\<rparr>
           else if irq = 8 \<and> injected then p\<lparr>rtc_remote_irr := True\<rparr>
           else p, injected)
       }
     }
   }"

fun signal_resamples :: "ioapic_env \<Rightarrow> nat list \<Rightarrow> ioapic \<Rightarrow> ioapic option" where
  "signal_resamples env [] p = Some p"
| "signal_resamples env (e # es) p = do {
     assert_that (signal_ok env e);
     signal_resamples env es (p\<lparr>resamples := e # resamples p\<rparr>)
   }"

text \<open>One iteration of the loop of \<open>end_of_interrupt\<close>.\<close>

definition eoi_pin :: "ioapic_env \<Rightarrow> u8 \<Rightarrow> nat \<Rightarrow> ioapic \<Rightarrow> ioapic option" where
  "eoi_pin env vec i p = do {
     entry \<leftarrow> vec_at (redirect_table p) i;
     p \<leftarrow> (if get_vector entry = vec \<and> get_trigger_mode entry = Level then do {
         p \<leftarrow> (case vec_at (resample_events p) i of
             Some (_ # _) \<Rightarrow> map_option fst (io_service_irq env p i False)
           | _ \<Rightarrow> Some p);
         p \<leftarrow> (case vec_at (resample_events p) i of
             Some evts \<Rightarrow> signal_resamples env evts p
           | None \<Rightarrow> Some p);
         entry \<leftarrow> vec_at (redirect_table p) i;
         Some (p\<lparr>redirect_table := (redirect_table p)[i := set_remote_irr entry False]\<rparr>)
       } else Some p);
     line \<leftarrow> vec_at (interrupt_level p) i;
     if line then map_option fst (io_service_irq env p i True) else Some p
   }"

fun eoi_loop :: "ioapic_env \<Rightarrow> u8 \<Rightarrow> nat list \<Rightarrow> ioapic \<Rightarrow> ioapic option" where
  "eoi_loop env vec [] p = Some p"
| "eoi_loop env vec (i # is) p = do { p \<leftarrow> eoi_pin env vec i p; eoi_loop env vec is p }"

definition end_of_interrupt :: "ioapic_env \<Rightarrow> ioapic \<Rightarrow> u8 \<Rightarrow> ioapic option" where
  "end_of_interrupt env p vec = do {
     rtc \<leftarrow> vec_at (redirect_table p) 8;
     let p = (if get_vector rtc = vec \<and> rtc_remote_irr p then p\<lparr>rtc_remote_irr := False\<rparr> else p);
     eoi_loop env vec [0..<num_pins p] p
   }"

section \<open>Routes\<close>

definition tube_request :: "ioapic_env \<Rightarrow> vm_irq_request \<Rightarrow> ioapic \<Rightarrow> ioapic \<times> tube_outcome" where
  "tube_request env r p = (p\<lparr>tube_log := r # tube_log p\<rparr>, tube_peer env (r # tube_log p))"

text \<open>The gsi of a line: the one it has, or a new one from the other end of the tube.  A response of
  another kind is \<open>unreachable!()\<close>.\<close>

definition out_gsi_for :: "ioapic_env \<Rightarrow> ioapic \<Rightarrow> nat \<Rightarrow> (ioapic \<times> (u32, ioapic_error) result) option" where
  "out_gsi_for env p index = do {
     out \<leftarrow> vec_at (out_events p) index;
     case out of
       Some evt \<Rightarrow> Some (p, Ok (out_gsi evt))
     | None \<Rightarrow>
         (case create_event env (tube_log p) of
           Err e \<Rightarrow> Some (p, Err (CreateEvent e))
         | Ok event \<Rightarrow>
             (case tube_request env (AllocateOneMsi event index) p of
               (p, SendFails) \<Rightarrow> Some (p, Err AllocateOneMsiSend)
             | (p, RecvFails) \<Rightarrow> Some (p, Err AllocateOneMsiRecv)
             | (p, Response (RespAllocateOneMsi gsi)) \<Rightarrow>
                 Some (p\<lparr>out_events := (out_events p)[index := Some \<lparr>out_gsi = gsi, out_handle = event, out_snapshot = None\<rparr>]\<rparr>, Ok gsi)
             | (p, Response (RespErr e)) \<Rightarrow> Some (p, Err (AllocateOneMsiErr e))
             | (p, Response RespOk) \<Rightarrow> None))
   }"

text \<open>Adding the route of a gsi and remembering it for snapshots.\<close>

definition add_route :: "ioapic_env \<Rightarrow> ioapic \<Rightarrow> nat \<Rightarrow> u32 \<Rightarrow> u64 \<Rightarrow> u32 \<Rightarrow> (ioapic \<times> (unit, ioapic_error) result) option" where
  "add_route env p index gsi msi_address msi_data =
     (case tube_request env (AddMsiRoute gsi msi_address msi_data) p of
       (p, SendFails) \<Rightarrow> Some (p, Err AddMsiRouteSend)
     | (p, RecvFails) \<Rightarrow> Some (p, Err AddMsiRouteRecv)
     | (p, Response (RespErr e)) \<Rightarrow> Some (p, Err (AddMsiRouteErr e))
     | (p, Response _) \<Rightarrow> do {
         out \<leftarrow> vec_at (out_events p) index;
         evt \<leftarrow> out;
         Some (p\<lparr>out_events := (out_events p)[index := Some (evt\<lparr>out_snapshot :=
           Some \<lparr>snap_gsi = gsi, snap_msi_address = msi_address, snap_msi_data = msi_data\<rparr>\<rparr>)]\<rparr>, Ok ())
       })"

definition setup_msi :: "ioapic_env \<Rightarrow> ioapic \<Rightarrow> nat \<Rightarrow> u64 \<Rightarrow> u32 \<Rightarrow> (ioapic \<times> (unit, ioapic_error) result) option" where
  "setup_msi env p index msi_address msi_data =
     (if msi_data = 0 then Some (p, Ok ())
      else do {
        (p, r) \<leftarrow> out_gsi_for env p index;
        case r of
          Err e \<Rightarrow> Some (p, Err e)
        | Ok gsi \<Rightarrow> add_route env p index gsi msi_address msi_data
      })"

definition restore_msi :: "ioapic_env \<Rightarrow> ioapic \<Rightarrow> nat \<Rightarrow> u32 \<Rightarrow> u64 \<Rightarrow> u32 \<Rightarrow> (ioapic \<times> (unit, ioapic_error) result) option" where
  "restore_msi env p index gsi msi_address msi_data =
     (case create_event env (tube_log p) of
       Err e \<Rightarrow> Some (p, Err (CreateEvent e))
     | Ok event \<Rightarrow>
         (case tube_request env (AllocateOneMsiAtGsi event gsi index) p of
           (p, SendFails) \<Rightarrow> Some (p, Err AllocateOneMsiSend)
         | (p, RecvFails) \<Rightarrow> Some (p, Err AllocateOneMsiRecv)
         | (p, Response (RespErr e)) \<Rightarrow> Some (p, Err (AllocateOneMsiErr e))
         | (p, Response _) \<Rightarrow> do {
             assert_that (index < length (out_events p));
             add_route env (p\<lparr>out_events := (out_events p)[index :=
               Some \<lparr>out_gsi = gsi, out_handle = event, out_snapshot = None\<rparr>]\<rparr>) index gsi msi_address msi_data
           }))"

text \<open>The vector is drained before the first request, so it is empty whatever happens.\<close>

fun release_msis :: "ioapic_env \<Rightarrow> out_event option list \<Rightarrow> ioapic \<Rightarrow> ioapic \<times> (unit, ioapic_error) result" where
  "release_msis env [] p = (p, Ok ())"
| "release_msis env (None # evts) p = release_msis env evts p"
| "release_msis env (Some evt # evts) p =
     (case tube_request env (ReleaseOneIrq (out_gsi evt) (out_handle evt)) p of
       (p, SendFails) \<Rightarrow> (p, Err ReleaseOneIrqSend)
     | (p, RecvFails) \<Rightarrow> (p, Err ReleaseOneIrqRecv)
     | (p, Response (RespErr e)) \<Rightarrow> (p, Err (ReleaseOneIrqErr e))
     | (p, Response _) \<Rightarrow> release_msis env evts p)"

definition release_all_msis :: "ioapic_env \<Rightarrow> ioapic \<Rightarrow> ioapic \<times> (unit, ioapic_error) result" where
  "release_all_msis env p = release_msis env (out_events p) (p\<lparr>out_events := []\<rparr>)"

section \<open>Registers\<close>

definition decode_irq_from_selector :: "u8 \<Rightarrow> (nat \<times> bool) option" where
  "decode_irq_from_selector selector = do {
     x \<leftarrow> checked_sub selector 0x10;
     Some (unat (x div 2), selector AND 1 \<noteq> 0)
   }"

definition write_entry :: "u64 \<Rightarrow> bool \<Rightarrow> u32 \<Rightarrow> u64" where
  "write_entry before is_high_bits val =
     (if is_high_bits then bf_set before 32 32 (ucast val)
      else
        let entry = bf_set before 0 32 (ucast val);
            entry = set_delivery_status entry (bf_get before 12 1);
            entry = set_remote_irr entry (get_remote_irr before)
        in if get_trigger_mode entry = Edge then set_remote_irr entry False else entry)"

definition ioapic_write :: "ioapic_env \<Rightarrow> ioapic \<Rightarrow> u32 \<Rightarrow> ioapic option" where
  "ioapic_write env p val =
     (if ioregsel p = 0x01 then Some p
      else if ioregsel p = 0x00 then Some (p\<lparr>ioapicid := val AND 0x0f000000\<rparr>)
      else if ioregsel p = 0x02 then Some p
      else if ioregsel p < 0x10 then Some p
      else do {
        (index, is_high_bits) \<leftarrow> decode_irq_from_selector (ioregsel p);
        if index \<ge> num_pins p then Some p
        else do {
          before \<leftarrow> vec_at (redirect_table p) index;
          let entry = write_entry before is_high_bits val;
          let p = p\<lparr>redirect_table := (redirect_table p)[index := entry]\<rparr>;
          p \<leftarrow> (if get_trigger_mode entry = Level then do {
              line \<leftarrow> vec_at (interrupt_level p) index;
              if line \<and> \<not> get_interrupt_mask entry then map_option fst (io_service_irq env p index True) else Some p
            } else Some p);
          entry \<leftarrow> vec_at (redirect_table p) index;
          (p, _) \<leftarrow> setup_msi env p index (msi_address_of entry) (msi_data_of entry);
          Some p
        }
      })"

definition ioapic_read :: "ioapic \<Rightarrow> u32 option" where
  "ioapic_read p =
     (if ioregsel p = 0x01 then do {
        assert_that (num_pins p > 0);
        Some (push_bit 16 (of_nat (num_pins p - 1)) OR 0x20)
      }
      else if ioregsel p = 0x00 \<or> ioregsel p = 0x02 then Some (ioapicid p)
      else if ioregsel p < 0x10 then Some 0
      else do {
        (index, is_high_bits) \<leftarrow> decode_irq_from_selector (ioregsel p);
        if index < num_pins p then do {
          entry \<leftarrow> vec_at (redirect_table p) index;
          Some (ucast (bf_get entry (if is_high_bits then 32 else 0) 32))
        } else Some (NOT 0)
      })"

fun u32_bytes :: "nat \<Rightarrow> u32 \<Rightarrow> u8 list" where
  "u32_bytes 0 w = []"
| "u32_bytes (Suc n) w = ucast w # u32_bytes n (drop_bit 8 w)"

fun u32_of_bytes :: "u8 list \<Rightarrow> u32" where
  "u32_of_bytes [] = 0"
| "u32_of_bytes (b # bs) = ucast b OR push_bit 8 (u32_of_bytes bs)"

definition ioapic_bus_read :: "ioapic \<Rightarrow> bus_access_info \<Rightarrow> u8 list \<Rightarrow> (ioapic \<times> u8 list) option" where
  "ioapic_bus_read p info data =
     (if length data > 8 \<or> data = [] then Some (p, data)
      else
        let off = ucast (access_offset info) :: u8;
            reply = (\<lambda>out. take (length data) (u32_bytes 4 out) @ drop 4 data)
        in if off = 0x0 then Some (p, reply (ucast (ioregsel p)))
           else if off = 0x4 then Some (p, reply 0)
           else if off = 0x10 then map_option (\<lambda>out. (p, reply out)) (ioapic_read p)
           else if off = 0x40 then Some (p, reply 0)
           else Some (p, data))"

definition ioapic_bus_write :: "ioapic_env \<Rightarrow> ioapic \<Rightarrow> bus_access_info \<Rightarrow> u8 list \<Rightarrow> ioapic option" where
  "ioapic_bus_write env p info data =
     (if length data > 8 \<or> data = [] then Some p
      else
        let off = ucast (access_offset info) :: u8
        in if off = 0x0 then Some (p\<lparr>ioregsel := hd data\<rparr>)
           else if off = 0x4 then Some p
           else if off = 0x10 then (if length data \<noteq> 4 then Some p else ioapic_write env p (u32_of_bytes data))
           else if off = 0x40 then end_of_interrupt env p (hd data)
           else Some p)"

section \<open>Snapshots\<close>

record ioapic_snapshot =
  snap_num_pins :: nat
  snap_ioregsel :: u8
  snap_ioapicid :: u32
  snap_rtc_remote_irr :: bool
  snap_out_events :: "out_event_snapshot option list"
  snap_redirect_table :: "u64 list"
  snap_interrupt_level :: "bool list"

definition ioapic_take_snapshot :: "ioapic \<Rightarrow> ioapic_snapshot" where
  "ioapic_take_snapshot p = \<lparr>snap_num_pins = num_pins p, snap_ioregsel = ioregsel p, snap_ioapicid = ioapicid p,
     snap_rtc_remote_irr = rtc_remote_irr p,
     snap_out_events = map (\<lambda>oe. case oe of Some evt \<Rightarrow> out_snapshot evt | None \<Rightarrow> None) (out_events p),
     snap_redirect_table = redirect_table p, snap_interrupt_level = interrupt_level p\<rparr>"

fun restore_msis :: "ioapic_env \<Rightarrow> nat \<Rightarrow> out_event_snapshot option list \<Rightarrow> ioapic
    \<Rightarrow> (ioapic \<times> (unit, ioapic_error) result) option" where
  "restore_msis env index [] p = Some (p, Ok ())"
| "restore_msis env index (None # evts) p = restore_msis env (Suc index) evts p"
| "restore_msis env index (Some evt # evts) p = do {
     (p, r) \<leftarrow> restore_msi env p index (snap_gsi evt) (snap_msi_address evt) (snap_msi_data evt);
     case r of
       Err e \<Rightarrow> Some (p, Err e)
     | Ok _ \<Rightarrow> restore_msis env (Suc index) evts p
   }"

definition ioapic_restore :: "ioapic_env \<Rightarrow> ioapic \<Rightarrow> ioapic_snapshot \<Rightarrow> (ioapic \<times> (unit, ioapic_error) result) option" where
  "ioapic_restore env p snap =
     (let p = p\<lparr>num_pins := snap_num_pins snap, ioregsel := snap_ioregsel snap, ioapicid := snap_ioapicid snap,
           rtc_remote_irr := snap_rtc_remote_irr snap, redirect_table := snap_redirect_table snap,
           interrupt_level := snap_interrupt_level snap\<rparr>
      in case release_all_msis env p of
          (p, Err e) \<Rightarrow> Some (p, Err e)
        | (p, Ok _) \<Rightarrow> restore_msis env 0 (snap_out_events snap) (p\<lparr>out_events := replicate (snap_num_pins snap) None\<rparr>))"

section \<open>Fields of an entry\<close>

lemma entry_bits:
  "get_remote_irr e \<longleftrightarrow> bit e 14" "get_trigger_mode e = Level \<longleftrightarrow> bit e 15" "get_trigger_mode e = Edge \<longleftrightarrow> \<not> bit e 15"
  "get_interrupt_mask e \<longleftrightarrow> bit e 16"
  by (simp_all add: get_remote_irr_def get_trigger_mode_def get_interrupt_mask_def bf_get_bit_def)

lemma bit_set_remote_irr: "bit (set_remote_irr e b) k \<longleftrightarrow> (if k = 14 then b else bit e k)"
  by (auto simp: set_remote_irr_def bit_bf_set bit_bf_set_bit bf_get_bit_def bit_simps)

lemma set_remote_irr_fields [simp]:
  "get_remote_irr (set_remote_irr e b) = b" "get_trigger_mode (set_remote_irr e b) = get_trigger_mode e"
  "get_interrupt_mask (set_remote_irr e b) = get_interrupt_mask e" "get_vector (set_remote_irr e b) = get_vector e"
proof -
  show "get_remote_irr (set_remote_irr e b) = b" "get_interrupt_mask (set_remote_irr e b) = get_interrupt_mask e"
    by (simp_all add: entry_bits bit_set_remote_irr)
  show "get_trigger_mode (set_remote_irr e b) = get_trigger_mode e"
    by (simp add: get_trigger_mode_def set_remote_irr_def bf_get_set_other del: bf_get.simps bf_set.simps)
  show "get_vector (set_remote_irr e b) = get_vector e" 
    by (simp add: get_vector_def set_remote_irr_def bf_get_set_other del: bf_get.simps bf_set.simps)
qed

text \<open>A guest write never sets the remote interrupt request bit, and keeps it while the entry stays
  level triggered.\<close>

lemma write_entry_remote:
  "get_remote_irr (write_entry e h val) \<longleftrightarrow> get_remote_irr e \<and> (h \<or> bit val 15)"
  by (auto simp: write_entry_def Let_def entry_bits bit_set_remote_irr set_delivery_status_def bit_bf_set bit_bf_set_bit bf_get_bit_def bit_simps)

lemma write_entry_trigger:
  "get_trigger_mode (write_entry e h val) = (if if h then bit e 15 else bit val 15 then Level else Edge)"
proof -
  have "bit (write_entry e h val) 15 \<longleftrightarrow> (if h then bit e 15 else bit val 15)"
    by (auto simp: write_entry_def Let_def entry_bits bit_set_remote_irr set_delivery_status_def bit_bf_set bit_bf_set_bit bf_get_bit_def bit_simps)
  then show ?thesis by (cases "get_trigger_mode (write_entry e h val)") (auto simp: entry_bits)
qed

lemma write_entry_vector: "get_vector (write_entry e h val) = (if h then get_vector e else ucast val)"
  by (rule bit_word_eqI) (auto simp: get_vector_def bit_simps bit_bf_get write_entry_def Let_def entry_bits bit_set_remote_irr
      set_delivery_status_def bit_bf_set bit_bf_set_bit bf_get_bit_def)

section \<open>Invariant\<close>

text \<open>A request that is out for delivery belongs to a level-triggered line.\<close>

definition ioapic_inv :: "ioapic \<Rightarrow> bool" where
  "ioapic_inv p \<longleftrightarrow> num_pins p = 24 \<and> length (redirect_table p) = 24 \<and> length (interrupt_level p) = 24 \<and>
     length (out_events p) = 24 \<and>
     (\<forall>i < 24. get_remote_irr (redirect_table p ! i) \<longrightarrow> get_trigger_mode (redirect_table p ! i) = Level)"

text \<open>What the device relies on: resample events can be signalled, and a request for a new interrupt is
  answered with one or with an error, as \<open>VmIrqRequest::execute\<close> does.\<close>

definition good_env :: "ioapic_env \<Rightarrow> bool" where
  "good_env env \<longleftrightarrow> (\<forall>e. signal_ok env e) \<and> (\<forall>ev q log. tube_peer env (AllocateOneMsi ev q # log) \<noteq> Response RespOk)"

definition deliverable :: "ioapic_env \<Rightarrow> ioapic \<Rightarrow> nat \<Rightarrow> bool" where
  "deliverable env p irq \<longleftrightarrow>
     (let entry = redirect_table p ! irq
      in \<not> (get_trigger_mode entry = Edge \<and> interrupt_level p ! irq) \<and> \<not> get_interrupt_mask entry \<and>
         \<not> (get_trigger_mode entry = Level \<and> get_remote_irr entry) \<and> \<not> (irq = 8 \<and> rtc_remote_irr p) \<and>
         (case out_events p ! irq of Some oe \<Rightarrow> signal_ok env (out_handle oe) | None \<Rightarrow> False))"

lemma io_service_irq_off:
  assumes "ioapic_inv p" "irq < 24"
  shows "io_service_irq env p irq False = Some (p\<lparr>interrupt_level := (interrupt_level p)[irq := False]\<rparr>, True)"
  using assms by (simp add: io_service_irq_def ioapic_inv_def vec_at_def)

lemma io_service_irq_on:
  assumes "ioapic_inv p" "irq < 24"
  shows "io_service_irq env p irq True = Some (let q = p\<lparr>interrupt_level := (interrupt_level p)[irq := True]\<rparr> in
    if deliverable env p irq then
      (if get_trigger_mode (redirect_table p ! irq) = Level
       then q\<lparr>injections := irq # injections p,
         redirect_table := (redirect_table p)[irq := set_remote_irr (redirect_table p ! irq) True]\<rparr>
       else if irq = 8 then q\<lparr>injections := irq # injections p, rtc_remote_irr := True\<rparr>
       else q\<lparr>injections := irq # injections p\<rparr>, True)
    else (q, False))"
proof -
  have len: "irq < length (redirect_table p)" "irq < length (interrupt_level p)" "irq < length (out_events p)"
    using assms by (auto simp: ioapic_inv_def)
  define e where "e = redirect_table p ! irq"
  show ?thesis
  proof (cases "get_trigger_mode e = Edge \<and> interrupt_level p ! irq")
    case True
    then have "\<not> deliverable env p irq" by (simp add: deliverable_def e_def)
    moreover have "(interrupt_level p)[irq := True] = interrupt_level p"
      using True list_update_id [of "interrupt_level p" irq] by simp
    ultimately show ?thesis using True len by (simp add: io_service_irq_def vec_at_def e_def)
  next
    case False
    define inj where "inj = (case out_events p ! irq of Some oe \<Rightarrow> signal_ok env (out_handle oe) | None \<Rightarrow> False)"
    have d: "deliverable env p irq \<longleftrightarrow> \<not> get_interrupt_mask e \<and> \<not> (get_trigger_mode e = Level \<and> get_remote_irr e) \<and>
        \<not> (irq = 8 \<and> rtc_remote_irr p) \<and> inj"
      using False by (simp add: deliverable_def e_def inj_def Let_def)
    have i: "(case Some (out_events p ! irq) of Some (Some oe) \<Rightarrow> signal_ok env (out_handle oe) | _ \<Rightarrow> False) = inj"
      by (simp add: inj_def split: option.split)
    show ?thesis
      unfolding d e_def [symmetric] io_service_irq_def vec_at_def using len False
      by (cases inj) (simp_all add: i [simplified] e_def [symmetric] Let_def, auto)
  qed
qed

end
