(* ===== verification/Ioapic_Delivery.thy ===== *)
theory Ioapic_Delivery
  imports Ioapic
begin

text \<open>
How the I/O interrupt controller delivers: an account of the deliveries of each line against its pending
request and the acknowledgements of its vector, kept by the service of a line, by the loop of an
acknowledgement and by guest writes.  The device meets the bus contract, level-triggered interrupts
are coalesced and redelivered, and one kind of request is lost.
\<close>

section \<open>One line at a time\<close>

definition same_config :: "u64 \<Rightarrow> u64 \<Rightarrow> bool" where
  "same_config e e' \<longleftrightarrow> get_trigger_mode e' = get_trigger_mode e \<and> get_vector e' = get_vector e \<and>
     get_interrupt_mask e' = get_interrupt_mask e"

text \<open>An operation on line \<open>j\<close> leaves the others alone and keeps the configuration of all.\<close>

definition pin_frame :: "nat \<Rightarrow> ioapic \<Rightarrow> ioapic \<Rightarrow> bool" where
  "pin_frame j p p' \<longleftrightarrow> ioapic_inv p' \<and> out_events p' = out_events p \<and> resample_events p' = resample_events p \<and>
     (j \<noteq> 8 \<longrightarrow> rtc_remote_irr p' = rtc_remote_irr p) \<and>
     (\<forall>k. k \<noteq> j \<longrightarrow> redirect_table p' ! k = redirect_table p ! k \<and> interrupt_level p' ! k = interrupt_level p ! k \<and>
        count_list (injections p') k = count_list (injections p) k) \<and>
     same_config (redirect_table p ! j) (redirect_table p' ! j)"

lemma pin_frame_inv: "pin_frame j p p' \<Longrightarrow> ioapic_inv p'"
  by (simp only: pin_frame_def)

lemma pin_frame_refl: "ioapic_inv p \<Longrightarrow> pin_frame j p p"
  by (simp add: pin_frame_def same_config_def)

lemma pin_frame_trans: "pin_frame j p q \<Longrightarrow> pin_frame j q r \<Longrightarrow> pin_frame j p r"
  unfolding pin_frame_def same_config_def by metis

definition in_service :: "ioapic \<Rightarrow> nat \<Rightarrow> nat" where
  "in_service p j = (if get_remote_irr (redirect_table p ! j) then 1 else 0)"

text \<open>The deliveries of a line between two states are accounted for by its pending request, up to \<open>n\<close>
  acknowledgements.\<close>

definition balanced :: "nat \<Rightarrow> nat \<Rightarrow> ioapic \<Rightarrow> ioapic \<Rightarrow> bool" where
  "balanced i n p p' \<longleftrightarrow> count_list (injections p') i + in_service p i \<le> count_list (injections p) i + in_service p' i + n"

lemma balanced_trans: "balanced i n p q \<Longrightarrow> balanced i m q r \<Longrightarrow> balanced i (n + m) p r"
  by (simp add: balanced_def)

lemma balanced_other: "pin_frame j p p' \<Longrightarrow> i \<noteq> j \<Longrightarrow> balanced i 0 p p'"
  by (simp add: balanced_def pin_frame_def in_service_def)

lemma set_level_frame: "ioapic_inv p \<Longrightarrow> pin_frame j p (p\<lparr>interrupt_level := (interrupt_level p)[j := b]\<rparr>)"
  by (simp add: pin_frame_def ioapic_inv_def same_config_def)

lemma set_irr_frame:
  assumes "ioapic_inv p" "b \<longrightarrow> get_trigger_mode (redirect_table p ! j) = Level"
  shows "pin_frame j p (p\<lparr>redirect_table := (redirect_table p)[j := set_remote_irr (redirect_table p ! j) b]\<rparr>)"
  using assms by (cases "j < 24") (auto simp: pin_frame_def ioapic_inv_def same_config_def nth_list_update list_update_beyond)

lemma service_pin:
  assumes "ioapic_inv p" "j < 24"
  obtains p' r where "io_service_irq env p j level = Some (p', r)" "pin_frame j p p'" "interrupt_level p' ! j = level"
    "get_trigger_mode (redirect_table p ! j) = Level \<Longrightarrow> balanced j 0 p p'"
    "level \<Longrightarrow> count_list (injections p') j = count_list (injections p) j + (if deliverable env p j then 1 else 0)"
proof (cases level)
  case False
  let ?q = "p\<lparr>interrupt_level := (interrupt_level p)[j := False]\<rparr>"
  show thesis
    using that [of ?q True] io_service_irq_off [OF assms] set_level_frame [OF assms(1), of j False] assms False
    by (simp add: balanced_def in_service_def ioapic_inv_def)
next
  case True
  let ?q = "p\<lparr>interrupt_level := (interrupt_level p)[j := True]\<rparr>" and ?e = "redirect_table p ! j"
  have len: "length (interrupt_level p) = 24" "length (redirect_table p) = 24" using assms(1) by (auto simp: ioapic_inv_def)
  note q = set_level_frame [OF assms(1), of j True] pin_frame_inv [OF set_level_frame [OF assms(1), of j True]]
  note on = io_service_irq_on [OF assms, of env]
  consider "\<not> deliverable env p j" | "deliverable env p j" "get_trigger_mode ?e = Level"
    | "deliverable env p j" "get_trigger_mode ?e \<noteq> Level" by blast
  then show thesis
  proof cases
    case 1
    then show thesis using that [OF _ q(1)] on True len assms(2) by (simp add: balanced_def in_service_def)
  next
    case 2
    then have n: "\<not> get_remote_irr ?e" by (simp add: deliverable_def Let_def)
    let ?r = "?q\<lparr>injections := j # injections p, redirect_table := (redirect_table p)[j := set_remote_irr ?e True]\<rparr>"
    have "pin_frame j ?q (?q\<lparr>redirect_table := (redirect_table p)[j := set_remote_irr ?e True]\<rparr>)"
      using set_irr_frame [OF q(2), of True j] 2(2) by simp
    then have "pin_frame j p ?r" using pin_frame_trans [OF q(1)] by (simp add: pin_frame_def ioapic_inv_def)
    then show thesis using that [of ?r True] on 2 n True len assms(2) by (simp add: balanced_def in_service_def)
  next
    case 3
    let ?r = "if j = 8 then ?q\<lparr>injections := j # injections p, rtc_remote_irr := True\<rparr> else ?q\<lparr>injections := j # injections p\<rparr>"
    have "pin_frame j p ?r" using q(1) by (simp add: pin_frame_def ioapic_inv_def same_config_def)
    then show thesis using that [of ?r True] on 3 True len assms(2) by simp
  qed
qed

lemma signal_resamples_good:
  assumes "good_env env"
  obtains rs where "signal_resamples env es p = Some (p\<lparr>resamples := rs\<rparr>)"
proof -
  have "\<exists>rs. signal_resamples env es p = Some (p\<lparr>resamples := rs\<rparr>)"
  proof (induction es arbitrary: p)
    case Nil
    have "signal_resamples env [] p = Some (p\<lparr>resamples := resamples p\<rparr>)" by simp
    then show ?case by blast
  next
    case (Cons e es)
    then show ?case using assms Cons [of "p\<lparr>resamples := e # resamples p\<rparr>"] by (auto simp: good_env_def assert_that_def)
  qed
  then show thesis using that by blast
qed

lemma resamples_frame: "ioapic_inv p \<Longrightarrow> pin_frame j p (p\<lparr>resamples := rs\<rparr>)"
  by (simp add: pin_frame_def ioapic_inv_def same_config_def)

text \<open>The first half of an iteration: the line is acknowledged.\<close>

definition eoi_ack :: "ioapic_env \<Rightarrow> u8 \<Rightarrow> nat \<Rightarrow> ioapic \<Rightarrow> ioapic option" where
  "eoi_ack env vec i p = do {
     entry \<leftarrow> vec_at (redirect_table p) i;
     if get_vector entry = vec \<and> get_trigger_mode entry = Level then do {
       p \<leftarrow> (case vec_at (resample_events p) i of
           Some (_ # _) \<Rightarrow> map_option fst (io_service_irq env p i False)
         | _ \<Rightarrow> Some p);
       p \<leftarrow> (case vec_at (resample_events p) i of
           Some evts \<Rightarrow> signal_resamples env evts p
         | None \<Rightarrow> Some p);
       entry \<leftarrow> vec_at (redirect_table p) i;
       Some (p\<lparr>redirect_table := (redirect_table p)[i := set_remote_irr entry False]\<rparr>)
     } else Some p
   }"

lemma eoi_pin_ack: "eoi_pin env vec i p = do {
     p \<leftarrow> eoi_ack env vec i p;
     line \<leftarrow> vec_at (interrupt_level p) i;
     if line then map_option fst (io_service_irq env p i True) else Some p
   }"
  unfolding eoi_pin_def eoi_ack_def by (simp only: bind_assoc)

definition acked :: "ioapic \<Rightarrow> nat \<Rightarrow> u8 \<Rightarrow> bool" where
  "acked p j vec \<longleftrightarrow> get_vector (redirect_table p ! j) = vec \<and> get_trigger_mode (redirect_table p ! j) = Level"

definition has_resample :: "ioapic \<Rightarrow> nat \<Rightarrow> bool" where
  "has_resample p j \<longleftrightarrow> j < length (resample_events p) \<and> resample_events p ! j \<noteq> []"

definition lowered :: "ioapic \<Rightarrow> nat \<Rightarrow> ioapic" where
  "lowered p j = (if has_resample p j then p\<lparr>interrupt_level := (interrupt_level p)[j := False]\<rparr> else p)"

lemma lowered_frame:
  assumes "ioapic_inv p"
  shows "pin_frame j p (lowered p j)" "injections (lowered p j) = injections p" "redirect_table (lowered p j) = redirect_table p"
    "rtc_remote_irr (lowered p j) = rtc_remote_irr p" "resample_events (lowered p j) = resample_events p"
    "\<not> has_resample p j \<Longrightarrow> interrupt_level (lowered p j) = interrupt_level p"
  using set_level_frame [OF assms, of j False] pin_frame_refl [OF assms, of j] by (simp_all add: lowered_def)

lemma eoi_lower:
  assumes "ioapic_inv p" "j < 24"
  shows "(case vec_at (resample_events p) j of Some (_ # _) \<Rightarrow> map_option fst (io_service_irq env p j False) | _ \<Rightarrow> Some p)
    = Some (lowered p j)"
proof (cases "has_resample p j")
  case True
  then obtain e es where "vec_at (resample_events p) j = Some (e # es)"
    by (cases "resample_events p ! j") (auto simp: has_resample_def vec_at_def)
  then show ?thesis using True io_service_irq_off [OF assms, of env] by (simp add: lowered_def)
next
  case False
  then have "vec_at (resample_events p) j = None \<or> vec_at (resample_events p) j = Some []" by (auto simp: has_resample_def vec_at_def)
  then show ?thesis using False by (auto simp: lowered_def)
qed

lemma eoi_signal:
  assumes "good_env env"
  obtains rs where "(case ev of Some evts \<Rightarrow> signal_resamples env evts q | None \<Rightarrow> Some q) = Some (q\<lparr>resamples := rs\<rparr>)"
proof (cases ev)
  case None
  then show thesis using that [of "resamples q"] by simp
next
  case (Some evts)
  obtain rs where "signal_resamples env evts q = Some (q\<lparr>resamples := rs\<rparr>)" by (rule signal_resamples_good [OF assms])
  with Some show thesis by (intro that [of rs]) simp
qed

lemma eoi_ack_effect:
  assumes "ioapic_inv p" "good_env env" "j < 24"
  obtains p' where "eoi_ack env vec j p = Some p'" "pin_frame j p p'" "injections p' = injections p"
    "rtc_remote_irr p' = rtc_remote_irr p"
    "acked p j vec \<Longrightarrow> \<not> get_remote_irr (redirect_table p' ! j)"
    "acked p j vec \<Longrightarrow> \<not> has_resample p j \<Longrightarrow> interrupt_level p' = interrupt_level p"
    "\<not> acked p j vec \<Longrightarrow> p' = p"
proof (cases "acked p j vec")
  case False
  have "vec_at (redirect_table p) j = Some (redirect_table p ! j)" using assms by (simp add: vec_at_def ioapic_inv_def)
  then have "eoi_ack env vec j p = Some p" using False by (auto simp: eoi_ack_def acked_def)
  then show thesis using that pin_frame_refl [OF assms(1)] False by simp
next
  case True
  define q where "q = lowered p j"
  note q = lowered_frame [OF assms(1), of j, folded q_def] and qi = pin_frame_inv [OF q(1)]
  obtain rs where rs: "(case vec_at (resample_events p) j of Some evts \<Rightarrow> signal_resamples env evts q | None \<Rightarrow> Some q)
      = Some (q\<lparr>resamples := rs\<rparr>)" by (rule eoi_signal [OF assms(2)])
  define r where "r = q\<lparr>resamples := rs\<rparr>"
  have rf: "pin_frame j q r" unfolding r_def by (rule resamples_frame [OF qi])
  note ri = pin_frame_inv [OF rf]
  have r: "redirect_table r = redirect_table p" "injections r = injections p" "rtc_remote_irr r = rtc_remote_irr p"
    "interrupt_level r = interrupt_level q" by (simp_all add: r_def q(2-4))
  define t where "t = r\<lparr>redirect_table := (redirect_table r)[j := set_remote_irr (redirect_table r ! j) False]\<rparr>"
  have t: "pin_frame j p t" unfolding t_def
    by (rule pin_frame_trans [OF pin_frame_trans [OF q(1) rf] set_irr_frame [OF ri]]) simp
  have len: "length (redirect_table p) = 24" using assms(1) by (simp add: ioapic_inv_def)
  have v: "vec_at (redirect_table p) j = Some (redirect_table p ! j)" using len assms(3) by (simp add: vec_at_def)
  have w: "vec_at (redirect_table r) j = Some (redirect_table r ! j)" using v by (simp add: r(1))
  have "eoi_ack env vec j p = Some t"
    unfolding eoi_ack_def v eoi_lower [OF assms(1,3), folded q_def] bind.bind_lunit q(5) rs [folded r_def] w t_def
    using True by (simp add: acked_def)
  moreover have "\<not> get_remote_irr (redirect_table t ! j)" using len assms(3) by (simp add: t_def r(1))
  ultimately show thesis using that [OF _ t] r(2-4) q(6) True by (simp add: t_def)
qed

lemma frame_level: "pin_frame j p p' \<Longrightarrow> get_trigger_mode (redirect_table p' ! i) = get_trigger_mode (redirect_table p ! i)"
  "pin_frame j p p' \<Longrightarrow> get_vector (redirect_table p' ! i) = get_vector (redirect_table p ! i)"
  unfolding pin_frame_def same_config_def by (cases "i = j"; metis)+

definition deliverable_on_ack :: "ioapic_env \<Rightarrow> ioapic \<Rightarrow> nat \<Rightarrow> bool" where
  "deliverable_on_ack env p j \<longleftrightarrow> interrupt_level p ! j \<and> \<not> has_resample p j \<and> \<not> get_interrupt_mask (redirect_table p ! j) \<and>
     \<not> (j = 8 \<and> rtc_remote_irr p) \<and> (case out_events p ! j of Some oe \<Rightarrow> signal_ok env (out_handle oe) | None \<Rightarrow> False)"

lemma eoi_pin_effect:
  assumes "ioapic_inv p" "good_env env" "j < 24"
  obtains p' where "eoi_pin env vec j p = Some p'" "pin_frame j p p'"
    "get_trigger_mode (redirect_table p ! j) = Level \<Longrightarrow> balanced j (if get_vector (redirect_table p ! j) = vec then 1 else 0) p p'"
    "acked p j vec \<Longrightarrow> deliverable_on_ack env p j \<Longrightarrow> count_list (injections p') j = count_list (injections p) j + 1"
proof -
  obtain q where q: "eoi_ack env vec j p = Some q" "pin_frame j p q" "injections q = injections p"
    "rtc_remote_irr q = rtc_remote_irr p" "acked p j vec \<Longrightarrow> \<not> get_remote_irr (redirect_table q ! j)"
    "acked p j vec \<Longrightarrow> \<not> has_resample p j \<Longrightarrow> interrupt_level q = interrupt_level p" "\<not> acked p j vec \<Longrightarrow> q = p"
    by (rule eoi_ack_effect [OF assms, of vec]) blast
  note qi = pin_frame_inv [OF q(2)]
  have line: "vec_at (interrupt_level q) j = Some (interrupt_level q ! j)" using qi assms(3) by (simp add: vec_at_def ioapic_inv_def)
  have b: "balanced j (if get_vector (redirect_table p ! j) = vec then 1 else 0) p q" if "get_trigger_mode (redirect_table p ! j) = Level"
  proof (cases "acked p j vec")
    case True
    then show ?thesis using q(3) by (simp add: balanced_def in_service_def acked_def)
  next
    case False
    then show ?thesis using q(7) by (simp add: balanced_def)
  qed
  show thesis
  proof (cases "interrupt_level q ! j")
    case False
    then have e: "eoi_pin env vec j p = Some q" using q(1) line by (simp add: eoi_pin_ack)
    have "\<not> deliverable_on_ack env p j" if "acked p j vec" using False q(6) [OF that] by (auto simp: deliverable_on_ack_def)
    with that [OF e q(2) b] show thesis by blast
  next
    case True
    obtain r res where r: "io_service_irq env q j True = Some (r, res)" "pin_frame j q r"
      "get_trigger_mode (redirect_table q ! j) = Level \<Longrightarrow> balanced j 0 q r"
      "count_list (injections r) j = count_list (injections q) j + (if deliverable env q j then 1 else 0)"
      using service_pin [OF qi assms(3), of env True] by metis
    have e: "eoi_pin env vec j p = Some r" using q(1) line True r(1) by (simp add: eoi_pin_ack)
    have d: "deliverable env q j" if "acked p j vec" "deliverable_on_ack env p j"
    proof -
      have c: "get_trigger_mode (redirect_table q ! j) = Level" "get_interrupt_mask (redirect_table q ! j) = get_interrupt_mask (redirect_table p ! j)"
        "out_events q = out_events p"
        using q(2) that(1) unfolding pin_frame_def same_config_def acked_def by auto
      show ?thesis unfolding deliverable_def Let_def c using that(2) q(4) q(5) [OF that(1)] by (simp add: deliverable_on_ack_def)
    qed
    have lv: "balanced j (if get_vector (redirect_table p ! j) = vec then 1 else 0) p r" if "get_trigger_mode (redirect_table p ! j) = Level"
      using balanced_trans [OF b [OF that] r(3)] frame_level(1) [OF q(2), of j] that by simp
    show thesis using that [OF e pin_frame_trans [OF q(2) r(2)] lv] r(4) d q(3) by simp
  qed
qed

text \<open>A property of the loop over distinct lines: each line is treated once, in the state it had.\<close>

definition lines_frame :: "nat set \<Rightarrow> ioapic \<Rightarrow> ioapic \<Rightarrow> bool" where
  "lines_frame J p p' \<longleftrightarrow> ioapic_inv p' \<and> out_events p' = out_events p \<and> resample_events p' = resample_events p \<and>
     (8 \<notin> J \<longrightarrow> rtc_remote_irr p' = rtc_remote_irr p) \<and>
     (\<forall>k. k \<notin> J \<longrightarrow> redirect_table p' ! k = redirect_table p ! k \<and> interrupt_level p' ! k = interrupt_level p ! k \<and>
        count_list (injections p') k = count_list (injections p) k) \<and>
     (\<forall>k. same_config (redirect_table p ! k) (redirect_table p' ! k))"

lemma lines_frame_pin: "pin_frame j p q \<Longrightarrow> lines_frame J q r \<Longrightarrow> lines_frame (insert j J) p r"
  unfolding pin_frame_def lines_frame_def same_config_def by (clarsimp, metis)

lemma lines_frame_refl: "ioapic_inv p \<Longrightarrow> lines_frame {} p p"
  by (simp add: lines_frame_def same_config_def)

lemma eoi_loop_effect:
  assumes "ioapic_inv p" "good_env env" "set js \<subseteq> {..<24}" "distinct js"
  shows "\<exists>p'. eoi_loop env vec js p = Some p' \<and> lines_frame (set js) p p' \<and>
    (\<forall>i. get_trigger_mode (redirect_table p ! i) = Level \<longrightarrow> balanced i (if get_vector (redirect_table p ! i) = vec then 1 else 0) p p') \<and>
    (\<forall>i \<in> set js. acked p i vec \<longrightarrow> deliverable_on_ack env p i \<longrightarrow> count_list (injections p') i = count_list (injections p) i + 1)"
  using assms
proof (induction js arbitrary: p)
  case Nil
  then show ?case using lines_frame_refl by (auto simp: balanced_def)
next
  case (Cons j js)
  obtain q where q: "eoi_pin env vec j p = Some q" "pin_frame j p q"
    "get_trigger_mode (redirect_table p ! j) = Level \<Longrightarrow> balanced j (if get_vector (redirect_table p ! j) = vec then 1 else 0) p q"
    "acked p j vec \<Longrightarrow> deliverable_on_ack env p j \<Longrightarrow> count_list (injections q) j = count_list (injections p) j + 1"
    using eoi_pin_effect [OF Cons.prems(1,2), of j vec] Cons.prems(3) by (metis insert_subset list.simps(15) lessThan_iff)
  obtain r where r: "eoi_loop env vec js q = Some r" "lines_frame (set js) q r"
    "\<forall>i. get_trigger_mode (redirect_table q ! i) = Level \<longrightarrow> balanced i (if get_vector (redirect_table q ! i) = vec then 1 else 0) q r"
    "\<forall>i \<in> set js. acked q i vec \<longrightarrow> deliverable_on_ack env q i \<longrightarrow> count_list (injections r) i = count_list (injections q) i + 1"
    using Cons.IH [OF pin_frame_inv [OF q(2)] Cons.prems(2)] Cons.prems(3,4) by auto
  have nj: "j \<notin> set js" using Cons.prems(4) by simp
  have "balanced i (if get_vector (redirect_table p ! i) = vec then 1 else 0) p r"
    if l: "get_trigger_mode (redirect_table p ! i) = Level" for i
  proof (cases "i = j")
    case True
    have "balanced j 0 q r" using r(2) nj by (simp add: lines_frame_def balanced_def in_service_def)
    then show ?thesis using balanced_trans [OF q(3)] l True by force
  next
    case False
    have "balanced i (if get_vector (redirect_table q ! i) = vec then 1 else 0) q r" using r(3) l frame_level(1) [OF q(2)] by simp
    then show ?thesis using balanced_trans [OF balanced_other [OF q(2) False]] frame_level(2) [OF q(2), of i] by force
  qed
  moreover have "count_list (injections r) i = count_list (injections p) i + 1"
    if i: "i \<in> set (j # js)" "acked p i vec" "deliverable_on_ack env p i" for i
  proof (cases "i = j")
    case True
    then show ?thesis using q(4) i r(2) nj by (simp add: lines_frame_def)
  next
    case False
    then have u: "redirect_table q ! i = redirect_table p ! i" "interrupt_level q ! i = interrupt_level p ! i"
      "count_list (injections q) i = count_list (injections p) i" "out_events q = out_events p" "resample_events q = resample_events p"
      using q(2) unfolding pin_frame_def by auto
    have "i = 8 \<Longrightarrow> rtc_remote_irr q = rtc_remote_irr p" using q(2) False unfolding pin_frame_def by auto
    then have "acked q i vec" "deliverable_on_ack env q i"
      using i(2,3) u by (auto simp: acked_def deliverable_on_ack_def has_resample_def)
    then show ?thesis using r(4) i(1) False u(3) by auto
  qed
  ultimately show ?case using q(1) r(1) lines_frame_pin [OF q(2) r(2)] by auto
qed

lemma end_of_interrupt_effect:
  assumes "ioapic_inv p" "good_env env"
  obtains p' where "end_of_interrupt env p vec = Some p'" "ioapic_inv p'"
    "\<And>i. get_trigger_mode (redirect_table p ! i) = Level \<Longrightarrow> balanced i (if get_vector (redirect_table p ! i) = vec then 1 else 0) p p'"
    "\<And>i. i < 24 \<Longrightarrow> acked p i vec \<Longrightarrow> deliverable_on_ack env (p\<lparr>rtc_remote_irr := False\<rparr>) i \<Longrightarrow>
       count_list (injections p') i = count_list (injections p) i + 1"
    "\<And>i. same_config (redirect_table p ! i) (redirect_table p' ! i)"
proof -
  define q where "q = (if get_vector (redirect_table p ! 8) = vec \<and> rtc_remote_irr p then p\<lparr>rtc_remote_irr := False\<rparr> else p)"
  have q: "ioapic_inv q" "redirect_table q = redirect_table p" "injections q = injections p" "num_pins q = 24"
    "interrupt_level q = interrupt_level p" "out_events q = out_events p" "resample_events q = resample_events p"
    using assms(1) by (simp_all add: q_def ioapic_inv_def)
  have v: "vec_at (redirect_table p) 8 = Some (redirect_table p ! 8)" using assms(1) by (simp add: vec_at_def ioapic_inv_def)
  obtain r where r: "eoi_loop env vec [0..<24] q = Some r" "lines_frame (set [0..<24]) q r"
    "\<forall>i. get_trigger_mode (redirect_table q ! i) = Level \<longrightarrow> balanced i (if get_vector (redirect_table q ! i) = vec then 1 else 0) q r"
    "\<forall>i \<in> set [0..<24]. acked q i vec \<longrightarrow> deliverable_on_ack env q i \<longrightarrow> count_list (injections r) i = count_list (injections q) i + 1"
    using eoi_loop_effect [OF q(1) assms(2), of "[0..<24]" vec] by (metis atLeast_upt distinct_upt order_refl)
  have e: "end_of_interrupt env p vec = Some r"
    using r(1) q(4) unfolding end_of_interrupt_def v by (simp add: q_def)
  have "deliverable_on_ack env q i" if "acked p i vec" "deliverable_on_ack env (p\<lparr>rtc_remote_irr := False\<rparr>) i" for i
    using that q by (auto simp: deliverable_on_ack_def has_resample_def acked_def q_def)
  then have d: "count_list (injections r) i = count_list (injections p) i + 1"
    if "i < 24" "acked p i vec" "deliverable_on_ack env (p\<lparr>rtc_remote_irr := False\<rparr>) i" for i
    using r(4) that q(2,3) by (auto simp: acked_def)
  have b: "balanced i (if get_vector (redirect_table p ! i) = vec then 1 else 0) p r" if "get_trigger_mode (redirect_table p ! i) = Level" for i
    using r(3) that q(2,3) by (auto simp: balanced_def in_service_def)
  have "ioapic_inv r" "\<And>i. same_config (redirect_table p ! i) (redirect_table r ! i)"
    using r(2) q(2) unfolding lines_frame_def by auto
  with that [OF e] b d show thesis by blast
qed

section \<open>Guest writes\<close>

text \<open>Setting up a route changes the outgoing event of its line only.\<close>

definition route_frame :: "nat \<Rightarrow> ioapic \<Rightarrow> ioapic \<Rightarrow> bool" where
  "route_frame j p p' \<longleftrightarrow> (\<exists>log evts. p' = p\<lparr>tube_log := log, out_events := evts\<rparr> \<and> length evts = length (out_events p) \<and>
     (\<forall>k. k \<noteq> j \<longrightarrow> evts ! k = out_events p ! k))"

lemma route_frame_refl: "route_frame j p p"
  unfolding route_frame_def by (intro exI [of _ "tube_log p"] exI [of _ "out_events p"]) simp

lemma route_frame_trans:
  assumes "route_frame j p q" "route_frame j q r"
  shows "route_frame j p r"
proof -
  obtain l e where q: "q = p\<lparr>tube_log := l, out_events := e\<rparr>" "length e = length (out_events p)" "\<forall>k. k \<noteq> j \<longrightarrow> e ! k = out_events p ! k"
    using assms(1) unfolding route_frame_def by blast
  obtain l' e' where r: "r = q\<lparr>tube_log := l', out_events := e'\<rparr>" "length e' = length (out_events q)" "\<forall>k. k \<noteq> j \<longrightarrow> e' ! k = out_events q ! k"
    using assms(2) unfolding route_frame_def by blast
  show ?thesis unfolding route_frame_def using q r by (intro exI [of _ l'] exI [of _ e']) simp
qed

lemma route_frame_log: "route_frame j p (p\<lparr>tube_log := log\<rparr>)"
  unfolding route_frame_def by (intro exI [of _ log] exI [of _ "out_events p"]) simp

lemma route_frame_event: "route_frame j p (p\<lparr>tube_log := log, out_events := (out_events p)[j := x]\<rparr>)"
  unfolding route_frame_def by (intro exI [of _ log] exI [of _ "(out_events p)[j := x]"]) simp

lemma tube_request_eq: "tube_request env r p = (p\<lparr>tube_log := r # tube_log p\<rparr>, tube_peer env (r # tube_log p))"
  by (simp add: tube_request_def)

lemma out_gsi_for_total:
  assumes "good_env env" "j < length (out_events p)"
  shows "\<exists>p' r. out_gsi_for env p j = Some (p', r) \<and> route_frame j p p' \<and> (\<forall>g. r = Ok g \<longrightarrow> out_events p' ! j \<noteq> None)"
proof -
  have v: "vec_at (out_events p) j = Some (out_events p ! j)" using assms(2) by (simp add: vec_at_def)
  show ?thesis
  proof (cases "out_events p ! j")
    case (Some evt)
    then have "out_gsi_for env p j = Some (p, Ok (out_gsi evt))" using v by (simp add: out_gsi_for_def)
    with Some route_frame_refl [of j p] show ?thesis by blast
  next
    case None
    show ?thesis
    proof (cases "create_event env (tube_log p)")
      case (Err e)
      then have "out_gsi_for env p j = Some (p, Err (CreateEvent e))" using v None by (simp add: out_gsi_for_def)
      with route_frame_refl [of j p] show ?thesis by blast
    next
      case (Ok ev)
      define log where "log = AllocateOneMsi ev j # tube_log p"
      let ?q = "p\<lparr>tube_log := log\<rparr>"
      have o: "out_gsi_for env p j = (case tube_peer env log of
          SendFails \<Rightarrow> Some (?q, Err AllocateOneMsiSend) | RecvFails \<Rightarrow> Some (?q, Err AllocateOneMsiRecv)
        | Response (RespAllocateOneMsi gsi) \<Rightarrow> Some (?q\<lparr>out_events := (out_events p)[j := Some \<lparr>out_gsi = gsi, out_handle = ev, out_snapshot = None\<rparr>]\<rparr>, Ok gsi)
        | Response (RespErr e) \<Rightarrow> Some (?q, Err (AllocateOneMsiErr e)) | Response RespOk \<Rightarrow> None)"
        unfolding out_gsi_for_def v tube_request_eq
        using None Ok by (simp add: log_def split: tube_outcome.split vm_irq_response.split)
      have n: "tube_peer env log \<noteq> Response RespOk" using assms(1) by (simp add: good_env_def log_def)
      show ?thesis
        unfolding o using n route_frame_log [of j p log] route_frame_event [of j p _ log] assms(2)
        by (cases "tube_peer env log" rule: tube_outcome.exhaust) (auto split: vm_irq_response.split)
    qed
  qed
qed

lemma add_route_total:
  assumes "j < length (out_events p)" "out_events p ! j \<noteq> None"
  shows "\<exists>p' r. add_route env p j gsi a d = Some (p', r) \<and> route_frame j p p'"
proof -
  obtain evt where evt: "out_events p ! j = Some evt" using assms(2) by auto
  define log where "log = AddMsiRoute gsi a d # tube_log p"
  let ?q = "p\<lparr>tube_log := log\<rparr>"
  let ?s = "?q\<lparr>out_events := (out_events p)[j := Some (evt\<lparr>out_snapshot := Some \<lparr>snap_gsi = gsi, snap_msi_address = a, snap_msi_data = d\<rparr>\<rparr>)]\<rparr>"
  have o: "add_route env p j gsi a d = (case tube_peer env log of
      SendFails \<Rightarrow> Some (?q, Err AddMsiRouteSend) | RecvFails \<Rightarrow> Some (?q, Err AddMsiRouteRecv)
    | Response (RespErr e) \<Rightarrow> Some (?q, Err (AddMsiRouteErr e)) | Response _ \<Rightarrow> Some (?s, Ok ()))"
    using assms(1) evt by (simp add: add_route_def tube_request_eq log_def vec_at_def split: tube_outcome.split vm_irq_response.split)
  show ?thesis
    unfolding o using route_frame_log [of j p log] route_frame_event [of j p _ log]
    by (cases "tube_peer env log" rule: tube_outcome.exhaust) (auto split: vm_irq_response.split)
qed

lemma route_frame_keeps:
  assumes "route_frame j p p'"
  shows "redirect_table p' = redirect_table p" "interrupt_level p' = interrupt_level p" "injections p' = injections p"
    "rtc_remote_irr p' = rtc_remote_irr p" "resample_events p' = resample_events p" "num_pins p' = num_pins p"
    "ioregsel p' = ioregsel p" "length (out_events p') = length (out_events p)"
  using assms unfolding route_frame_def by auto

lemma setup_msi_total:
  assumes "good_env env" "j < length (out_events p)"
  shows "\<exists>p' r. setup_msi env p j a d = Some (p', r) \<and> route_frame j p p'"
proof (cases "d = 0")
  case True
  then show ?thesis using route_frame_refl by (auto simp: setup_msi_def)
next
  case False
  obtain q r where q: "out_gsi_for env p j = Some (q, r)" "route_frame j p q" "\<forall>g. r = Ok g \<longrightarrow> out_events q ! j \<noteq> None"
    using out_gsi_for_total [OF assms] by blast
  show ?thesis
  proof (cases r)
    case (Err e)
    then show ?thesis using False q by (simp add: setup_msi_def)
  next
    case (Ok g)
    obtain s r' where s: "add_route env q j g a d = Some (s, r')" "route_frame j q s"
      using add_route_total [of j q env g a d] q(3) Ok assms(2) route_frame_keeps(8) [OF q(2)] by auto
    have "setup_msi env p j a d = Some (s, r')" using False q(1) Ok s(1) by (simp add: setup_msi_def)
    then show ?thesis using route_frame_trans [OF q(2) s(2)] by blast
  qed
qed

lemma write_entry_level: "get_trigger_mode (write_entry e h val) = Level \<longleftrightarrow> (if h then get_trigger_mode e = Level else bit val 15)"
  by (simp add: write_entry_trigger entry_bits)

lemma write_entry_inv: "(get_remote_irr e \<longrightarrow> get_trigger_mode e = Level) \<Longrightarrow>
    get_remote_irr (write_entry e h val) \<longrightarrow> get_trigger_mode (write_entry e h val) = Level"
  by (auto simp: write_entry_remote write_entry_level)

text \<open>A write that keeps line \<open>i\<close> level triggered with its vector.\<close>

definition keeps_line :: "ioapic \<Rightarrow> nat \<Rightarrow> u32 \<Rightarrow> bool" where
  "keeps_line p i val \<longleftrightarrow> (decode_irq_from_selector (ioregsel p) = Some (i, False) \<longrightarrow>
     bit val 15 \<and> ucast val = get_vector (redirect_table p ! i))"

lemma program_effect:
  fixes h :: bool and val :: u32
  assumes "ioapic_inv p" "j < 24" "good_env env"
  defines "q \<equiv> p\<lparr>redirect_table := (redirect_table p)[j := write_entry (redirect_table p ! j) h val]\<rparr>"
  shows "\<exists>r. (if get_trigger_mode (write_entry (redirect_table p ! j) h val) = Level then do {
            line \<leftarrow> vec_at (interrupt_level q) j;
            if line \<and> \<not> get_interrupt_mask (write_entry (redirect_table p ! j) h val)
            then map_option fst (io_service_irq env q j True) else Some q
          } else Some q) = Some r \<and> pin_frame j q r \<and> (get_trigger_mode (redirect_table q ! j) = Level \<longrightarrow> balanced j 0 q r)"
proof -
  let ?e = "write_entry (redirect_table p ! j) h val"
  have q: "ioapic_inv q" "redirect_table q ! j = ?e"
    using assms(1,2) write_entry_inv by (auto simp: q_def ioapic_inv_def nth_list_update)
  have v: "vec_at (interrupt_level q) j = Some (interrupt_level q ! j)" using q(1) assms(2) by (simp add: vec_at_def ioapic_inv_def)
  have triv: "pin_frame j q q" "balanced j 0 q q" using pin_frame_refl [OF q(1)] by (simp_all add: balanced_def)
  obtain r res where r: "io_service_irq env q j True = Some (r, res)" "pin_frame j q r"
    "get_trigger_mode (redirect_table q ! j) = Level \<Longrightarrow> balanced j 0 q r"
    using service_pin [OF q(1) assms(2), of env True] by metis
  show ?thesis
    using v triv r by (cases "get_trigger_mode ?e = Level"; cases "interrupt_level q ! j \<and> \<not> get_interrupt_mask ?e") auto
qed

lemma programmed_line:
  assumes "ioapic_inv p" "i < 24" "j < 24" "get_trigger_mode (redirect_table p ! i) = Level"
    "i = j \<Longrightarrow> \<not> h \<Longrightarrow> bit val 15 \<and> ucast val = get_vector (redirect_table p ! i)"
  defines "q \<equiv> p\<lparr>redirect_table := (redirect_table p)[j := write_entry (redirect_table p ! j) h val]\<rparr>"
  shows "balanced i 0 p q" "get_trigger_mode (redirect_table q ! i) = Level"
    "get_vector (redirect_table q ! i) = get_vector (redirect_table p ! i)"
  using assms by (auto simp: q_def ioapic_inv_def balanced_def in_service_def nth_list_update write_entry_remote
      write_entry_level write_entry_vector)

lemma ioapic_write_effect:
  assumes "ioapic_inv p" "good_env env"
  shows "\<exists>p'. ioapic_write env p val = Some p' \<and> ioapic_inv p' \<and>
    (\<forall>i < 24. get_trigger_mode (redirect_table p ! i) = Level \<longrightarrow> keeps_line p i val \<longrightarrow>
       balanced i 0 p p' \<and> get_trigger_mode (redirect_table p' ! i) = Level \<and>
       get_vector (redirect_table p' ! i) = get_vector (redirect_table p ! i))"
proof -
  have triv: "balanced i 0 p p" "balanced i 0 p (p\<lparr>ioapicid := x\<rparr>)" "ioapic_inv (p\<lparr>ioapicid := x\<rparr>)" for i x
    using assms(1) by (simp_all add: balanced_def in_service_def ioapic_inv_def)
  consider "ioregsel p < 0x10" | "\<not> ioregsel p < 0x10" by blast
  then show ?thesis
  proof cases
    case 1
    then show ?thesis using triv assms(1) by (simp add: ioapic_write_def)
  next
    case 2
    define j where "j = unat ((ioregsel p - 0x10) div 2)"
    define h where "h = (ioregsel p AND 1 \<noteq> 0)"
    have sel: "ioregsel p \<noteq> 0" "ioregsel p \<noteq> 1" "ioregsel p \<noteq> 2" using 2 by auto
    have dec: "decode_irq_from_selector (ioregsel p) = Some (j, h)"
      using 2 by (simp add: decode_irq_from_selector_def checked_sub_def j_def h_def)
    show ?thesis
    proof (cases "j < 24")
      case False
      then have "ioapic_write env p val = Some p" using assms(1) sel 2 dec by (simp add: ioapic_write_def ioapic_inv_def)
      then show ?thesis using triv assms(1) by simp
    next
      case True
      define e where "e = write_entry (redirect_table p ! j) h val"
      define q where "q = p\<lparr>redirect_table := (redirect_table p)[j := e]\<rparr>"
      note pe = program_effect [OF assms(1) True assms(2), of h val, folded e_def, folded q_def]
      obtain r where r: "(if get_trigger_mode e = Level then do { line \<leftarrow> vec_at (interrupt_level q) j;
            if line \<and> \<not> get_interrupt_mask e then map_option fst (io_service_irq env q j True) else Some q } else Some q) = Some r"
        "pin_frame j q r" "get_trigger_mode (redirect_table q ! j) = Level \<longrightarrow> balanced j 0 q r" using pe by blast
      note ri = pin_frame_inv [OF r(2)]
      have v: "vec_at (redirect_table p) j = Some (redirect_table p ! j)" "vec_at (redirect_table r) j = Some (redirect_table r ! j)"
        "j < length (out_events r)" "num_pins p = 24"
        using assms(1) ri True by (simp_all add: vec_at_def ioapic_inv_def)
      obtain s res where s: "setup_msi env r j (msi_address_of (redirect_table r ! j)) (msi_data_of (redirect_table r ! j)) = Some (s, res)"
        "route_frame j r s" using setup_msi_total [OF assms(2) v(3)] by blast
      note sk = route_frame_keeps [OF s(2)]
      have "ioapic_write env p val = Some s"
        using sel 2 True v(4) unfolding ioapic_write_def dec v(1) bind.bind_lunit
        by (simp add: v(1) e_def [symmetric] q_def [symmetric] r(1) v(2) s(1))
      moreover have "ioapic_inv s" using ri sk by (simp add: ioapic_inv_def)
      moreover have "balanced i 0 p s \<and> get_trigger_mode (redirect_table s ! i) = Level \<and>
          get_vector (redirect_table s ! i) = get_vector (redirect_table p ! i)"
        if i: "i < 24" "get_trigger_mode (redirect_table p ! i) = Level" "keeps_line p i val" for i
      proof -
        have k: "i = j \<Longrightarrow> \<not> h \<Longrightarrow> bit val 15 \<and> ucast val = get_vector (redirect_table p ! i)"
          using i(3) dec by (simp add: keeps_line_def)
        note pl = programmed_line [where h = h, OF assms(1) i(1) True i(2) k, folded e_def, folded q_def]
        have "balanced i 0 q r" using r(2,3) pl(2) balanced_other by (cases "i = j") auto
        then have "balanced i 0 p r" using balanced_trans [OF pl(1)] by simp
        then show ?thesis using sk frame_level [OF r(2), of i] pl(2,3) by (simp add: balanced_def in_service_def)
      qed
      ultimately show ?thesis by blast
    qed
  qed
qed

section \<open>The bus contract\<close>

definition ioapic_fine :: "ioapic_env \<Rightarrow> ioapic \<Rightarrow> bool" where
  "ioapic_fine env p \<longleftrightarrow> good_env env \<and> ioapic_inv p"

lemma length_u32_bytes [simp]: "length (u32_bytes n w) = n"
  by (induction n arbitrary: w) simp_all

lemma ioapic_read_total: "ioapic_inv p \<Longrightarrow> \<exists>v. ioapic_read p = Some v"
  by (auto simp: ioapic_read_def assert_that_def ioapic_inv_def decode_irq_from_selector_def checked_sub_def vec_at_def)

lemma ioapic_bus_read_fine:
  assumes "ioapic_fine env p"
  shows "\<exists>p' ys. ioapic_bus_read p io xs = Some (p', ys) \<and> ioapic_fine env p' \<and> length ys = length xs"
proof -
  obtain v where "ioapic_read p = Some v" using ioapic_read_total assms by (auto simp: ioapic_fine_def)
  moreover have "min 4 (length xs) + (length xs - 4) = length xs" by arith
  ultimately show ?thesis using assms by (simp add: ioapic_bus_read_def Let_def)
qed

lemma ioapic_bus_write_fine:
  assumes "ioapic_fine env p"
  shows "\<exists>p'. ioapic_bus_write env p io xs = Some p' \<and> ioapic_fine env p'"
proof -
  have f: "ioapic_inv p" "good_env env" using assms by (auto simp: ioapic_fine_def)
  obtain q where "ioapic_write env p (u32_of_bytes xs) = Some q" "ioapic_inv q" using ioapic_write_effect [OF f] by blast
  moreover obtain r where "end_of_interrupt env p (hd xs) = Some r" "ioapic_inv r" by (rule end_of_interrupt_effect [OF f])
  moreover have "ioapic_inv (p\<lparr>ioregsel := hd xs\<rparr>)" using f(1) by (simp add: ioapic_inv_def)
  ultimately show ?thesis using assms f(2) by (simp add: ioapic_bus_write_def ioapic_fine_def Let_def)
qed

interpretation ioapic_device: io_device ioapic_bus_read "ioapic_bus_write env" "ioapic_fine env" for env
  by unfold_locales (auto intro: ioapic_bus_read_fine ioapic_bus_write_fine)

section \<open>Properties\<close>

datatype ioapic_op = Line nat bool | Eoi u8 | Program u8 u32

fun ioapic_step :: "ioapic_env \<Rightarrow> ioapic \<Rightarrow> ioapic_op \<Rightarrow> ioapic option" where
  "ioapic_step env p (Line irq level) = map_option fst (io_service_irq env p irq level)"
| "ioapic_step env p (Eoi vec) = end_of_interrupt env p vec"
| "ioapic_step env p (Program sel val) = ioapic_write env (p\<lparr>ioregsel := sel\<rparr>) val"

fun ioapic_run :: "ioapic_env \<Rightarrow> ioapic \<Rightarrow> ioapic_op list \<Rightarrow> ioapic option" where
  "ioapic_run env p [] = Some p"
| "ioapic_run env p (op # ops) = do { p \<leftarrow> ioapic_step env p op; ioapic_run env p ops }"

fun op_keeps :: "nat \<Rightarrow> u8 \<Rightarrow> ioapic_op \<Rightarrow> bool" where
  "op_keeps i vec (Line irq level) \<longleftrightarrow> irq < 24"
| "op_keeps i vec (Eoi v) \<longleftrightarrow> True"
| "op_keeps i vec (Program sel val) \<longleftrightarrow> (decode_irq_from_selector sel = Some (i, False) \<longrightarrow> bit val 15 \<and> ucast val = vec)"

definition level_line :: "ioapic \<Rightarrow> nat \<Rightarrow> u8 \<Rightarrow> bool" where
  "level_line p i vec \<longleftrightarrow> get_trigger_mode (redirect_table p ! i) = Level \<and> get_vector (redirect_table p ! i) = vec"

lemma ioapic_step_effect:
  assumes "ioapic_inv p" "good_env env" "i < 24" "level_line p i vec" "op_keeps i vec op"
  shows "\<exists>p'. ioapic_step env p op = Some p' \<and> ioapic_inv p' \<and> level_line p' i vec \<and> balanced i (if op = Eoi vec then 1 else 0) p p'"
proof (cases op)
  case (Line irq level)
  then have "irq < 24" using assms(5) by simp
  then obtain p' r where p': "io_service_irq env p irq level = Some (p', r)" "pin_frame irq p p'"
    "get_trigger_mode (redirect_table p ! irq) = Level \<Longrightarrow> balanced irq 0 p p'" 
    by (rule service_pin [OF assms(1), of irq env level]) blast
  have "balanced i 0 p p'" using p'(2,3) assms(4) balanced_other by (cases "i = irq") (auto simp: level_line_def)
  then show ?thesis
    using Line p'(1) pin_frame_inv [OF p'(2)] frame_level [OF p'(2), of i] assms(4) by (simp add: level_line_def)
next
  case (Eoi v)
  obtain p' where "end_of_interrupt env p v = Some p'" "ioapic_inv p'"
    "\<And>i. get_trigger_mode (redirect_table p ! i) = Level \<Longrightarrow> balanced i (if get_vector (redirect_table p ! i) = v then 1 else 0) p p'"
    "\<And>i. same_config (redirect_table p ! i) (redirect_table p' ! i)" by (rule end_of_interrupt_effect [OF assms(1,2)]) blast
  note p' = this(1,2) this(3) [of i] this(4) [of i]
  then show ?thesis using Eoi assms(4) by (auto simp: level_line_def same_config_def split: if_splits)
next
  case (Program sel val)
  let ?q = "p\<lparr>ioregsel := sel\<rparr>"
  have "ioapic_inv ?q" using assms(1) by (simp add: ioapic_inv_def)
  then obtain p' where p': "ioapic_write env ?q val = Some p'" "ioapic_inv p'"
    "\<forall>i < 24. get_trigger_mode (redirect_table ?q ! i) = Level \<longrightarrow> keeps_line ?q i val \<longrightarrow>
       balanced i 0 ?q p' \<and> get_trigger_mode (redirect_table p' ! i) = Level \<and>
       get_vector (redirect_table p' ! i) = get_vector (redirect_table ?q ! i)"
    using ioapic_write_effect [OF _ assms(2)] by blast
  have "keeps_line ?q i val" using assms(4,5) Program by (auto simp: keeps_line_def level_line_def)
  then show ?thesis using p' assms(3,4) Program by (simp add: level_line_def balanced_def in_service_def)
qed

text \<open>C18: Level-triggered interrupts are coalesced.  Through every sequence of line changes,
  acknowledgements and guest writes that leave the line level triggered with its vector, nothing
  panics, and a line is delivered at most once more than its vector is acknowledged; the pending
  request bit accounts for the difference.\<close>

theorem ioapic_coalesces_level_interrupts:
  assumes "ioapic_inv p" "good_env env" "i < 24" "level_line p i vec" "list_all (op_keeps i vec) ops"
  shows "\<exists>p'. ioapic_run env p ops = Some p' \<and> ioapic_inv p' \<and> level_line p' i vec \<and>
    count_list (injections p') i + in_service p i \<le> count_list (injections p) i + in_service p' i + count_list ops (Eoi vec)"
  using assms
proof (induction ops arbitrary: p)
  case (Cons op ops)
  obtain q where q: "ioapic_step env p op = Some q" "ioapic_inv q" "level_line q i vec" "balanced i (if op = Eoi vec then 1 else 0) p q"
    using ioapic_step_effect [OF Cons.prems(1-4), of op] Cons.prems(5) by auto
  obtain r where r: "ioapic_run env q ops = Some r" "ioapic_inv r" "level_line r i vec" "balanced i (count_list ops (Eoi vec)) q r"
    using Cons.IH [OF q(2) Cons.prems(2,3) q(3)] Cons.prems(5) by (auto simp: balanced_def)
  show ?case using q(1) r(1-3) balanced_trans [OF q(4) r(4)] by (auto simp: balanced_def)
qed simp

definition demo_env :: ioapic_env where
  "demo_env = \<lparr>create_event = (\<lambda>log. Ok (length log)), signal_ok = (\<lambda>_. True),
     tube_peer = (\<lambda>log. case log of AllocateOneMsi _ _ # _ \<Rightarrow> Response (RespAllocateOneMsi 24) | _ \<Rightarrow> Response RespOk)\<rparr>"

lemma demo_env_good: "good_env demo_env"
  by (simp add: good_env_def demo_env_def)

text \<open>Line 5 with vector 0x31, level triggered and routed.\<close>

definition demo_ioapic :: ioapic where
  "demo_ioapic = \<lparr>num_pins = 24, ioregsel = 0, ioapicid = 0, rtc_remote_irr = False,
     out_events = (replicate 24 None)[5 := Some \<lparr>out_gsi = 24, out_handle = 0, out_snapshot = None\<rparr>], resample_events = [],
     redirect_table = (replicate 24 0x10000)[5 := 0x8031], interrupt_level = replicate 24 False, tube_log = [],
     injections = [], resamples = []\<rparr>"

lemma demo_ioapic_inv: "ioapic_inv demo_ioapic"
proof -
  have "list_all (\<lambda>e. get_remote_irr e \<longrightarrow> get_trigger_mode e = Level) (redirect_table demo_ioapic)"
    "num_pins demo_ioapic = 24" "length (redirect_table demo_ioapic) = 24" "length (interrupt_level demo_ioapic) = 24"
    "length (out_events demo_ioapic) = 24" by code_simp+
  then show ?thesis by (simp add: ioapic_inv_def list_all_length)
qed

theorem ioapic_coalesces_level_interrupts_witness:
  "\<exists>p'. ioapic_run demo_env demo_ioapic [Line 5 True, Line 5 True, Eoi 0x31, Line 5 False, Eoi 0x31, Line 5 True] = Some p' \<and>
    injections p' = [5, 5, 5] \<and> count_list (injections p') 5 \<le> 2 + in_service p' 5"
proof -
  let ?ops = "[Line 5 True, Line 5 True, Eoi 0x31, Line 5 False, Eoi 0x31, Line 5 True]"
  have k: "level_line demo_ioapic 5 0x31" "list_all (op_keeps 5 0x31) ?ops" "injections demo_ioapic = []" "in_service demo_ioapic 5 = 0"
    "count_list ?ops (Eoi 0x31) = 2" "map_option injections (ioapic_run demo_env demo_ioapic ?ops) = Some [5, 5, 5]"
    by code_simp+
  show ?thesis
    using ioapic_coalesces_level_interrupts [OF demo_ioapic_inv demo_env_good _ k(1,2)] k(3-6) by auto
qed




end
