(* ===== verification/Irq_Requests.thy ===== *)
theory Irq_Requests
  imports System_Allocator Ioapic_Delivery
begin

text \<open>
Interrupt numbers of the I/O interrupt controller.  The main thread executes the requests that the controller
sends over its tube, \<open>VmIrqRequest::execute\<close>, with the system allocator.  Driven by its guest, the controller
never has two lines with one number, and all numbers it uses are allocated; restoring a snapshot breaks this.
\<close>

section \<open>Executing a request\<close>

text \<open>What a request applies to the interrupt chip.  The chip is a parameter: a state and what applying an
  \<open>IrqSetup\<close> does to it.\<close>

datatype irq_setup = SetupEvent u32 nat nat | SetupRoute u32 u64 u32 | SetupUnRegister u32 nat

fun execute :: "('c \<Rightarrow> irq_setup \<Rightarrow> 'c \<times> (unit, int) result) \<Rightarrow> vm_irq_request \<Rightarrow> system_allocator \<times> 'c
    \<Rightarrow> ((system_allocator \<times> 'c) \<times> vm_irq_response) option" where
  "execute set_up_irq (AllocateOneMsi irqfd queue_id) (s, c) = do {
     (s, irq) \<leftarrow> allocate_irq s;
     case irq of
       Some irq_num \<Rightarrow>
         (case set_up_irq c (SetupEvent irq_num irqfd queue_id) of
           (c, Ok _) \<Rightarrow> Some ((s, c), RespAllocateOneMsi irq_num)
         | (c, Err e) \<Rightarrow> Some ((s, c), RespErr e))
     | None \<Rightarrow> Some ((s, c), RespErr 22)
   }"
| "execute set_up_irq (AllocateOneMsiAtGsi irqfd gsi queue_id) (s, c) =
     (case set_up_irq c (SetupEvent gsi irqfd queue_id) of
       (c, Ok _) \<Rightarrow> Some ((s, c), RespOk)
     | (c, Err e) \<Rightarrow> Some ((s, c), RespErr e))"
| "execute set_up_irq (AddMsiRoute gsi msi_address msi_data) (s, c) =
     (case set_up_irq c (SetupRoute gsi msi_address msi_data) of
       (c, Ok _) \<Rightarrow> Some ((s, c), RespOk)
     | (c, Err e) \<Rightarrow> Some ((s, c), RespErr e))"
| "execute set_up_irq (ReleaseOneIrq gsi irqfd) (s, c) =
     Some ((release_irq s gsi, fst (set_up_irq c (SetupUnRegister gsi irqfd))), RespOk)"

text \<open>The main thread executes the requests of the controller one after the other, the last one first in
  the log; once it has panicked, nothing is received.\<close>

fun serve :: "('c \<Rightarrow> irq_setup \<Rightarrow> 'c \<times> (unit, int) result) \<Rightarrow> system_allocator \<times> 'c \<Rightarrow> vm_irq_request list
    \<Rightarrow> ((system_allocator \<times> 'c) \<times> vm_irq_response) option" where
  "serve set_up_irq m [] = Some (m, RespOk)"
| "serve set_up_irq m (r # log) = do { (m, _) \<leftarrow> serve set_up_irq m log; execute set_up_irq r m }"

definition main_thread :: "('c \<Rightarrow> irq_setup \<Rightarrow> 'c \<times> (unit, int) result) \<Rightarrow> system_allocator \<times> 'c
    \<Rightarrow> (vm_irq_request list \<Rightarrow> (nat, int) result) \<Rightarrow> ioapic_env" where
  "main_thread set_up_irq m events = \<lparr>create_event = events, signal_ok = (\<lambda>_. True),
     tube_peer = (\<lambda>log. case serve set_up_irq m log of Some (_, resp) \<Rightarrow> Response resp | None \<Rightarrow> RecvFails)\<rparr>"

lemma main_thread_good: "good_env (main_thread set_up_irq m events)"
  by (auto simp: good_env_def main_thread_def split: option.splits prod.splits result.splits Option.bind_splits)

lemma allocate_irq_result:
  assumes "allocate_irq s = Some (t, irq)" "sys_inv s"
  shows "sys_inv t" "allocated (irq_allocator s) \<subseteq> allocated (irq_allocator t)"
    "irq = Some g \<Longrightarrow> ucast g \<notin> allocated (irq_allocator s) \<and> ucast g \<in> allocated (irq_allocator t)"
proof -
  have a: "next_anon_id s \<noteq> - 1"
  proof
    assume "next_anon_id s = - 1"
    then have "checked_add (next_anon_id s) 1 = None" by (simp add: checked_add_def unsigned_minus_1_eq_mask mask_eq_exp_minus_1)
    then show False using assms(1) by (simp add: allocate_irq_def get_anon_alloc_def)
  qed
  have d: "free (irq_allocator s) \<inter> allocated (irq_allocator s) = {}"
    using sys_invD(1) [OF assms(2)] allocator_invD(3) by (auto simp: number_pool_ok_def unit_pool.anon_ok_def unit_pool_inv_def)
  show "sys_inv t" by (rule allocate_irq_cases [OF assms(2) a]) (use assms(1) in auto)
  show "allocated (irq_allocator s) \<subseteq> allocated (irq_allocator t)"
    by (rule allocate_irq_cases [OF assms(2) a]) (use assms(1) in auto)
  show "irq = Some g \<Longrightarrow> ucast g \<notin> allocated (irq_allocator s) \<and> ucast g \<in> allocated (irq_allocator t)"
    by (rule allocate_irq_cases [OF assms(2) a]) (use assms(1) d in \<open>auto simp: unit_choice_def\<close>)
qed

lemma execute_result:
  assumes "execute set_up_irq r (s, c) = Some ((s', c'), resp)" "sys_inv s"
  shows "sys_inv s'" "(\<And>g e. r \<noteq> ReleaseOneIrq g e) \<Longrightarrow> allocated (irq_allocator s) \<subseteq> allocated (irq_allocator s')"
    "resp = RespAllocateOneMsi g \<Longrightarrow> ucast g \<notin> allocated (irq_allocator s) \<and> ucast g \<in> allocated (irq_allocator s')"
proof -
  note al = allocate_irq_result [OF _ assms(2)]
  show "sys_inv s'"
    using assms al(1) release_irq_cases(1) by (cases r) (auto split: Option.bind_splits option.splits prod.splits result.splits)
  show "(\<And>g e. r \<noteq> ReleaseOneIrq g e) \<Longrightarrow> allocated (irq_allocator s) \<subseteq> allocated (irq_allocator s')"
    using assms al(2) by (cases r) (auto split: Option.bind_splits option.splits prod.splits result.splits)
  show "resp = RespAllocateOneMsi g \<Longrightarrow> ucast g \<notin> allocated (irq_allocator s) \<and> ucast g \<in> allocated (irq_allocator s')"
    using assms al(3) by (cases r) (auto split: Option.bind_splits option.splits prod.splits result.splits)
qed

lemma serve_inv: "serve set_up_irq (s, c) log = Some ((s', c'), resp) \<Longrightarrow> sys_inv s \<Longrightarrow> sys_inv s'"
proof (induction log arbitrary: s' c' resp)
  case (Cons r log)
  then show ?case using execute_result(1) by (fastforce split: Option.bind_splits prod.splits)
qed auto

section \<open>Interrupt numbers of the lines\<close>

text \<open>Operations that deliver or acknowledge send no request and keep the routes.\<close>

definition same_routes :: "ioapic \<Rightarrow> ioapic \<Rightarrow> bool" where
  "same_routes p q \<longleftrightarrow> out_events q = out_events p \<and> tube_log q = tube_log p"

lemma same_routes_trans: "same_routes p q \<Longrightarrow> same_routes q r \<Longrightarrow> same_routes p r"
  by (simp add: same_routes_def)

lemma io_service_irq_routes: "io_service_irq env p irq level = Some (q, b) \<Longrightarrow> same_routes p q"
  by (auto simp: io_service_irq_def same_routes_def Let_def split: Option.bind_splits if_splits)

lemma signal_resamples_routes: "signal_resamples env es p = Some q \<Longrightarrow> same_routes p q"
  by (induction es arbitrary: p) (auto simp: same_routes_def split: Option.bind_splits if_splits)

lemma eoi_pin_routes: "eoi_pin env vec i p = Some q \<Longrightarrow> same_routes p q"
  by (auto simp: eoi_pin_def same_routes_def Let_def split: Option.bind_splits if_splits option.splits list.splits
      dest!: io_service_irq_routes signal_resamples_routes)

lemma eoi_loop_routes: "eoi_loop env vec is p = Some q \<Longrightarrow> same_routes p q"
proof (induction "is" arbitrary: p)
  case (Cons i "is")
  then show ?case using eoi_pin_routes same_routes_trans by (fastforce split: Option.bind_splits)
qed (simp add: same_routes_def)

lemma end_of_interrupt_routes: "end_of_interrupt env p vec = Some q \<Longrightarrow> same_routes p q"
  by (auto simp: end_of_interrupt_def Let_def same_routes_def split: Option.bind_splits if_splits dest!: eoi_loop_routes)

definition line_gsis :: "ioapic \<Rightarrow> u32 option list" where
  "line_gsis p = map (map_option out_gsi) (out_events p)"

definition gsis_distinct :: "u32 option list \<Rightarrow> bool" where
  "gsis_distinct gs \<longleftrightarrow> (\<forall>i < length gs. \<forall>j < length gs. i \<noteq> j \<longrightarrow> gs ! i \<noteq> None \<longrightarrow> gs ! i \<noteq> gs ! j)"

text \<open>The routed lines have different numbers, all of them allocated by the main thread.\<close>

definition gsis_ok :: "('c \<Rightarrow> irq_setup \<Rightarrow> 'c \<times> (unit, int) result) \<Rightarrow> system_allocator \<times> 'c \<Rightarrow> ioapic \<Rightarrow> bool" where
  "gsis_ok set_up_irq m p \<longleftrightarrow> gsis_distinct (line_gsis p) \<and>
     (\<forall>s c resp. serve set_up_irq m (tube_log p) = Some ((s, c), resp) \<longrightarrow>
        sys_inv s \<and> (\<forall>g. Some g \<in> set (line_gsis p) \<longrightarrow> ucast g \<in> allocated (irq_allocator s)))"

lemma same_routes_gsis: "same_routes p q \<Longrightarrow> gsis_ok set_up_irq m p \<Longrightarrow> gsis_ok set_up_irq m q"
  by (simp add: gsis_ok_def same_routes_def line_gsis_def)

text \<open>A request that releases nothing keeps this.\<close>

lemma gsis_request:
  assumes "gsis_ok set_up_irq m p" "\<And>g e. r \<noteq> ReleaseOneIrq g e" "line_gsis q = line_gsis p" "tube_log q = r # tube_log p"
  shows "gsis_ok set_up_irq m q"
proof -
  have "sys_inv s \<and> (\<forall>g. Some g \<in> set (line_gsis p) \<longrightarrow> ucast g \<in> allocated (irq_allocator s))"
    if sv: "serve set_up_irq m (r # tube_log p) = Some ((s, c), resp)" for s c resp
  proof -
    obtain t d resp' where t: "serve set_up_irq m (tube_log p) = Some ((t, d), resp')" "execute set_up_irq r (t, d) = Some ((s, c), resp)"
      using sv by (auto split: Option.bind_splits)
    have "sys_inv t" "\<forall>g. Some g \<in> set (line_gsis p) \<longrightarrow> ucast g \<in> allocated (irq_allocator t)"
      using assms(1) t(1) by (simp_all add: gsis_ok_def)
    then show ?thesis using execute_result(1,2) [OF t(2)] assms(2) by blast
  qed
  then show ?thesis using assms by (auto simp: gsis_ok_def)
qed

lemma distinct_update:
  assumes "gsis_distinct gs" "Some g \<notin> set gs"
  shows "gsis_distinct (gs[j := Some g])"
proof -
  have n: "gs ! i \<noteq> Some g" if "i < length gs" for i using that assms(2) nth_mem by metis
  have "gs[j := Some g] ! i \<noteq> gs[j := Some g] ! k"
    if "i < length gs" "k < length gs" "i \<noteq> k" "gs[j := Some g] ! i \<noteq> None" for i k
    using that assms(1) n [of i] n [of k] by (cases "i = j"; cases "k = j") (auto simp: gsis_distinct_def)
  then show ?thesis by (simp add: gsis_distinct_def)
qed

lemma gsis_allocate:
  assumes "gsis_ok set_up_irq m p" "serve set_up_irq m (AllocateOneMsi e n # tube_log p) = Some ((s, c), RespAllocateOneMsi g)"
    "line_gsis q = (line_gsis p)[j := Some g]" "tube_log q = AllocateOneMsi e n # tube_log p"
  shows "gsis_ok set_up_irq m q"
proof -
  obtain t d resp where t: "serve set_up_irq m (tube_log p) = Some ((t, d), resp)"
    "execute set_up_irq (AllocateOneMsi e n) (t, d) = Some ((s, c), RespAllocateOneMsi g)"
    using assms(2) by (auto simp del: execute.simps split: Option.bind_splits)
  have ok: "gsis_distinct (line_gsis p)" "sys_inv t" "\<And>g. Some g \<in> set (line_gsis p) \<Longrightarrow> ucast g \<in> allocated (irq_allocator t)"
    using assms(1) t(1) by (simp_all add: gsis_ok_def)
  note ex = execute_result [OF t(2) ok(2)]
  have "Some g \<notin> set (line_gsis p)" using ok(3) ex(3) by blast
  then have "gsis_distinct (line_gsis q)" using distinct_update [OF ok(1)] assms(3) by simp
  moreover have "ucast x \<in> allocated (irq_allocator s)" if "Some x \<in> set (line_gsis q)" for x
    using that ok(3) ex(2,3) set_update_subset_insert [of "line_gsis p" j "Some g"] assms(3) by auto
  ultimately show ?thesis using assms(2,4) ex(1) by (simp add: gsis_ok_def)
qed

lemma line_gsis_update: "line_gsis (p\<lparr>out_events := (out_events p)[j := x]\<rparr>) = (line_gsis p)[j := map_option out_gsi x]"
  by (simp add: line_gsis_def map_update)

lemma line_gsis_keep [simp]: "line_gsis (p\<lparr>tube_log := log\<rparr>) = line_gsis p" "line_gsis (p\<lparr>redirect_table := es\<rparr>) = line_gsis p"
  "line_gsis (p\<lparr>ioregsel := sel\<rparr>) = line_gsis p" "line_gsis (p\<lparr>ioapicid := i\<rparr>) = line_gsis p"
  by (simp_all add: line_gsis_def)

lemma gsis_ok_keep [simp]: "gsis_ok set_up_irq m (p\<lparr>redirect_table := es\<rparr>) = gsis_ok set_up_irq m p"
  "gsis_ok set_up_irq m (p\<lparr>ioregsel := sel\<rparr>) = gsis_ok set_up_irq m p" "gsis_ok set_up_irq m (p\<lparr>ioapicid := i\<rparr>) = gsis_ok set_up_irq m p"
  by (simp_all add: gsis_ok_def)

lemma tube_peer_main: "tube_peer (main_thread set_up_irq m events) log =
    (case serve set_up_irq m log of Some (_, resp) \<Rightarrow> Response resp | None \<Rightarrow> RecvFails)"
  by (simp add: main_thread_def)

lemma out_gsi_for_gsis:
  assumes "gsis_ok set_up_irq m p" "out_gsi_for (main_thread set_up_irq m events) p j = Some (q, r)"
  shows "gsis_ok set_up_irq m q"
proof -
  let ?env = "main_thread set_up_irq m events"
  obtain x where x: "vec_at (out_events p) j = Some x" using assms(2) by (auto simp: out_gsi_for_def split: Option.bind_splits)
  show ?thesis
  proof (cases "x = None \<and> (\<exists>ev. create_event ?env (tube_log p) = Ok ev)")
    case False
    then have "q = p" using assms(2) x by (auto simp: out_gsi_for_def split: option.splits result.splits)
    then show ?thesis using assms(1) by simp
  next
    case True
    then obtain ev where ev: "create_event ?env (tube_log p) = Ok ev" by blast
    let ?r = "AllocateOneMsi ev j" 
    let ?p = "p\<lparr>tube_log := ?r # tube_log p\<rparr>"
    show ?thesis
    proof (cases "\<exists>s c g. serve set_up_irq m (?r # tube_log p) = Some ((s, c), RespAllocateOneMsi g)")
      case False
      then have "q = ?p" using assms(2) x True ev unfolding out_gsi_for_def tube_request_eq tube_peer_main
        by (auto simp del: serve.simps split: option.splits vm_irq_response.splits)
      then show ?thesis using gsis_request [OF assms(1), of ?r q] by simp
    next
      case (True)
      then obtain s c g where g: "serve set_up_irq m (?r # tube_log p) = Some ((s, c), RespAllocateOneMsi g)" by blast
      have "q = ?p\<lparr>out_events := (out_events ?p)[j := Some \<lparr>out_gsi = g, out_handle = ev, out_snapshot = None\<rparr>]\<rparr>"
        using assms(2) x \<open>x = None \<and> _\<close> ev g unfolding out_gsi_for_def tube_request_eq tube_peer_main by (simp del: serve.simps)
      then have "line_gsis q = (line_gsis p)[j := Some g]" "tube_log q = ?r # tube_log p"
        using line_gsis_update [of ?p j] by simp_all
      then show ?thesis by (rule gsis_allocate [OF assms(1) g])
    qed
  qed
qed

lemma add_route_gsis:
  assumes "gsis_ok set_up_irq m p" "add_route env p j g a d = Some (q, r)"
  shows "gsis_ok set_up_irq m q"
proof -
  let ?p = "p\<lparr>tube_log := AddMsiRoute g a d # tube_log p\<rparr>"
  have "q = ?p \<or> (\<exists>evt sn. vec_at (out_events p) j = Some (Some evt) \<and> q = ?p\<lparr>out_events := (out_events ?p)[j := Some (evt\<lparr>out_snapshot := sn\<rparr>)]\<rparr>)"
    using assms(2) unfolding add_route_def tube_request_eq
    by (auto split: tube_outcome.splits vm_irq_response.splits Option.bind_splits)
  then have "line_gsis q = line_gsis p \<and> tube_log q = AddMsiRoute g a d # tube_log p"
    by (auto simp: line_gsis_def vec_at_def map_update list_update_same_conv split: if_splits)
  then show ?thesis using gsis_request [OF assms(1)] by blast
qed

lemmas route_gsis = out_gsi_for_gsis [rotated] add_route_gsis [rotated]

lemma setup_msi_gsis:
  assumes "setup_msi (main_thread set_up_irq m events) p j a d = Some (q, r)" "gsis_ok set_up_irq m p"
  shows "gsis_ok set_up_irq m q"
  using assms by (auto simp: setup_msi_def split: if_splits Option.bind_splits result.splits dest!: route_gsis)

lemma io_service_irq_gsis: "io_service_irq env p irq level = Some (q, b) \<Longrightarrow> gsis_ok set_up_irq m p \<Longrightarrow> gsis_ok set_up_irq m q"
  by (rule same_routes_gsis [OF io_service_irq_routes])

lemma ioapic_write_gsis:
  assumes "ioapic_write (main_thread set_up_irq m events) p val = Some q" "gsis_ok set_up_irq m p"
  shows "gsis_ok set_up_irq m q"
  using assms
  by (auto simp: ioapic_write_def Let_def split: if_splits Option.bind_splits dest!: io_service_irq_gsis setup_msi_gsis)

lemma ioapic_step_gsis:
  assumes "ioapic_step (main_thread set_up_irq m events) p op = Some q" "gsis_ok set_up_irq m p"
  shows "gsis_ok set_up_irq m q"
  using assms by (cases op) (auto dest!: io_service_irq_gsis ioapic_write_gsis dest: same_routes_gsis [OF end_of_interrupt_routes])

lemma ioapic_run_gsis:
  "ioapic_run (main_thread set_up_irq m events) p ops = Some q \<Longrightarrow> gsis_ok set_up_irq m p \<Longrightarrow> gsis_ok set_up_irq m q"
  by (induction ops arbitrary: p) (auto split: Option.bind_splits dest: ioapic_step_gsis)

section \<open>Properties\<close>

fun valid_op :: "ioapic_op \<Rightarrow> bool" where
  "valid_op (Line irq level) \<longleftrightarrow> irq < 24"
| "valid_op _ \<longleftrightarrow> True"

lemma ioapic_step_total:
  assumes "ioapic_inv p" "good_env env" "valid_op op"
  shows "\<exists>q. ioapic_step env p op = Some q \<and> ioapic_inv q"
proof (cases op)
  case (Line irq level)
  then obtain q r where "io_service_irq env p irq level = Some (q, r)" "pin_frame irq p q"
    using assms(3) by (auto intro: service_pin [OF assms(1), of irq env level])
  then show ?thesis using Line pin_frame_inv by auto
next
  case (Eoi vec)
  then show ?thesis using end_of_interrupt_effect [OF assms(1,2), of vec] by (metis ioapic_step.simps(2))
next
  case (Program sel val)
  have "ioapic_inv (p\<lparr>ioregsel := sel\<rparr>)" using assms(1) by (simp add: ioapic_inv_def)
  then show ?thesis using Program ioapic_write_effect [OF _ assms(2)] by (metis ioapic_step.simps(3))
qed

lemma ioapic_run_total:
  "ioapic_inv p \<Longrightarrow> good_env env \<Longrightarrow> list_all valid_op ops \<Longrightarrow> \<exists>q. ioapic_run env p ops = Some q \<and> ioapic_inv q"
proof (induction ops arbitrary: p)
  case (Cons op ops)
  then obtain r where "ioapic_step env p op = Some r" "ioapic_inv r" using ioapic_step_total [of p env op] by auto
  then show ?case using Cons.IH [of r] Cons.prems by simp
qed simp

lemma ioapic_new_ok:
  assumes "ioapic_new pins = Some p" "sys_inv s"
  shows "ioapic_inv p" "gsis_ok set_up_irq (s, c) p"
proof -
  have "\<not> get_remote_irr (set_interrupt_mask 0 True)" by code_simp
  then show "ioapic_inv p" using assms(1) by (auto simp: ioapic_new_def ioapic_inv_def Let_def split: Option.bind_splits if_splits)
  show "gsis_ok set_up_irq (s, c) p"
    using assms by (auto simp: ioapic_new_def gsis_ok_def gsis_distinct_def line_gsis_def Let_def split: Option.bind_splits if_splits)
qed

text \<open>C11: Each routed line of the I/O interrupt controller has its own interrupt number.  A new controller,
  whose requests are executed by the main thread with its system allocator, is driven by any sequence
  of line changes, acknowledgements and guest writes to its registers, while the chip may refuse any
  setup: this never panics, two lines never get the same number, and every number in use is marked
  allocated, so that no other device can get it.\<close>

theorem ioapic_lines_have_own_gsis:
  assumes "sys_inv s" "ioapic_new pins = Some p" "list_all valid_op ops"
  shows "\<exists>q. ioapic_run (main_thread set_up_irq (s, c) events) p ops = Some q \<and>
    (\<forall>i j x y. i < 24 \<longrightarrow> j < 24 \<longrightarrow> out_events q ! i = Some x \<longrightarrow> out_events q ! j = Some y \<longrightarrow> out_gsi x = out_gsi y \<longrightarrow> i = j) \<and>
    (\<forall>s' c' resp i x. serve set_up_irq (s, c) (tube_log q) = Some ((s', c'), resp) \<longrightarrow> i < 24 \<longrightarrow> out_events q ! i = Some x \<longrightarrow>
       ucast (out_gsi x) \<in> allocated (irq_allocator s'))"
proof -
  note new = ioapic_new_ok [OF assms(2,1)]
  obtain q where q: "ioapic_run (main_thread set_up_irq (s, c) events) p ops = Some q" "ioapic_inv q"
    using ioapic_run_total [OF new(1) main_thread_good assms(3)] by blast
  have ok: "gsis_ok set_up_irq (s, c) q" by (rule ioapic_run_gsis [OF q(1) new(2)])
  have l: "length (line_gsis q) = 24" "i < 24 \<Longrightarrow> line_gsis q ! i = map_option out_gsi (out_events q ! i)" for i
    using q(2) by (simp_all add: line_gsis_def ioapic_inv_def)
  have "i = j" if "i < 24" "j < 24" "out_events q ! i = Some x" "out_events q ! j = Some y" "out_gsi x = out_gsi y" for i j x y
  proof -
    have "gsis_distinct (line_gsis q)" using ok by (simp add: gsis_ok_def)
    then show ?thesis unfolding gsis_distinct_def l(1) using l(2) that by fastforce
  qed
  moreover have "Some (out_gsi x) \<in> set (line_gsis q)" if "i < 24" "out_events q ! i = Some x" for i x
    using that l(1) l(2) [of i] nth_mem [of i "line_gsis q"] by simp
  then have "ucast (out_gsi x) \<in> allocated (irq_allocator s')"
    if "serve set_up_irq (s, c) (tube_log q) = Some ((s', c'), resp)" "i < 24" "out_events q ! i = Some x" for s' c' resp i x
    using that ok by (auto simp: gsis_ok_def)
  ultimately show ?thesis using q(1) by blast
qed

text \<open>A machine whose first free interrupt is 5, with a chip that accepts every setup.\<close>

definition demo_chip :: "unit \<Rightarrow> irq_setup \<Rightarrow> unit \<times> (unit, int) result" where
  "demo_chip c setup = ((), Ok ())"

definition demo_main :: ioapic_env where
  "demo_main = main_thread demo_chip (demo_system, ()) (\<lambda>log. Ok (length log))"

definition unmask_line :: "nat \<Rightarrow> u32 \<Rightarrow> ioapic_op" where
  "unmask_line irq vec = Program (0x10 + 2 * of_nat irq) vec"

definition demo_routes :: "ioapic \<Rightarrow> u32 option \<times> u32 option" where
  "demo_routes p = (line_gsis p ! 5, line_gsis p ! 7)"

theorem ioapic_lines_have_own_gsis_witness:
  "\<exists>p q x y. ioapic_new 24 = Some p \<and> ioapic_run demo_main p [unmask_line 5 0x31, unmask_line 7 0x32] = Some q \<and>
     out_events q ! 5 = Some x \<and> out_events q ! 7 = Some y \<and> out_gsi x \<noteq> out_gsi y \<and> demo_routes q = (Some 5, Some 6)"
proof -
  obtain p where p: "ioapic_new 24 = Some p" by (simp add: ioapic_new_def Let_def)
  let ?ops = "[unmask_line 5 0x31, unmask_line 7 0x32]"
  have "list_all valid_op ?ops" by (simp add: unmask_line_def)
  from ioapic_lines_have_own_gsis [OF demo_new(1) p this, of demo_chip "()" "\<lambda>log. Ok (length log)", folded demo_main_def]
  obtain q where q: "ioapic_run demo_main p ?ops = Some q"
    "\<And>i j x y. i < 24 \<Longrightarrow> j < 24 \<Longrightarrow> out_events q ! i = Some x \<Longrightarrow> out_events q ! j = Some y \<Longrightarrow> out_gsi x = out_gsi y \<Longrightarrow> i = j"
    by blast
  have "(case ioapic_new 24 of Some p \<Rightarrow> map_option (\<lambda>q. (demo_routes q, length (out_events q))) (ioapic_run demo_main p ?ops) | None \<Rightarrow> None)
      = Some ((Some 5, Some 6), 24)" by code_simp
  then have d: "demo_routes q = (Some 5, Some 6)" "length (out_events q) = 24" using p q(1) by simp_all
  then obtain x y where "out_events q ! 5 = Some x" "out_events q ! 7 = Some y" by (auto simp: demo_routes_def line_gsis_def)
  then show ?thesis using p q(1) q(2) [of 5 7 x y] d(1) by auto
qed


end
