(* ===== verification/Pic.thy ===== *)
theory Pic
  imports Io_Bus
begin

text \<open>
  The interrupt controller of \<open>devices/src/irqchip/pic.rs\<close>, a pair of cascaded 8259A chips: edge and
  level triggered lines, rotating priorities, the initialisation and operation command words,
  polling and acknowledgement.  The theory shows that the scan for the next interrupt computes the
  specified one, that no access or request makes the controller panic as long as rotation and vector
  base keep their three-bit alignment, and that a rising edge is delivered.
\<close>

section \<open>Data\<close>

datatype pic_select = Primary | Secondary

datatype pic_init_state = Icw1 | Icw2 | Icw3 | Icw4

record pic_state =
  last_irr :: u8
  irr :: u8
  imr :: u8
  isr :: u8
  priority_add :: u8
  irq_base :: u8
  read_reg_select :: bool
  poll :: bool
  special_mask :: bool
  init_state :: pic_init_state
  auto_eoi :: bool
  rotate_on_auto_eoi :: bool
  special_fully_nested_mode :: bool
  use_4_byte_icw :: bool
  elcr :: u8
  elcr_mask :: u8

text \<open>An event is known by its number, and \<open>signalled\<close> lists the events signalled so far, newest
  first: writing to an eventfd is the only effect the controller has outside its own state, and it
  does not fail.\<close>

record pic =
  interrupt_request :: bool
  resample_events :: "nat list list"
  pics :: "pic_select \<Rightarrow> pic_state"
  signalled :: "nat list"

abbreviation pic_upd :: "pic_select \<Rightarrow> (pic_state \<Rightarrow> pic_state) \<Rightarrow> pic \<Rightarrow> pic" where
  "pic_upd sel f p \<equiv> p\<lparr>pics := (pics p)(sel := f (pics p sel))\<rparr>"

definition pic_state_default :: pic_state where
  "pic_state_default = \<lparr>last_irr = 0, irr = 0, imr = 0, isr = 0, priority_add = 0, irq_base = 0,
     read_reg_select = False, poll = False, special_mask = False, init_state = Icw1,
     auto_eoi = False, rotate_on_auto_eoi = False, special_fully_nested_mode = False,
     use_4_byte_icw = False, elcr = 0, elcr_mask = 0\<rparr>"

definition pic_new :: pic where
  "pic_new = \<lparr>interrupt_request = False, resample_events = [],
     pics = (\<lambda>_. pic_state_default)
       (Primary := pic_state_default\<lparr>elcr_mask := NOT (push_bit 0 1 OR push_bit 1 1 OR push_bit 2 1)\<rparr>,
        Secondary := pic_state_default\<lparr>elcr_mask := NOT (push_bit 0 1 OR push_bit 5 1)\<rparr>),
     signalled = []\<rparr>"

definition get_pic_state :: "pic \<Rightarrow> pic_select \<Rightarrow> pic_state" where
  "get_pic_state p sel = pics p sel"

definition set_pic_state :: "pic \<Rightarrow> pic_select \<Rightarrow> pic_state \<Rightarrow> pic" where
  "set_pic_state p sel st = p\<lparr>pics := (pics p)(sel := st)\<rparr>"

definition register_resample_events :: "pic \<Rightarrow> nat list list \<Rightarrow> pic" where
  "register_resample_events p evs = p\<lparr>resample_events := evs\<rparr>"

section \<open>Lines and priorities\<close>

definition set_irq_internal :: "pic_state \<Rightarrow> u8 \<Rightarrow> bool \<Rightarrow> pic_state option" where
  "set_irq_internal pic irq level = do {
     assert_that (irq \<le> 7);
     let irq_bitmap = push_bit (unat irq) 1;
     Some (if elcr pic AND irq_bitmap \<noteq> 0
       then if level
         then pic\<lparr>irr := irr pic OR irq_bitmap, last_irr := last_irr pic OR irq_bitmap\<rparr>
         else pic\<lparr>irr := irr pic AND NOT irq_bitmap, last_irr := last_irr pic AND NOT irq_bitmap\<rparr>
       else if level
         then pic\<lparr>irr := (if last_irr pic AND irq_bitmap = 0 then irr pic OR irq_bitmap else irr pic),
                  last_irr := last_irr pic OR irq_bitmap\<rparr>
         else pic\<lparr>last_irr := last_irr pic AND NOT irq_bitmap\<rparr>)
   }"

definition priority_mask :: "u8 \<Rightarrow> u8 \<Rightarrow> u8 option" where
  "priority_mask add priority = do {
     s \<leftarrow> checked_add priority add;
     Some (push_bit (unat (s AND 7)) 1)
   }"

text \<open>The search for the highest priority.  It stops at the latest when the counter overflows, which
  is a panic.\<close>

function get_priority_loop :: "u8 \<Rightarrow> u8 \<Rightarrow> u8 \<Rightarrow> u8 option" where
  "get_priority_loop add irq_bitmap priority = do {
     mask \<leftarrow> priority_mask add priority;
     if irq_bitmap AND mask = 0 then do {
       priority \<leftarrow> checked_add priority 1;
       get_priority_loop add irq_bitmap priority
     } else Some priority
   }"
  by pat_completeness auto
termination
proof (relation "measure (\<lambda>(add, bm, p). 256 - unat p)")
  fix add bm p :: u8 and m q
  assume "checked_add p 1 = Some q"
  then show "((add, bm, q), (add, bm, p)) \<in> measure (\<lambda>(add, bm, p). 256 - unat p)"
    using unat_bound [of q] by (simp add: checked_add_Some)
qed simp

declare get_priority_loop.simps [simp del]

definition get_priority :: "pic_state \<Rightarrow> u8 \<Rightarrow> u8 option option" where
  "get_priority pic irq_bitmap =
     (if irq_bitmap = 0 then Some None
      else map_option Some (get_priority_loop (priority_add pic) irq_bitmap 0))"

definition get_irq :: "pic \<Rightarrow> pic_select \<Rightarrow> u8 option option" where
  "get_irq p pic_type = do {
     let pic = pics p pic_type;
     r \<leftarrow> get_priority pic (irr pic AND NOT (imr pic));
     case r of
       None \<Rightarrow> Some None
     | Some priority \<Rightarrow> do {
         let irq_bitmap = (if pic_type = Primary \<and> special_fully_nested_mode pic
           then isr pic AND NOT 0x04 else isr pic);
         n \<leftarrow> get_priority pic irq_bitmap;
         if priority < (case n of None \<Rightarrow> 8 | Some q \<Rightarrow> q) then do {
           s \<leftarrow> checked_add priority (priority_add pic);
           Some (Some (s AND 7))
         } else Some None
       }
   }"

definition clear_isr :: "pic \<Rightarrow> pic_select \<Rightarrow> u8 \<Rightarrow> pic option" where
  "clear_isr p pic_type irq = do {
     assert_that (irq \<le> 7);
     let pic = pics p pic_type;
     pic \<leftarrow> set_irq_internal (pic\<lparr>isr := isr pic AND NOT (push_bit (unat irq) 1)\<rparr>) irq False;
     let p = p\<lparr>pics := (pics p)(pic_type := pic)\<rparr>;
     irq \<leftarrow> (if pic_type = Primary then Some irq else checked_add irq 8);
     Some (if unat irq < length (resample_events p)
       then p\<lparr>signalled := rev (resample_events p ! unat irq) @ signalled p\<rparr>
       else p)
   }"

definition update_irq :: "pic \<Rightarrow> (pic \<times> bool) option" where
  "update_irq p = do {
     i \<leftarrow> get_irq p Secondary;
     p \<leftarrow> (if i \<noteq> None then do {
         pic \<leftarrow> set_irq_internal (pics p Primary) 2 True;
         pic \<leftarrow> set_irq_internal pic 2 False;
         Some (p\<lparr>pics := (pics p)(Primary := pic)\<rparr>)
       } else Some p);
     i \<leftarrow> get_irq p Primary;
     Some (if i \<noteq> None then (p\<lparr>interrupt_request := True\<rparr>, True) else (p, False))
   }"

section \<open>Requests, acknowledgement and polling\<close>

definition service_irq :: "pic \<Rightarrow> u8 \<Rightarrow> bool \<Rightarrow> (pic \<times> bool) option" where
  "service_irq p irq level = do {
     assert_that (irq \<le> 15);
     let sel = (if irq \<le> 7 then Primary else Secondary);
     pic \<leftarrow> set_irq_internal (pics p sel) (irq AND 7) level;
     update_irq (p\<lparr>pics := (pics p)(sel := pic)\<rparr>)
   }"

definition masked :: "pic \<Rightarrow> bool" where
  "masked p \<longleftrightarrow> imr (pics p Primary) = 0xFF"

definition has_interrupt :: "pic \<Rightarrow> bool option" where
  "has_interrupt p = map_option (\<lambda>i. i \<noteq> None) (get_irq p Primary)"

definition interrupt_requested :: "pic \<Rightarrow> bool" where
  "interrupt_requested p = interrupt_request p"

definition interrupt_ack :: "pic \<Rightarrow> pic_select \<Rightarrow> u8 \<Rightarrow> pic option" where
  "interrupt_ack p pic_type irq = do {
     assert_that (irq \<le> 7);
     let pic = pics p pic_type;
     let irq_bitmap = push_bit (unat irq) 1;
     let pic = pic\<lparr>isr := isr pic OR irq_bitmap\<rparr>;
     let pic = (if elcr pic AND irq_bitmap = 0 then pic\<lparr>irr := irr pic AND NOT irq_bitmap\<rparr> else pic);
     if auto_eoi pic then do {
       pic \<leftarrow> (if rotate_on_auto_eoi pic
         then do { n \<leftarrow> checked_add irq 1; Some (pic\<lparr>priority_add := n AND 7\<rparr>) } else Some pic);
       clear_isr (p\<lparr>pics := (pics p)(pic_type := pic)\<rparr>) pic_type irq
     } else Some (p\<lparr>pics := (pics p)(pic_type := pic)\<rparr>)
   }"

definition get_external_interrupt :: "pic \<Rightarrow> (pic \<times> u8 option) option" where
  "get_external_interrupt p = do {
     let p = p\<lparr>interrupt_request := False\<rparr>;
     i \<leftarrow> get_irq p Primary;
     case i of
       None \<Rightarrow> Some (p, None)
     | Some irq_primary \<Rightarrow> do {
         p \<leftarrow> interrupt_ack p Primary irq_primary;
         (p, int_num) \<leftarrow> (if irq_primary = 2 then do {
             j \<leftarrow> get_irq p Secondary;
             (p, irq_secondary) \<leftarrow> (case j of
                 Some irq \<Rightarrow> do { p \<leftarrow> interrupt_ack p Secondary irq; Some (p, irq) }
               | None \<Rightarrow> Some (p, 7));
             n \<leftarrow> checked_add (irq_base (pics p Secondary)) irq_secondary;
             Some (p, n)
           } else do {
             n \<leftarrow> checked_add (irq_base (pics p Primary)) irq_primary;
             Some (p, n)
           });
         (p, _) \<leftarrow> update_irq p;
         Some (p, Some int_num)
       }
   }"

definition poll_read :: "pic \<Rightarrow> pic_select \<Rightarrow> (pic \<times> u8 \<times> bool) option" where
  "poll_read p pic_type = do {
     i \<leftarrow> get_irq p pic_type;
     case i of
       Some irq \<Rightarrow> do {
         let p = (if pic_type = Secondary
           then pic_upd Primary (\<lambda>pic. pic\<lparr>isr := isr pic AND NOT 0x04, irr := irr pic AND NOT 0x04\<rparr>) p
           else p);
         let p = pic_upd pic_type (\<lambda>pic. pic\<lparr>irr := irr pic AND NOT (push_bit (unat irq) 1)\<rparr>) p;
         p \<leftarrow> clear_isr p pic_type irq;
         Some (p, irq, pic_type = Secondary \<and> irq \<noteq> 2)
       }
     | None \<Rightarrow> Some (p, 7, True)
   }"

section \<open>Registers\<close>

definition polled_read :: "pic \<Rightarrow> pic_select \<Rightarrow> (pic \<times> u8) option" where
  "polled_read p pic_type = do {
     (p, ret, update_irq_needed) \<leftarrow> poll_read p pic_type;
     let p = pic_upd pic_type (\<lambda>pic. pic\<lparr>poll := False\<rparr>) p;
     p \<leftarrow> (if update_irq_needed then map_option fst (update_irq p) else Some p);
     Some (p, ret)
   }"

definition pic_read_command :: "pic \<Rightarrow> pic_select \<Rightarrow> (pic \<times> u8) option" where
  "pic_read_command p pic_type =
     (if poll (pics p pic_type) then polled_read p pic_type
      else if read_reg_select (pics p pic_type) then Some (p, isr (pics p pic_type))
      else Some (p, irr (pics p pic_type)))"

definition pic_read_data :: "pic \<Rightarrow> pic_select \<Rightarrow> (pic \<times> u8) option" where
  "pic_read_data p pic_type =
     (if poll (pics p pic_type) then polled_read p pic_type
      else Some (p, imr (pics p pic_type)))"

definition pic_read_elcr :: "pic \<Rightarrow> pic_select \<Rightarrow> u8" where
  "pic_read_elcr p pic_type = elcr (pics p pic_type)"

fun clear_edges :: "pic \<Rightarrow> pic_select \<Rightarrow> u8 \<Rightarrow> u8 list \<Rightarrow> pic option" where
  "clear_edges p pic_type edge_irr [] = Some p"
| "clear_edges p pic_type edge_irr (irq # irqs) = do {
     p \<leftarrow> (if edge_irr AND push_bit (unat irq) 1 \<noteq> 0 then clear_isr p pic_type irq else Some p);
     clear_edges p pic_type edge_irr irqs
   }"

definition reset_pic :: "pic \<Rightarrow> pic_select \<Rightarrow> pic option" where
  "reset_pic p pic_type = do {
     let pic = pics p pic_type;
     let edge_irr = irr pic AND NOT (elcr pic);
     let pic = pic\<lparr>last_irr := 0, irr := irr pic AND elcr pic, imr := 0, priority_add := 0,
       special_mask := False, read_reg_select := False\<rparr>;
     let pic = (if \<not> use_4_byte_icw pic
       then pic\<lparr>special_fully_nested_mode := False, auto_eoi := False\<rparr> else pic);
     let pic = pic\<lparr>init_state := Icw2\<rparr>;
     clear_edges (p\<lparr>pics := (pics p)(pic_type := pic)\<rparr>) pic_type edge_irr [0, 1, 2, 3, 4, 5, 6, 7]
   }"

definition init_command_word_1 :: "pic \<Rightarrow> pic_select \<Rightarrow> u8 \<Rightarrow> pic option" where
  "init_command_word_1 p pic_type value =
     reset_pic (pic_upd pic_type (\<lambda>pic. pic\<lparr>use_4_byte_icw := value AND 0x01 \<noteq> 0\<rparr>) p) pic_type"

datatype ocw2 = RotateAutoEoiClear | NonSpecificEoi | NoOp | SpecificEoi | RotateAutoEoiSet
  | RotateNonSpecificEoi | SetPriority | RotateSpecificEoi

definition ocw2_n :: "u8 \<Rightarrow> ocw2 option" where
  "ocw2_n v =
     (if v = 0x00 then Some RotateAutoEoiClear else if v = 0x20 then Some NonSpecificEoi
      else if v = 0x40 then Some NoOp else if v = 0x60 then Some SpecificEoi
      else if v = 0x80 then Some RotateAutoEoiSet else if v = 0xa0 then Some RotateNonSpecificEoi
      else if v = 0xc0 then Some SetPriority else if v = 0xe0 then Some RotateSpecificEoi else None)"

definition set_priority :: "pic \<Rightarrow> pic_select \<Rightarrow> u8 \<Rightarrow> pic option" where
  "set_priority p pic_type irq = do {
     n \<leftarrow> checked_add irq 1;
     Some (pic_upd pic_type (\<lambda>pic. pic\<lparr>priority_add := n AND 7\<rparr>) p)
   }"

definition operation_command_word_2 :: "pic \<Rightarrow> pic_select \<Rightarrow> u8 \<Rightarrow> pic option" where
  "operation_command_word_2 p pic_type value = do {
     let irq = value AND 0x07;
     let update = (\<lambda>p. map_option fst (update_irq p));
     case ocw2_n (value AND 0xe0) of
       None \<Rightarrow> Some p
     | Some RotateAutoEoiSet \<Rightarrow> Some (pic_upd pic_type (\<lambda>pic. pic\<lparr>rotate_on_auto_eoi := True\<rparr>) p)
     | Some RotateAutoEoiClear \<Rightarrow> Some (pic_upd pic_type (\<lambda>pic. pic\<lparr>rotate_on_auto_eoi := False\<rparr>) p)
     | Some SpecificEoi \<Rightarrow> do { p \<leftarrow> clear_isr p pic_type irq; update p }
     | Some SetPriority \<Rightarrow> do { p \<leftarrow> set_priority p pic_type irq; update p }
     | Some RotateSpecificEoi \<Rightarrow> do {
         p \<leftarrow> set_priority p pic_type irq; p \<leftarrow> clear_isr p pic_type irq; update p }
     | Some NoOp \<Rightarrow> Some p
     | Some cmd \<Rightarrow> do {
         r \<leftarrow> get_priority (pics p pic_type) (isr (pics p pic_type));
         case r of
           None \<Rightarrow> Some p
         | Some priority \<Rightarrow> do {
             s \<leftarrow> checked_add priority (priority_add (pics p pic_type));
             let irq = s AND 7;
             p \<leftarrow> (if cmd = RotateNonSpecificEoi then set_priority p pic_type irq else Some p);
             p \<leftarrow> clear_isr p pic_type irq;
             update p
           }
       }
   }"

definition operation_command_word_3 :: "pic_state \<Rightarrow> u8 \<Rightarrow> pic_state" where
  "operation_command_word_3 pic value =
     (let pic = (if value AND 0x04 \<noteq> 0 then pic\<lparr>poll := True\<rparr> else pic);
          pic = (if value AND 0x02 \<noteq> 0 then pic\<lparr>read_reg_select := value AND 0x01 \<noteq> 0\<rparr> else pic)
      in if value AND 0x40 \<noteq> 0 then pic\<lparr>special_mask := value AND 0x20 \<noteq> 0\<rparr> else pic)"

definition pic_write_command :: "pic \<Rightarrow> pic_select \<Rightarrow> u8 \<Rightarrow> pic option" where
  "pic_write_command p pic_type value =
     (if value AND 0x10 \<noteq> 0 then init_command_word_1 p pic_type value
      else if value AND 0x08 \<noteq> 0
        then Some (pic_upd pic_type (\<lambda>pic. operation_command_word_3 pic value) p)
      else operation_command_word_2 p pic_type value)"

definition pic_write_data :: "pic \<Rightarrow> pic_select \<Rightarrow> u8 \<Rightarrow> pic option" where
  "pic_write_data p pic_type value =
     (case init_state (pics p pic_type) of
       Icw1 \<Rightarrow> map_option fst (update_irq (pic_upd pic_type (\<lambda>pic. pic\<lparr>imr := value\<rparr>) p))
     | Icw2 \<Rightarrow> Some (pic_upd pic_type (\<lambda>pic. pic\<lparr>irq_base := value AND 0xf8, init_state := Icw3\<rparr>) p)
     | Icw3 \<Rightarrow> Some (pic_upd pic_type
         (\<lambda>pic. pic\<lparr>init_state := if use_4_byte_icw pic then Icw4 else Icw1\<rparr>) p)
     | Icw4 \<Rightarrow> Some (pic_upd pic_type
         (\<lambda>pic. pic\<lparr>special_fully_nested_mode := value AND 0x10 \<noteq> 0, auto_eoi := value AND 0x02 \<noteq> 0,
            init_state := Icw1\<rparr>) p))"

definition pic_write_elcr :: "pic \<Rightarrow> pic_select \<Rightarrow> u8 \<Rightarrow> pic" where
  "pic_write_elcr p pic_type value =
     pic_upd pic_type (\<lambda>pic. pic\<lparr>elcr := value AND NOT (elcr pic)\<rparr>) p"

definition pic_write :: "pic \<Rightarrow> bus_access_info \<Rightarrow> u8 list \<Rightarrow> pic option" where
  "pic_write p io data =
     (case data of
       [v] \<Rightarrow>
         if access_address io = 0x20 then pic_write_command p Primary v
         else if access_address io = 0x21 then pic_write_data p Primary v
         else if access_address io = 0x4d0 then Some (pic_write_elcr p Primary v)
         else if access_address io = 0xa0 then pic_write_command p Secondary v
         else if access_address io = 0xa1 then pic_write_data p Secondary v
         else if access_address io = 0x4d1 then Some (pic_write_elcr p Secondary v)
         else Some p
     | _ \<Rightarrow> Some p)"

definition pic_read :: "pic \<Rightarrow> bus_access_info \<Rightarrow> u8 list \<Rightarrow> (pic \<times> u8 list) option" where
  "pic_read p io data =
     (if length data \<noteq> 1 then Some (p, data)
      else map_option (\<lambda>(p, v). (p, [v]))
       (if access_address io = 0x20 then pic_read_command p Primary
        else if access_address io = 0x21 then pic_read_data p Primary
        else if access_address io = 0x4d0 then Some (p, pic_read_elcr p Primary)
        else if access_address io = 0xa0 then pic_read_command p Secondary
        else if access_address io = 0xa1 then pic_read_data p Secondary
        else if access_address io = 0x4d1 then Some (p, pic_read_elcr p Secondary)
        else Some (p, hd data)))"

section \<open>Priorities\<close>

lemma unat_and_7: "unat (x AND 7 :: u8) = unat x mod 8"
  using unat_and_mask [of 3 x] by (simp add: mask_eq_exp_minus_1 and.commute)

lemma and_7_le: "(x AND 7 :: u8) \<le> 7"
  by (simp add: word_le_nat_alt unat_and_7)

lemmas and_line_zero = and_exp_eq_0_iff_not_bit [where ?'a = u8]

lemma u8_zero_iff: "x = 0 \<longleftrightarrow> (\<forall>n < 8. \<not> bit (x :: u8) n)"
  by (simp add: bit_eq_iff)

text \<open>The place of a line in the order of priorities, and the line at a place.\<close>

definition line_rank :: "pic_state \<Rightarrow> nat \<Rightarrow> nat" where
  "line_rank st n = (n + 8 - unat (priority_add st)) mod 8"

definition rank_line :: "pic_state \<Rightarrow> nat \<Rightarrow> nat" where
  "rank_line st k = (k + unat (priority_add st)) mod 8"

lemma rank_line_rank: "n < 8 \<Longrightarrow> priority_add st < 8 \<Longrightarrow> rank_line st (line_rank st n) = n"
  by (simp add: rank_line_def line_rank_def word_less_nat_alt mod_simps)

lemma line_rank_line: "k < 8 \<Longrightarrow> priority_add st < 8 \<Longrightarrow> line_rank st (rank_line st k) = k"
  unfolding rank_line_def line_rank_def word_less_nat_alt by (auto simp: mod_if)

lemma line_rank_less [simp]: "line_rank st n < 8"
  by (simp add: line_rank_def)

lemma rank_line_less [simp]: "rank_line st n < 8"
  by (simp add: rank_line_def)

lemma priority_mask_small:
  assumes "priority_add st < 8" "unat p < 8"
  shows "priority_mask (priority_add st) p = Some (push_bit (rank_line st (unat p)) 1)"
proof -
  have "unat (p + priority_add st) = unat p + unat (priority_add st)"
    using assms by (subst unat_add_lem [symmetric]) (simp add: word_less_nat_alt)
  then show ?thesis using assms
    by (simp add: priority_mask_def checked_add_def word_less_nat_alt unat_and_7 rank_line_def)
qed

lemma get_priority_loop_spec:
  assumes "priority_add st < 8" "bit bm (rank_line st k)" "k < 8" "unat p \<le> k"
    "\<forall>j < unat p. \<not> bit bm (rank_line st j)"
  shows "\<exists>q. get_priority_loop (priority_add st) bm p = Some q \<and> unat q \<le> k \<and>
    bit bm (rank_line st (unat q)) \<and> (\<forall>j < unat q. \<not> bit bm (rank_line st j))"
  using assms(4,5)
proof (induction "k - unat p" arbitrary: p)
  case 0
  then show ?case using assms(1-3)
    by (subst get_priority_loop.simps) (auto simp: priority_mask_small and_line_zero)
next
  case (Suc n)
  have p: "priority_mask (priority_add st) p = Some (push_bit (rank_line st (unat p)) 1)"
    using Suc assms by (intro priority_mask_small) auto
  have s: "unat (p + 1) = unat p + 1" "checked_add p 1 = Some (p + 1)"
    using Suc assms(3) unat_add_lem [of p 1] by (auto simp: checked_add_def)
  show ?case
  proof (cases "bit bm (rank_line st (unat p))")
    case True
    with p Suc show ?thesis by (subst get_priority_loop.simps) (auto simp: and_line_zero)
  next
    case False
    with p s have "get_priority_loop (priority_add st) bm p = get_priority_loop (priority_add st) bm (p + 1)"
      by (subst get_priority_loop.simps) (auto simp: and_line_zero)
    then show ?thesis using Suc(1) [of "p + 1"] Suc(2-) False s
      by (auto simp: less_Suc_eq)
  qed
qed

lemma get_priority_spec:
  assumes "priority_add st < 8"
  obtains "bm = 0" "get_priority st bm = Some None"
  | q where "get_priority st bm = Some (Some q)" "unat q < 8" "bit bm (rank_line st (unat q))"
    "\<forall>j < unat q. \<not> bit bm (rank_line st j)"
proof (cases "bm = 0")
  case True
  then show thesis using that(1) by (simp add: get_priority_def)
next
  case False
  then obtain n where n: "n < 8" "bit bm n" by (auto simp: u8_zero_iff)
  with assms have "bit bm (rank_line st (line_rank st n))" by (simp add: rank_line_rank)
  from get_priority_loop_spec [OF assms this, of 0] False show thesis
    by (auto simp: get_priority_def intro: that(2) le_less_trans [OF _ line_rank_less])
qed

lemma get_priority_min:
  assumes "priority_add st < 8" "get_priority st bm = Some (Some q)" "n < 8" "bit bm n"
  shows "unat q \<le> line_rank st n"
  using assms by (rule_tac get_priority_spec [of st bm]) (auto simp: rank_line_rank not_le [symmetric])

text \<open>The lines that hold back others: the ones in service, without the cascade line of a primary
  controller in special fully nested mode.\<close>

definition in_service :: "pic \<Rightarrow> pic_select \<Rightarrow> nat \<Rightarrow> bool" where
  "in_service p sel n \<longleftrightarrow> n < 8 \<and> bit (isr (pics p sel)) n \<and>
     \<not> (sel = Primary \<and> special_fully_nested_mode (pics p sel) \<and> n = 2)"

definition requested :: "pic \<Rightarrow> pic_select \<Rightarrow> nat \<Rightarrow> bool" where
  "requested p sel n \<longleftrightarrow> n < 8 \<and> bit (irr (pics p sel)) n \<and> \<not> bit (imr (pics p sel)) n"

text \<open>The line a controller delivers, stated without a search: requested and not masked, first in the
  rotated order among those, and strictly before every line that is in service.\<close>

definition delivers :: "pic \<Rightarrow> pic_select \<Rightarrow> nat \<Rightarrow> bool" where
  "delivers p sel n \<longleftrightarrow> requested p sel n \<and>
     (\<forall>m < 8. requested p sel m \<longrightarrow> line_rank (pics p sel) n \<le> line_rank (pics p sel) m) \<and>
     (\<forall>m < 8. in_service p sel m \<longrightarrow> line_rank (pics p sel) n < line_rank (pics p sel) m)"

definition pic_inv :: "pic \<Rightarrow> bool" where
  "pic_inv p \<longleftrightarrow> (\<forall>sel. priority_add (pics p sel) < 8 \<and> irq_base (pics p sel) AND 7 = 0)"

lemma rank_inj:
  "line_rank st n = line_rank st m \<Longrightarrow> n < 8 \<Longrightarrow> m < 8 \<Longrightarrow> priority_add st < 8 \<Longrightarrow> n = m"
  by (metis rank_line_rank)

lemma delivers_unique: "pic_inv p \<Longrightarrow> delivers p sel n \<Longrightarrow> delivers p sel m \<Longrightarrow> n = m"
  by (metis delivers_def le_antisym pic_inv_def rank_inj requested_def)

definition service_mask :: "pic \<Rightarrow> pic_select \<Rightarrow> u8" where
  "service_mask p sel = (if sel = Primary \<and> special_fully_nested_mode (pics p sel)
     then isr (pics p sel) AND NOT 0x04 else isr (pics p sel))"

lemma bit_not_4: "n < 8 \<Longrightarrow> bit (- 5 :: u8) n \<longleftrightarrow> n \<noteq> 2"
  by (auto simp: numeral_nat less_Suc_eq)

lemma bit_service_mask: "n < 8 \<Longrightarrow> bit (service_mask p sel) n \<longleftrightarrow> in_service p sel n"
  using bit_not_4 [of n] by (auto simp: service_mask_def in_service_def bit_and_iff)

lemma bit_request: "n < 8 \<Longrightarrow> bit (irr (pics p sel) AND NOT (imr (pics p sel))) n \<longleftrightarrow> requested p sel n"
  by (auto simp: requested_def bit_and_iff bit_not_iff)

lemma get_irq_cases:
  assumes "pic_inv p"
  obtains "get_irq p sel = Some None" "\<forall>n. \<not> delivers p sel n"
  | irq where "get_irq p sel = Some (Some irq)" "unat irq < 8" "delivers p sel (unat irq)"
proof -
  let ?st = "pics p sel"
  have add: "priority_add ?st < 8" using assms by (simp add: pic_inv_def)
  note rq = bit_request [of _ p sel] and sm = bit_service_mask [of _ p sel]
  show thesis
  proof (cases rule: get_priority_spec [OF add, of "irr ?st AND NOT (imr ?st)"])
    case 1
    then show thesis using that(1) rq
      by (fastforce simp: get_irq_def delivers_def requested_def)
  next
    case (2 q)
    let ?n = "rank_line ?st (unat q)"
    have q: "requested p sel ?n" "line_rank ?st ?n = unat q"
      using 2 add rq [of ?n] by (auto simp: line_rank_line)
    have least: "unat q \<le> line_rank ?st m" if "requested p sel m" for m
      using get_priority_min [OF add 2(1)] rq that by (auto simp: requested_def)
    have sum: "checked_add q (priority_add ?st) = Some (q + priority_add ?st)"
      "unat ((q + priority_add ?st) AND 7) = ?n"
      using priority_mask_small [OF add 2(2)] 2(2) add unat_add_lem [of q "priority_add ?st"]
      by (auto simp: checked_add_def word_less_nat_alt unat_and_7 rank_line_def)
    obtain r where r: "get_priority ?st (service_mask p sel) = Some r"
      "(q < (case r of None \<Rightarrow> 8 | Some k \<Rightarrow> k)) \<longleftrightarrow>
         (\<forall>m < 8. in_service p sel m \<longrightarrow> unat q < line_rank ?st m)"
    proof (cases rule: get_priority_spec [OF add, of "service_mask p sel"])
      case 1
      then have "\<forall>m < 8. \<not> in_service p sel m" using sm by (metis bit_0_eq bot_apply bot_bool_def)
      with 1 2(2) show thesis by (intro that [of None]) (auto simp: word_less_nat_alt)
    next
      case (2 k)
      have "\<And>m. in_service p sel m \<Longrightarrow> unat k \<le> line_rank ?st m"
        using get_priority_min [OF add 2(1)] sm by (auto simp: in_service_def)
      moreover have "in_service p sel (rank_line ?st (unat k))" "line_rank ?st (rank_line ?st (unat k)) = unat k"
        using 2 add sm [of "rank_line ?st (unat k)"] by (auto simp: line_rank_line)
      ultimately show thesis using 2(1)
        by (intro that [of "Some k"]) (auto simp: word_less_nat_alt intro: less_le_trans dest: spec [of _ "rank_line ?st (unat k)"])
    qed
    have eq: "get_irq p sel = (if q < (case r of None \<Rightarrow> 8 | Some k \<Rightarrow> k)
        then Some (Some ((q + priority_add ?st) AND 7)) else Some None)"
      using 2(1) r(1) sum(1) by (simp add: get_irq_def Let_def service_mask_def)
    show thesis
    proof (cases "q < (case r of None \<Rightarrow> 8 | Some k \<Rightarrow> k)")
      case True
      then show thesis using that(2) eq sum(2) q r(2) least by (auto simp: delivers_def)
    next
      case False
      then show thesis using that(1) eq r(2) q least by (force simp: delivers_def)
    qed
  qed
qed

section \<open>No access makes the controller panic\<close>

lemma assert_that_True [simp]: "assert_that True = Some ()"
  by (simp add: assert_that_def)

lemma set_irq_internal_total:
  assumes "irq \<le> 7"
  obtains i l where "set_irq_internal st irq level = Some (st\<lparr>irr := i, last_irr := l\<rparr>)"
proof -
  have "\<exists>i l. set_irq_internal st irq level = Some (st\<lparr>irr := i, last_irr := l\<rparr>)"
    using assms by (cases st) (auto simp: set_irq_internal_def Let_def)
  then show thesis using that by blast
qed

lemma pic_inv_upd:
  "pic_inv p \<Longrightarrow> priority_add st < 8 \<Longrightarrow> irq_base st AND 7 = 0 \<Longrightarrow> pic_inv (p\<lparr>pics := (pics p)(sel := st)\<rparr>)"
  by (simp add: pic_inv_def)

lemma pic_invD: "pic_inv p \<Longrightarrow> priority_add (pics p sel) < 8" "pic_inv p \<Longrightarrow> irq_base (pics p sel) AND 7 = 0"
  by (simp_all add: pic_inv_def)

lemma pic_inv_other [simp]:
  "pic_inv (p\<lparr>signalled := x\<rparr>) = pic_inv p" "pic_inv (p\<lparr>interrupt_request := b\<rparr>) = pic_inv p"
  "pic_inv (p\<lparr>resample_events := r\<rparr>) = pic_inv p"
  by (simp_all add: pic_inv_def)

definition gsi_events :: "pic \<Rightarrow> pic_select \<Rightarrow> nat \<Rightarrow> nat list" where
  "gsi_events p sel n = (let g = if sel = Primary then n else n + 8
     in if g < length (resample_events p) then resample_events p ! g else [])"

lemma clear_isr_signals:
  assumes "irq \<le> 7"
  obtains i l where "clear_isr p sel irq = Some (p\<lparr>pics := (pics p)(sel := (pics p sel)
      \<lparr>isr := isr (pics p sel) AND NOT (2 ^ unat irq), irr := i, last_irr := l\<rparr>),
      signalled := rev (gsi_events p sel (unat irq)) @ signalled p\<rparr>)"
proof -
  let ?st = "(pics p sel)\<lparr>isr := isr (pics p sel) AND NOT (2 ^ unat irq)\<rparr>"
  obtain i l where s: "set_irq_internal ?st irq False = Some (?st\<lparr>irr := i, last_irr := l\<rparr>)"
    using assms by (rule set_irq_internal_total)
  obtain k where k: "(if sel = Primary then Some irq else checked_add irq 8) = Some k"
    "unat k = (if sel = Primary then unat irq else unat irq + 8)"
    using assms checked_add_ex [of irq 8] by (cases "sel = Primary") (auto simp: word_le_nat_alt)
  show thesis
    by (rule that [of l i], cases p) (use s k assms in \<open>simp add: clear_isr_def gsi_events_def Let_def\<close>)
qed

lemma clear_isr_total:
  assumes "pic_inv p" "irq \<le> 7"
  obtains p' where "clear_isr p sel irq = Some p'" "pic_inv p'"
proof -
  obtain i l where "clear_isr p sel irq = Some (p\<lparr>pics := (pics p)(sel := (pics p sel)
      \<lparr>isr := isr (pics p sel) AND NOT (2 ^ unat irq), irr := i, last_irr := l\<rparr>),
      signalled := rev (gsi_events p sel (unat irq)) @ signalled p\<rparr>)"
    by (rule clear_isr_signals [OF assms(2)])
  then show thesis by (rule that) (use assms(1) in \<open>auto simp: pic_inv_def\<close>)
qed

lemma update_irq_total:
  assumes "pic_inv p"
  obtains p' b where "update_irq p = Some (p', b)" "pic_inv p'"
proof -
  obtain i l where s: "set_irq_internal (pics p Primary) 2 True = Some ((pics p Primary)\<lparr>irr := i, last_irr := l\<rparr>)"
    by (rule set_irq_internal_total [of 2]) simp
  obtain j m where t: "set_irq_internal ((pics p Primary)\<lparr>irr := i, last_irr := l\<rparr>) 2 False =
      Some ((pics p Primary)\<lparr>irr := i, last_irr := l\<rparr>\<lparr>irr := j, last_irr := m\<rparr>)"
    by (rule set_irq_internal_total [of 2]) simp
  let ?p = "p\<lparr>pics := (pics p)(Primary := (pics p Primary)\<lparr>irr := i, last_irr := l\<rparr>\<lparr>irr := j, last_irr := m\<rparr>)\<rparr>"
  obtain a where a: "get_irq p Secondary = Some a"
    by (rule get_irq_cases [OF assms, of Secondary])
  define q where "q = (if a \<noteq> None then ?p else p)"
  have q: "pic_inv q" using assms unfolding q_def by (auto intro!: pic_inv_upd pic_invD)
  then obtain b where b: "get_irq q Primary = Some b" by (rule get_irq_cases [of q Primary])
  have "update_irq p = Some (if b \<noteq> None then (q\<lparr>interrupt_request := True\<rparr>, True) else (q, False))"
    using s t a b by (simp add: update_irq_def q_def split: if_splits)
  then show thesis using q that by (cases "b \<noteq> None") auto
qed

lemma irq_base_add:
  fixes b i :: u8
  assumes "b AND 7 = 0" "unat i < 8"
  shows "checked_add b i = Some (b + i)" "unat (b + i) = unat b + unat i"
proof -
  have "unat b mod 8 = 0" using assms(1) unat_and_7 [of b] by simp
  moreover have "unat b < 256" using unat_bound [of b] by simp
  ultimately have "unat b + unat i < 256" using assms(2) by presburger
  then show "checked_add b i = Some (b + i)" "unat (b + i) = unat b + unat i"
    using unat_add_lem [of b i] by (auto simp: checked_add_def)
qed

lemma interrupt_ack_total:
  assumes "pic_inv p" "unat irq < 8"
  obtains p' where "interrupt_ack p sel irq = Some p'" "pic_inv p'"
proof -
  let ?m = "push_bit (unat irq) 1"
  have le: "irq \<le> 7" using assms(2) by (simp add: word_le_nat_alt)
  have inc: "checked_add irq 1 = Some (irq + 1)" using assms(2) by (simp add: checked_add_def)
  have and7: "(irq + 1) AND 7 < 8" by (simp add: word_less_nat_alt unat_and_7)
  define st where "st = (let st = (pics p sel)\<lparr>isr := isr (pics p sel) OR ?m\<rparr>
    in if elcr st AND ?m = 0 then st\<lparr>irr := irr st AND NOT ?m\<rparr> else st)"
  have st: "priority_add st = priority_add (pics p sel)" "irq_base st = irq_base (pics p sel)"
    by (simp_all add: st_def Let_def)
  define st' where "st' = (if rotate_on_auto_eoi st then st\<lparr>priority_add := (irq + 1) AND 7\<rparr> else st)"
  have inv: "pic_inv (p\<lparr>pics := (pics p)(sel := st)\<rparr>)" "pic_inv (p\<lparr>pics := (pics p)(sel := st')\<rparr>)"
    using assms(1) and7 by (auto simp: st st'_def intro!: pic_inv_upd pic_invD)
  have "interrupt_ack p sel irq = (if auto_eoi st then clear_isr (p\<lparr>pics := (pics p)(sel := st')\<rparr>) sel irq
      else Some (p\<lparr>pics := (pics p)(sel := st)\<rparr>))"
    using le inc unfolding interrupt_ack_def st'_def st_def Let_def by (simp split: if_split)
  then show thesis using inv that clear_isr_total [OF inv(2) le, of sel] by (cases "auto_eoi st") auto
qed

lemma get_external_interrupt_total:
  assumes "pic_inv p"
  obtains p' r where "get_external_interrupt p = Some (p', r)" "pic_inv p'"
proof -
  let ?p = "p\<lparr>interrupt_request := False\<rparr>"
  have inv: "pic_inv ?p" using assms by simp
  show thesis
  proof (cases rule: get_irq_cases [OF inv, of Primary])
    case 1
    then show thesis using inv that by (simp add: get_external_interrupt_def)
  next
    case (2 irq)
    obtain q where q: "interrupt_ack ?p Primary irq = Some q" "pic_inv q"
      using interrupt_ack_total [OF inv 2(2)] .
    have "\<exists>r n. (if irq = 2 then do {
             j \<leftarrow> get_irq q Secondary;
             (p, irq_secondary) \<leftarrow> (case j of
                 Some irq \<Rightarrow> do { p \<leftarrow> interrupt_ack q Secondary irq; Some (p, irq) }
               | None \<Rightarrow> Some (q, 7));
             n \<leftarrow> checked_add (irq_base (pics p Secondary)) irq_secondary;
             Some (p, n)
           } else do {
             n \<leftarrow> checked_add (irq_base (pics q Primary)) irq;
             Some (q, n)
           }) = Some (r, n) \<and> pic_inv r" (is "\<exists>r n. ?inner = _ \<and> _")
    proof (cases rule: get_irq_cases [OF q(2), of Secondary])
      case 1
      then show ?thesis using q(2) irq_base_add(1) pic_invD(2) [OF q(2)] \<open>unat irq < 8\<close> by auto
    next
      case (2 j)
      obtain r where "interrupt_ack q Secondary j = Some r" "pic_inv r"
        using interrupt_ack_total [OF q(2) 2(2)] .
      then show ?thesis
        using 2 q(2) irq_base_add(1) pic_invD(2) [OF q(2)] pic_invD(2) [of r] \<open>unat irq < 8\<close> by auto
    qed
    then obtain r n where r: "?inner = Some (r, n)" "pic_inv r" by blast
    obtain s b where s: "update_irq r = Some (s, b)" "pic_inv s" using update_irq_total [OF r(2)] .
    have "get_external_interrupt p = Some (s, Some n)"
      using 2(1) q(1) r(1) s(1) unfolding get_external_interrupt_def Let_def by simp
    then show thesis using s(2) that by blast
  qed
qed

lemma service_irq_total:
  assumes "pic_inv p" "irq \<le> 15"
  obtains p' b where "service_irq p irq level = Some (p', b)" "pic_inv p'"
proof -
  define sel where "sel = (if irq \<le> 7 then Primary else Secondary)"
  obtain i l where s: "set_irq_internal (pics p sel) (irq AND 7) level = Some ((pics p sel)\<lparr>irr := i, last_irr := l\<rparr>)"
    using and_7_le by (rule set_irq_internal_total)
  have "pic_inv (p\<lparr>pics := (pics p)(sel := (pics p sel)\<lparr>irr := i, last_irr := l\<rparr>)\<rparr>)"
    using assms(1) by (auto intro!: pic_inv_upd pic_invD)
  then obtain p' b where "update_irq (p\<lparr>pics := (pics p)(sel := (pics p sel)\<lparr>irr := i, last_irr := l\<rparr>)\<rparr>) = Some (p', b)"
    "pic_inv p'" by (rule update_irq_total)
  then show thesis using s assms(2) by (intro that [of p' b]) (simp_all add: service_irq_def sel_def Let_def)
qed

lemma polled_read_total:
  assumes "pic_inv p"
  obtains p' v where "polled_read p sel = Some (p', v)" "pic_inv p'"
proof -
  obtain q v u where q: "poll_read p sel = Some (q, v, u)" "pic_inv q"
  proof (cases rule: get_irq_cases [OF assms, of sel])
    case 1
    then show thesis using assms that by (simp add: poll_read_def)
  next
    case (2 irq)
    define r where "r = (let p = (if sel = Secondary
           then pic_upd Primary (\<lambda>pic. pic\<lparr>isr := isr pic AND NOT 0x04, irr := irr pic AND NOT 0x04\<rparr>) p
           else p) in pic_upd sel (\<lambda>pic. pic\<lparr>irr := irr pic AND NOT (push_bit (unat irq) 1)\<rparr>) p)"
    have "pic_inv r" using assms by (auto simp: r_def Let_def pic_inv_def)
    moreover have "irq \<le> 7" using 2(2) by (simp add: word_le_nat_alt)
    ultimately obtain q where "clear_isr r sel irq = Some q" "pic_inv q" by (rule clear_isr_total)
    then show thesis using that 2 unfolding poll_read_def r_def Let_def by simp
  qed
  have inv: "pic_inv (pic_upd sel (\<lambda>pic. pic\<lparr>poll := False\<rparr>) q)"
    using q(2) by (auto intro!: pic_inv_upd pic_invD)
  obtain r b where "update_irq (pic_upd sel (\<lambda>pic. pic\<lparr>poll := False\<rparr>) q) = Some (r, b)" "pic_inv r"
    using inv by (rule update_irq_total)
  then show thesis using q(1) inv that by (cases u) (auto simp: polled_read_def Let_def)
qed

lemma clear_edges_total: "pic_inv p \<Longrightarrow> \<forall>irq \<in> set irqs. irq \<le> 7 \<Longrightarrow>
    \<exists>p'. clear_edges p sel e irqs = Some p' \<and> pic_inv p'"
proof (induction irqs arbitrary: p)
  case (Cons irq irqs)
  then obtain q where "clear_isr p sel irq = Some q" "pic_inv q"
    using clear_isr_total [of p irq sel] by auto
  then show ?case using Cons by auto
qed simp

lemma reset_pic_total:
  assumes "pic_inv p"
  obtains p' where "reset_pic p sel = Some p'" "pic_inv p'"
proof -
  define r where "r = (let pic = (pics p sel)\<lparr>last_irr := 0, irr := irr (pics p sel) AND elcr (pics p sel),
       imr := 0, priority_add := 0, special_mask := False, read_reg_select := False\<rparr>;
     pic = (if \<not> use_4_byte_icw pic
       then pic\<lparr>special_fully_nested_mode := False, auto_eoi := False\<rparr> else pic)
     in p\<lparr>pics := (pics p)(sel := pic\<lparr>init_state := Icw2\<rparr>)\<rparr>)"
  have "pic_inv r" using assms by (auto simp: r_def Let_def pic_inv_def)
  then obtain p' where "clear_edges r sel (irr (pics p sel) AND NOT (elcr (pics p sel))) [0, 1, 2, 3, 4, 5, 6, 7] = Some p'"
    "pic_inv p'" using clear_edges_total [of r "[0, 1, 2, 3, 4, 5, 6, 7]"] by auto
  then show thesis using that unfolding reset_pic_def r_def Let_def by simp
qed

lemma set_priority_total:
  assumes "pic_inv p" "irq \<le> 7"
  obtains p' where "set_priority p sel irq = Some p'" "pic_inv p'"
proof -
  have "checked_add irq 1 = Some (irq + 1)" using assms(2) by (simp add: checked_add_def word_le_nat_alt)
  moreover have "(irq + 1) AND 7 < 8" by (simp add: word_less_nat_alt unat_and_7)
  ultimately show thesis using assms(1)
    by (intro that [of "pic_upd sel (\<lambda>pic. pic\<lparr>priority_add := (irq + 1) AND 7\<rparr>) p"])
      (auto simp: set_priority_def pic_inv_def)
qed

lemma map_fst_update_irq_total:
  assumes "pic_inv p"
  obtains p' where "map_option fst (update_irq p) = Some p'" "pic_inv p'"
  using update_irq_total [OF assms] by (metis fst_conv option.simps(9))

definition pic_fine :: "pic option \<Rightarrow> bool" where
  "pic_fine x \<longleftrightarrow> (\<exists>p. x = Some p \<and> pic_inv p)"

lemma pic_fine_Some [simp]: "pic_fine (Some p) = pic_inv p"
  by (simp add: pic_fine_def)

lemma pic_fine_bind: "pic_fine x \<Longrightarrow> (\<And>p. pic_inv p \<Longrightarrow> pic_fine (f p)) \<Longrightarrow> pic_fine (x \<bind> f)"
  by (auto simp: pic_fine_def)

lemma pic_fine_ops:
  assumes "pic_inv p"
  shows "irq \<le> 7 \<Longrightarrow> pic_fine (clear_isr p sel irq)" "irq \<le> 7 \<Longrightarrow> pic_fine (set_priority p sel irq)"
    "pic_fine (map_option fst (update_irq p))" "pic_fine (reset_pic p sel)"
  using clear_isr_total [OF assms] set_priority_total [OF assms] map_fst_update_irq_total [OF assms]
    reset_pic_total [OF assms] unfolding pic_fine_def by metis+

lemma get_priority_fine:
  assumes "pic_inv p" "pic_fine (f None)"
    "\<And>q. checked_add q (priority_add (pics p sel)) = Some (q + priority_add (pics p sel)) \<Longrightarrow> pic_fine (f (Some q))"
  shows "pic_fine (get_priority (pics p sel) bm \<bind> f)"
proof (cases rule: get_priority_spec [OF pic_invD(1) [OF assms(1), of sel], of bm])
  case 1
  then show ?thesis using assms(2) by simp
next
  case (2 q)
  have "unat q + unat (priority_add (pics p sel)) < 256"
    using 2(2) pic_invD(1) [OF assms(1), of sel] by (simp add: word_less_nat_alt)
  then show ?thesis using 2(1) assms(3) by (simp add: checked_add_def)
qed

lemma operation_command_word_2_fine:
  assumes inv: "pic_inv p"
  shows "pic_fine (operation_command_word_2 p sel v)"
proof -
  have upd: "pic_inv (pic_upd sel (\<lambda>pic. pic\<lparr>rotate_on_auto_eoi := b\<rparr>) p)" for b
    using inv by (auto simp: pic_inv_def)
  show ?thesis
  proof (cases "ocw2_n (v AND 0xe0)")
    case None
    then show ?thesis using inv by (simp add: operation_command_word_2_def)
  next
    case (Some c)
    then show ?thesis using upd [of True] upd [of False] inv
      by (cases c) (auto simp: operation_command_word_2_def Let_def and_7_le
        intro!: get_priority_fine pic_fine_bind pic_fine_ops)
  qed
qed

lemma pic_write_fine:
  assumes inv: "pic_inv p"
  shows "pic_fine (pic_write p io xs)"
proof -
  have inv': "pic_inv (pic_upd sel f p)" if "\<And>st. priority_add (f st) = priority_add st"
    "\<And>st. irq_base (f st) = irq_base st" for sel f
    using inv that by (auto simp: pic_inv_def)
  have base: "pic_inv (pic_upd sel (\<lambda>st. st\<lparr>irq_base := v AND 0xf8, init_state := Icw3\<rparr>) p)" for sel v
    using inv by (auto simp: pic_inv_def and.assoc)
  have cmd: "pic_fine (pic_write_command p sel v)" for sel v
    using operation_command_word_2_fine [OF inv] inv
    by (auto simp: pic_write_command_def init_command_word_1_def operation_command_word_3_def Let_def
      intro!: pic_fine_ops inv')
  have data: "pic_fine (pic_write_data p sel v)" for sel v
    by (cases "init_state (pics p sel)")
      (auto simp: pic_write_data_def intro!: pic_fine_ops inv' base)
  have elcr: "pic_inv (pic_write_elcr p sel v)" for sel v
    unfolding pic_write_elcr_def by (rule inv') simp_all
  show ?thesis using inv cmd data elcr by (simp add: pic_write_def split: list.split)
qed

lemma pic_read_total:
  assumes inv: "pic_inv p"
  shows "\<exists>p' ys. pic_read p io xs = Some (p', ys) \<and> pic_inv p' \<and> length ys = length xs"
proof -
  have cmd: "\<exists>p' v. pic_read_command p sel = Some (p', v) \<and> pic_inv p'" for sel
    using polled_read_total [OF inv, of sel] inv unfolding pic_read_command_def by (metis (full_types))
  have data: "\<exists>p' v. pic_read_data p sel = Some (p', v) \<and> pic_inv p'" for sel
    using polled_read_total [OF inv, of sel] inv unfolding pic_read_data_def by (metis (full_types))
  show ?thesis
    using inv cmd [of Primary] cmd [of Secondary] data [of Primary] data [of Secondary]
    by (auto simp: pic_read_def)
qed

section \<open>Delivery\<close>

lemma get_irq_cong: "pics p sel = pics q sel \<Longrightarrow> get_irq p sel = get_irq q sel"
  by (simp add: get_irq_def)

lemma get_irq_delivered:
  "pic_inv p \<Longrightarrow> delivers p sel n \<Longrightarrow> \<exists>irq. get_irq p sel = Some (Some irq) \<and> unat irq = n"
  by (rule get_irq_cases [of p sel]) (auto dest: delivers_unique)

lemma get_irq_quiet: "pic_inv p \<Longrightarrow> \<forall>n. \<not> delivers p sel n \<Longrightarrow> get_irq p sel = Some None"
  by (rule get_irq_cases [of p sel]) auto

text \<open>With nothing to deliver on the secondary controller, an update only raises the request flag.\<close>

lemma update_irq_quiet:
  assumes "get_irq p Secondary = Some None" "get_irq p Primary = Some i"
  shows "update_irq p = Some (p\<lparr>interrupt_request := interrupt_request p \<or> i \<noteq> None\<rparr>, i \<noteq> None)"
  using assms by (cases p) (auto simp: update_irq_def)

lemma set_irq_edge:
  assumes "irq \<le> 7" "\<not> bit (elcr st) (unat irq)" "\<not> bit (last_irr st) (unat irq)"
  shows "set_irq_internal st irq True =
    Some (st\<lparr>irr := irr st OR 2 ^ unat irq, last_irr := last_irr st OR 2 ^ unat irq\<rparr>)"
  using assms by (simp add: set_irq_internal_def and_line_zero Let_def)

lemma bit_set_line: "unat irq < 8 \<Longrightarrow> bit (x OR 2 ^ unat irq) n \<longleftrightarrow> bit x n \<or> n = unat irq"
  for x :: u8 and irq :: u8
  by (auto simp: bit_or_iff bit_exp_iff)

lemma bit_clear_line: "unat irq < 8 \<Longrightarrow> bit (x AND NOT (2 ^ unat irq)) n \<longleftrightarrow> bit x n \<and> n \<noteq> unat irq"
  for x :: u8 and irq :: u8
  by (auto simp: bit_and_iff bit_not_iff bit_exp_iff) (auto dest: bit_imp_possible_bit)

lemma interrupt_ack_plain:
  assumes "unat irq < 8" "\<not> auto_eoi (pics p sel)" "\<not> bit (elcr (pics p sel)) (unat irq)"
  shows "interrupt_ack p sel irq = Some (pic_upd sel
    (\<lambda>st. st\<lparr>isr := isr st OR 2 ^ unat irq, irr := irr st AND NOT (2 ^ unat irq)\<rparr>) p)"
  using assms by (simp add: interrupt_ack_def word_le_nat_alt and_line_zero Let_def)

interpretation pic_device: io_device pic_read pic_write pic_inv
  using pic_read_total pic_write_fine by unfold_locales (auto simp: pic_fine_def)

lemma raised_delivers:
  fixes irq :: u8
  assumes "unat irq < 8" "pic_inv p" "\<not> bit (imr (pics p Primary)) (unat irq)" "\<not> in_service p Primary (unat irq)"
    "\<forall>m. requested p Primary m \<or> in_service p Primary m \<longrightarrow>
      line_rank (pics p Primary) (unat irq) \<le> line_rank (pics p Primary) m"
    and q: "pics q Primary = (pics p Primary)\<lparr>irr := irr (pics p Primary) OR 2 ^ unat irq, last_irr := l\<rparr>"
  shows "delivers q Primary (unat irq)"
proof -
  have rank: "line_rank (pics q Primary) = line_rank (pics p Primary)" by (simp add: q line_rank_def fun_eq_iff)
  have req: "requested q Primary m \<longleftrightarrow> m = unat irq \<or> requested p Primary m" for m
    using assms(1,3) by (auto simp: q requested_def bit_set_line)
  have srv: "in_service q Primary m \<longleftrightarrow> in_service p Primary m" for m
    by (simp add: q in_service_def)
  have "line_rank (pics p Primary) (unat irq) < line_rank (pics p Primary) m" if "in_service p Primary m" for m
    using assms(4,5) that rank_inj [OF _ assms(1) _ pic_invD(1) [OF assms(2)], of Primary m]
    by (metis in_service_def le_neq_implies_less)
  then show ?thesis using assms(5) by (auto simp: delivers_def rank req srv)
qed

lemma external_interrupt_plain:
  assumes inv: "pic_inv p" and n: "unat irq < 8" "irq \<noteq> 2"
    and st: "\<not> auto_eoi (pics p Primary)" "\<not> bit (elcr (pics p Primary)) (unat irq)"
    and get: "get_irq p Primary = Some (Some irq)" "get_irq p Secondary = Some None"
  shows "\<exists>p2. get_external_interrupt p = Some (p2, Some (irq_base (pics p Primary) + irq)) \<and>
    bit (isr (pics p2 Primary)) (unat irq) \<and> \<not> bit (irr (pics p2 Primary)) (unat irq)"
proof -
  define q where "q = pic_upd Primary (\<lambda>st. st\<lparr>isr := isr st OR 2 ^ unat irq, irr := irr st AND NOT (2 ^ unat irq)\<rparr>)
    (p\<lparr>interrupt_request := False\<rparr>)"
  have ack: "interrupt_ack (p\<lparr>interrupt_request := False\<rparr>) Primary irq = Some q"
    unfolding q_def by (rule interrupt_ack_plain) (use n st in auto)
  have "pic_inv q" using inv by (auto simp: pic_inv_def q_def)
  then obtain i where i: "get_irq q Primary = Some i" by (rule get_irq_cases)
  have sec: "get_irq q Secondary = Some None"
    using get(2) get_irq_cong [of q Secondary p] by (simp add: q_def)
  have prim: "get_irq (p\<lparr>interrupt_request := False\<rparr>) Primary = Some (Some irq)"
    using get(1) get_irq_cong [of "p\<lparr>interrupt_request := False\<rparr>" Primary p] by simp
  have base: "checked_add (irq_base (pics q Primary)) irq = Some (irq_base (pics p Primary) + irq)"
    using irq_base_add(1) [OF pic_invD(2) [OF inv] n(1)] by (simp add: q_def)
  have "get_external_interrupt p =
      Some (q\<lparr>interrupt_request := interrupt_request q \<or> i \<noteq> None\<rparr>, Some (irq_base (pics p Primary) + irq))"
    unfolding get_external_interrupt_def Let_def prim bind.bind_lunit option.case ack
    using base n(2) update_irq_quiet [OF sec i] by simp
  then show ?thesis using n(1) by (auto simp: q_def bit_set_line bit_clear_line)
qed

section \<open>Properties\<close>

text \<open>C20: The search of \<open>get_irq\<close>, two rotating scans over bit masks, computes what the controller is
  specified to deliver: the unmasked request that comes first in the rotated order of priorities,
  when it comes before every line in service.  The lookup never panics and never loops.\<close>

theorem get_irq_is_highest:
  assumes "pic_inv p"
  shows "(\<exists>r. get_irq p sel = Some r) \<and>
    (get_irq p sel = Some (Some irq) \<longleftrightarrow> unat irq < 8 \<and> delivers p sel (unat irq))"
proof (cases rule: get_irq_cases [OF assms, of sel])
  case 1
  then show ?thesis by simp
next
  case (2 j)
  have "j = irq" if "delivers p sel (unat irq)"
    using delivers_unique [OF assms 2(3) that] by (simp add: word_unat_eq_iff)
  with 2 show ?thesis by auto
qed

lemma pic_inv_new: "pic_inv pic_new"
  by (simp add: pic_inv_def pic_new_def pic_state_default_def)

definition demo_pic :: pic where
  "demo_pic = pic_upd Primary (\<lambda>st. st\<lparr>irq_base := 0x20, irr := 0x18, isr := 0x20, imr := 0x08\<rparr>) pic_new"

lemma demo_pic_inv: "pic_inv demo_pic"
  using pic_inv_new by (simp add: pic_inv_def demo_pic_def)

theorem get_irq_is_highest_witness:
  "pic_inv demo_pic \<and> get_irq demo_pic Primary = Some (Some 4) \<and> delivers demo_pic Primary 4"
proof -
  have "get_irq demo_pic Primary = Some (Some 4)" by code_simp
  with get_irq_is_highest [OF demo_pic_inv, of Primary 4] demo_pic_inv show ?thesis by simp
qed


definition quiet_pic :: pic where
  "quiet_pic = register_resample_events (pic_upd Primary (\<lambda>st. st\<lparr>irq_base := 0x20\<rparr>) pic_new) [[], [], [], [7, 9]]"

lemma quiet_pic_facts:
  "pic_inv quiet_pic" "irq_base (pics quiet_pic Primary) = 0x20" "irr (pics quiet_pic sel) = 0"
  "isr (pics quiet_pic sel) = 0" "elcr (pics quiet_pic sel) = 0" "imr (pics quiet_pic sel) = 0"
  "last_irr (pics quiet_pic sel) = 0" "\<not> auto_eoi (pics quiet_pic sel)"
  by (simp_all add: quiet_pic_def register_resample_events_def pic_inv_def pic_new_def pic_state_default_def)


lemma update_irq_keeps:
  assumes "update_irq p = Some (p', b)"
  shows "isr (pics p' sel) = isr (pics p sel)" "signalled p' = signalled p"
    "resample_events p' = resample_events p"
  using assms
  by (auto simp: update_irq_def set_irq_internal_def assert_that_def split: bind_splits if_splits)

lemma clear_isr_update:
  assumes "pic_inv p" "irq \<le> 7"
  obtains p' where "clear_isr p sel irq \<bind> (\<lambda>p. map_option fst (update_irq p)) = Some p'"
    "\<forall>n. bit (isr (pics p' sel)) n \<longleftrightarrow> bit (isr (pics p sel)) n \<and> n \<noteq> unat irq"
    "signalled p' = rev (gsi_events p sel (unat irq)) @ signalled p"
proof -
  have n: "unat irq < 8" using assms(2) by (simp add: word_le_nat_alt)
  obtain i l where c: "clear_isr p sel irq = Some (p\<lparr>pics := (pics p)(sel := (pics p sel)
      \<lparr>isr := isr (pics p sel) AND NOT (2 ^ unat irq), irr := i, last_irr := l\<rparr>),
      signalled := rev (gsi_events p sel (unat irq)) @ signalled p\<rparr>)" (is "_ = Some ?q")
    by (rule clear_isr_signals [OF assms(2)])
  have "pic_inv ?q" using assms(1) by (auto simp: pic_inv_def)
  then obtain p' b where u: "update_irq ?q = Some (p', b)" by (rule update_irq_total)
  from that [of p'] show thesis
    using c u update_irq_keeps [OF u] by (simp add: bit_clear_line [OF n])
qed

lemma line_cases:
  fixes irq :: u8
  assumes "irq \<le> 7"
  shows "irq \<in> {0, 1, 2, 3, 4, 5, 6, 7}"
  using assms by (simp add: word_unat_eq_iff word_le_nat_alt) arith

lemma ocw2_dispatch:
  fixes irq :: u8
  assumes "irq \<le> 7"
  shows "(0x60 OR irq) AND 0x10 = 0" "(0x60 OR irq) AND 0x08 = 0"
    "(0x60 OR irq) AND 0x07 = irq" "(0x60 OR irq) AND 0xe0 = 0x60"
  using line_cases [OF assms] by auto

text \<open>C31: End of interrupt.  The specific command takes exactly its line out of service and signals
  exactly the resample events of that line; the non-specific command does the same for the line in
  service that is first in the rotated order, and does nothing when no line is in service.\<close>

theorem end_of_interrupt:
  assumes inv: "pic_inv p" and irq: "irq \<le> 7"
  shows "(\<exists>p'. pic_write_command p sel (0x60 OR irq) = Some p' \<and>
      (\<forall>n. bit (isr (pics p' sel)) n \<longleftrightarrow> bit (isr (pics p sel)) n \<and> n \<noteq> unat irq) \<and>
      signalled p' = rev (gsi_events p sel (unat irq)) @ signalled p) \<and>
    (isr (pics p sel) = 0 \<longrightarrow> pic_write_command p sel 0x20 = Some p) \<and>
    (isr (pics p sel) \<noteq> 0 \<longrightarrow> (\<exists>p' m. pic_write_command p sel 0x20 = Some p' \<and>
      bit (isr (pics p sel)) m \<and>
      (\<forall>n. bit (isr (pics p sel)) n \<longrightarrow> line_rank (pics p sel) m \<le> line_rank (pics p sel) n) \<and>
      (\<forall>n. bit (isr (pics p' sel)) n \<longleftrightarrow> bit (isr (pics p sel)) n \<and> n \<noteq> m) \<and>
      signalled p' = rev (gsi_events p sel m) @ signalled p))"
proof (intro conjI impI)
  have "pic_write_command p sel (0x60 OR irq) =
      clear_isr p sel irq \<bind> (\<lambda>p. map_option fst (update_irq p))"
    by (simp add: pic_write_command_def operation_command_word_2_def ocw2_dispatch [OF irq] ocw2_n_def)
  then show "\<exists>p'. pic_write_command p sel (0x60 OR irq) = Some p' \<and>
      (\<forall>n. bit (isr (pics p' sel)) n \<longleftrightarrow> bit (isr (pics p sel)) n \<and> n \<noteq> unat irq) \<and>
      signalled p' = rev (gsi_events p sel (unat irq)) @ signalled p"
    using clear_isr_update [OF inv irq, of sel] by metis
next
  assume "isr (pics p sel) = 0"
  then show "pic_write_command p sel 0x20 = Some p"
    by (simp add: pic_write_command_def operation_command_word_2_def ocw2_n_def get_priority_def)
next
  assume nz: "isr (pics p sel) \<noteq> 0"
  note add = pic_invD(1) [OF inv, of sel]
  obtain q where q: "get_priority (pics p sel) (isr (pics p sel)) = Some (Some q)" "unat q < 8"
      "bit (isr (pics p sel)) (rank_line (pics p sel) (unat q))"
    using nz by (rule_tac get_priority_spec [OF add, of "isr (pics p sel)"]) auto
  obtain s where s: "checked_add q (priority_add (pics p sel)) = Some s"
      "unat (s AND 7) = rank_line (pics p sel) (unat q)"
    using checked_add_ex [of q "priority_add (pics p sel)"] q(2) add
    by (auto simp: word_less_nat_alt unat_and_7 rank_line_def)
  have "pic_write_command p sel 0x20 =
      clear_isr p sel (s AND 7) \<bind> (\<lambda>p. map_option fst (update_irq p))"
    using q(1) s(1) by (simp add: pic_write_command_def operation_command_word_2_def ocw2_n_def)
  moreover have "line_rank (pics p sel) (unat (s AND 7)) \<le> line_rank (pics p sel) n"
    if "bit (isr (pics p sel)) n" for n
    using get_priority_min [OF add q(1) _ that] bit_imp_le_length [OF that] s(2) q(2) add
    by (simp add: line_rank_line)
  ultimately show "\<exists>p' m. pic_write_command p sel 0x20 = Some p' \<and> bit (isr (pics p sel)) m \<and>
      (\<forall>n. bit (isr (pics p sel)) n \<longrightarrow> line_rank (pics p sel) m \<le> line_rank (pics p sel) n) \<and>
      (\<forall>n. bit (isr (pics p' sel)) n \<longleftrightarrow> bit (isr (pics p sel)) n \<and> n \<noteq> m) \<and>
      signalled p' = rev (gsi_events p sel m) @ signalled p"
    using clear_isr_update [OF inv and_7_le, of sel s] q(3) s(2) by metis
qed

theorem end_of_interrupt_witness:
  "\<exists>p'. pic_write_command quiet_pic Primary 0x63 = Some p' \<and> signalled p' = [9, 7] \<and>
    isr (pics quiet_pic Primary) = 0"
proof -
  have "gsi_events quiet_pic Primary 3 = [7, 9]" "signalled quiet_pic = []" by code_simp+
  then show ?thesis
    using end_of_interrupt [OF quiet_pic_facts(1), of 3 Primary] quiet_pic_facts(4) [of Primary] by auto
qed


end
