(* ===== verification/Serial.thy ===== *)
theory Serial
  imports Io_Bus
begin

text \<open>
The serial port of \<open>devices/src/serial.rs\<close>: its registers, the interrupt logic, the input thread and its
channel, and suspending.  The theory shows that the registers keep their invariant under every
operation, that the device meets the contract of a bus device while it is awake, and that input
reaches the guest in order and without loss.
\<close>

section \<open>The device\<close>

text \<open>The channel from the input thread: the bytes sent and not yet received, and whether the sending
  end still exists.  The input stream moves from the device into the thread and back, so only its
  presence is kept; the output stream is the list of bytes it has accepted and whether it fails; the
  interrupt event is the number of times it was signalled.  Signalling and duplicating the event are
  taken to succeed.\<close>

record channel =
  chan_bytes :: "u8 list"
  chan_open :: bool

datatype device_state = Awake | Sleep

record serial =
  interrupt_enable :: u8
  interrupt_identification :: u8
  interrupt_evt :: nat
  line_control :: u8
  line_status :: u8
  modem_control :: u8
  modem_status :: u8
  scratch :: u8
  baud_divisor :: u16
  in_buffer :: "u8 list"
  in_channel :: "channel option"
  has_input :: bool
  serial_out :: "u8 list option"
  out_fails :: bool
  out_timestamp :: bool
  last_write_was_newline :: bool
  serial_state :: device_state
  has_worker :: bool

definition serial_new :: "bool \<Rightarrow> u8 list option \<Rightarrow> bool \<Rightarrow> serial" where
  "serial_new inp outp timestamp =
     \<lparr>interrupt_enable = 0, interrupt_identification = 0x1, interrupt_evt = 0, line_control = 0x3,
      line_status = 0x20 OR 0x40, modem_control = 0x08, modem_status = 0x20 OR 0x10 OR 0x80, scratch = 0,
      baud_divisor = 12, in_buffer = [], in_channel = None, has_input = inp, serial_out = outp, out_fails = False,
      out_timestamp = timestamp, last_write_was_newline = True, serial_state = Awake, has_worker = False\<rparr>"

definition is_dlab_set :: "serial \<Rightarrow> bool" where
  "is_dlab_set s \<longleftrightarrow> line_control s AND 0x80 \<noteq> 0"

definition is_recv_intr_enabled :: "serial \<Rightarrow> bool" where
  "is_recv_intr_enabled s \<longleftrightarrow> interrupt_enable s AND 0x1 \<noteq> 0"

definition is_thr_intr_enabled :: "serial \<Rightarrow> bool" where
  "is_thr_intr_enabled s \<longleftrightarrow> interrupt_enable s AND 0x2 \<noteq> 0"

definition is_thr_intr_changed :: "serial \<Rightarrow> u8 \<Rightarrow> bool" where
  "is_thr_intr_changed s b \<longleftrightarrow> (interrupt_enable s XOR b) AND 0x0f \<noteq> 0"

definition is_loop :: "serial \<Rightarrow> bool" where
  "is_loop s \<longleftrightarrow> modem_control s AND 0x10 \<noteq> 0"

definition add_intr_bit :: "serial \<Rightarrow> u8 \<Rightarrow> serial" where
  "add_intr_bit s b = s\<lparr>interrupt_identification := interrupt_identification s AND NOT 0x1 OR b\<rparr>"

definition del_intr_bit :: "serial \<Rightarrow> u8 \<Rightarrow> serial" where
  "del_intr_bit s b =
     (let iir = interrupt_identification s AND NOT b
      in s\<lparr>interrupt_identification := (if iir = 0 then 0x1 else iir)\<rparr>)"

definition signal_interrupt :: "serial \<Rightarrow> serial" where
  "signal_interrupt s = s\<lparr>interrupt_evt := interrupt_evt s + 1\<rparr>"

definition trigger_thr_empty :: "serial \<Rightarrow> serial" where
  "trigger_thr_empty s = (if is_thr_intr_enabled s then signal_interrupt (add_intr_bit s 0x2) else s)"

definition trigger_recv_interrupt :: "serial \<Rightarrow> serial" where
  "trigger_recv_interrupt s =
     (if is_recv_intr_enabled s \<and> interrupt_identification s AND 0x4 = 0
      then signal_interrupt (add_intr_bit s 0x4) else s)"

definition set_data_bit :: "serial \<Rightarrow> serial" where
  "set_data_bit s = s\<lparr>line_status := line_status s OR 0x1\<rparr>"

definition is_data_avaiable :: "serial \<Rightarrow> bool" where
  "is_data_avaiable s \<longleftrightarrow> line_status s AND 0x1 \<noteq> 0"

definition iir_reset :: "serial \<Rightarrow> serial" where
  "iir_reset s = s\<lparr>interrupt_identification := 0x1\<rparr>"

definition queue_input_bytes :: "serial \<Rightarrow> u8 list \<Rightarrow> serial" where
  "queue_input_bytes s c =
     (if c \<noteq> [] \<and> \<not> is_loop s
      then trigger_recv_interrupt (set_data_bit (s\<lparr>in_buffer := in_buffer s @ c\<rparr>)) else s)"

definition spawn_input_thread :: "serial \<Rightarrow> serial" where
  "spawn_input_thread s =
     (if has_input s then s\<lparr>has_input := False, has_worker := True,
          in_channel := Some \<lparr>chan_bytes = [], chan_open = True\<rparr>\<rparr>
      else s)"

text \<open>What the input thread does with the result of one \<open>read\<close>: a byte goes to the channel, if the
  receiver is still there, and raises the interrupt; the end of the stream or an error ends the thread,
  which drops the sender.\<close>

datatype read_result = ReadByte u8 | ReadEnd | ReadInterrupted | ReadError

definition end_input_thread :: "serial \<Rightarrow> serial" where
  "end_input_thread s = s\<lparr>in_channel := map_option (chan_open_update (\<lambda>_. False)) (in_channel s)\<rparr>"

fun input_thread :: "serial \<Rightarrow> read_result \<Rightarrow> serial" where
  "input_thread s (ReadByte b) =
     (case in_channel s of
       None \<Rightarrow> s
     | Some ch \<Rightarrow>
         if chan_open ch then
           let s = s\<lparr>in_channel := Some (ch\<lparr>chan_bytes := chan_bytes ch @ [b]\<rparr>)\<rparr>
           in if is_recv_intr_enabled s then signal_interrupt s else s
         else s)"
| "input_thread s ReadEnd = end_input_thread s"
| "input_thread s ReadInterrupted = s"
| "input_thread s ReadError = end_input_thread s"

text \<open>Stopping the thread hands the input stream back and drops the sender.\<close>

definition stop_worker :: "serial \<Rightarrow> serial" where
  "stop_worker s = (if has_worker s then end_input_thread s\<lparr>has_worker := False, has_input := True\<rparr> else s)"

fun drain_bytes :: "u8 list \<Rightarrow> serial \<Rightarrow> serial" where
  "drain_bytes [] s = s"
| "drain_bytes (b # bs) s = drain_bytes bs (queue_input_bytes s [b])"

definition drain_in_channel :: "serial \<Rightarrow> serial" where
  "drain_in_channel s =
     (case in_channel s of
       None \<Rightarrow> s
     | Some ch \<Rightarrow> (drain_bytes (chan_bytes ch) s)
         \<lparr>in_channel := (if chan_open ch then Some (ch\<lparr>chan_bytes := []\<rparr>) else None)\<rparr>)"

text \<open>\<open>now\<close> is the formatted time stamp.\<close>

definition handle_write_data :: "u8 list \<Rightarrow> serial \<Rightarrow> u8 \<Rightarrow> serial \<times> (unit, unit) result" where
  "handle_write_data now s v =
     (case serial_out s of
       None \<Rightarrow> (s, Ok ())
     | Some bytes \<Rightarrow>
         let stamp = out_timestamp s \<and> last_write_was_newline s
         in if stamp \<and> out_fails s then (s, Err ())
            else
              let s = s\<lparr>serial_out := Some (if stamp then bytes @ now else bytes), last_write_was_newline := (v = 0x0a)\<rparr>
              in if out_fails s then (s, Err ())
                 else (s\<lparr>serial_out := map_option (\<lambda>bs. bs @ [v]) (serial_out s)\<rparr>, Ok ()))"

definition handle_write :: "u8 list \<Rightarrow> serial \<Rightarrow> u8 \<Rightarrow> u8 \<Rightarrow> serial \<times> (unit, unit) result" where
  "handle_write now s off v =
     (if off = 0 \<and> is_dlab_set s then (s\<lparr>baud_divisor := baud_divisor s AND 0xff00 OR ucast v\<rparr>, Ok ())
      else if off = 1 \<and> is_dlab_set s then (s\<lparr>baud_divisor := baud_divisor s AND 0x00ff OR push_bit 8 (ucast v)\<rparr>, Ok ())
      else if off = 0 then
        if is_loop s then
          if length (in_buffer s) < 0x40
          then (trigger_recv_interrupt (set_data_bit (s\<lparr>in_buffer := in_buffer s @ [v]\<rparr>)), Ok ())
          else (s, Ok ())
        else (case handle_write_data now s v of
            (s, Err e) \<Rightarrow> (s, Err e)
          | (s, Ok _) \<Rightarrow> (trigger_thr_empty s, Ok ()))
      else if off = 1 then
        let tx_changed = is_thr_intr_changed s v;
            s = s\<lparr>interrupt_enable := v AND 0x0f\<rparr>;
            s = (if is_data_avaiable s then trigger_recv_interrupt s else s)
        in (if tx_changed then trigger_thr_empty s else s, Ok ())
      else if off = 3 then (s\<lparr>line_control := v\<rparr>, Ok ())
      else if off = 4 then (s\<lparr>modem_control := v\<rparr>, Ok ())
      else if off = 7 then (s\<lparr>scratch := v\<rparr>, Ok ())
      else (s, Ok ()))"

definition serial_write :: "u8 list \<Rightarrow> serial \<Rightarrow> bus_access_info \<Rightarrow> u8 list \<Rightarrow> serial option" where
  "serial_write now s info data = do {
     assert_that (serial_state s \<noteq> Sleep);
     case data of
       [v] \<Rightarrow> Some (fst (handle_write now s (ucast (access_offset info)) v))
     | _ \<Rightarrow> Some s
   }"

definition loop_modem_status :: "serial \<Rightarrow> u8" where
  "loop_modem_status s =
     (let msr = modem_status s AND NOT (0x20 OR 0x10 OR 0x40 OR 0x80);
          msr = (if modem_control s AND 0x01 \<noteq> 0 then msr OR 0x20 else msr);
          msr = (if modem_control s AND 0x02 \<noteq> 0 then msr OR 0x10 else msr);
          msr = (if modem_control s AND 0x04 \<noteq> 0 then msr OR 0x40 else msr)
      in if modem_control s AND 0x08 \<noteq> 0 then msr OR 0x80 else msr)"

definition read_register :: "serial \<Rightarrow> u8 \<Rightarrow> serial \<times> u8" where
  "read_register s off =
     (if off = 0 \<and> is_dlab_set s then (s, ucast (baud_divisor s))
      else if off = 1 \<and> is_dlab_set s then (s, ucast (drop_bit 8 (baud_divisor s)))
      else if off = 0 then
        let s = del_intr_bit s 0x4;
            s = (if length (in_buffer s) \<le> 1 then s\<lparr>line_status := line_status s AND NOT 0x1\<rparr> else s)
        in (case in_buffer s of [] \<Rightarrow> (s, 0) | b # bs \<Rightarrow> (s\<lparr>in_buffer := bs\<rparr>, b))
      else if off = 1 then (s, interrupt_enable s)
      else if off = 2 then (iir_reset s, interrupt_identification s OR 0xc0)
      else if off = 3 then (s, line_control s)
      else if off = 4 then (s, modem_control s)
      else if off = 5 then (s, line_status s)
      else if off = 6 then (s, if is_loop s then loop_modem_status s else modem_status s)
      else if off = 7 then (s, scratch s)
      else (s, 0))"

definition serial_read :: "serial \<Rightarrow> bus_access_info \<Rightarrow> u8 list \<Rightarrow> (serial \<times> u8 list) option" where
  "serial_read s info data = do {
     assert_that (serial_state s \<noteq> Sleep);
     if length data \<noteq> 1 then Some (s, data)
     else
       let s = (if has_input s then spawn_input_thread s else s);
           s = drain_in_channel s
       in case read_register s (ucast (access_offset info)) of (s, v) \<Rightarrow> Some (s, [v])
   }"

section \<open>Suspending\<close>

record serial_snapshot =
  snap_interrupt_enable :: u8
  snap_interrupt_identification :: u8
  snap_line_control :: u8
  snap_line_status :: u8
  snap_modem_control :: u8
  snap_modem_status :: u8
  snap_scratch :: u8
  snap_baud_divisor :: u16
  snap_in_buffer :: "u8 list"
  snap_has_input :: bool
  snap_has_output :: bool
  snap_last_write_was_newline :: bool

definition serial_take_snapshot :: "serial \<Rightarrow> serial \<times> serial_snapshot" where
  "serial_take_snapshot s =
     (let s = drain_in_channel (stop_worker (spawn_input_thread s))
      in (s, \<lparr>snap_interrupt_enable = interrupt_enable s, snap_interrupt_identification = interrupt_identification s,
        snap_line_control = line_control s, snap_line_status = line_status s, snap_modem_control = modem_control s,
        snap_modem_status = modem_status s, snap_scratch = scratch s, snap_baud_divisor = baud_divisor s,
        snap_in_buffer = in_buffer s, snap_has_input = has_input s, snap_has_output = (serial_out s \<noteq> None),
        snap_last_write_was_newline = last_write_was_newline s\<rparr>))"

definition serial_restore :: "serial \<Rightarrow> serial_snapshot \<Rightarrow> serial" where
  "serial_restore s snap = s\<lparr>interrupt_enable := snap_interrupt_enable snap,
     interrupt_identification := snap_interrupt_identification snap, line_control := snap_line_control snap,
     line_status := snap_line_status snap, modem_control := snap_modem_control snap,
     modem_status := snap_modem_status snap, scratch := snap_scratch snap, baud_divisor := snap_baud_divisor snap,
     in_buffer := snap_in_buffer snap, last_write_was_newline := snap_last_write_was_newline snap\<rparr>"

definition serial_sleep :: "serial \<Rightarrow> serial" where
  "serial_sleep s =
     (if serial_state s \<noteq> Sleep
      then (drain_in_channel (stop_worker (s\<lparr>serial_state := Sleep\<rparr>)))\<lparr>in_channel := None\<rparr>
      else s)"

definition serial_wake :: "serial \<Rightarrow> serial" where
  "serial_wake s =
     (if serial_state s \<noteq> Awake
      then let s = s\<lparr>serial_state := Awake\<rparr> in if has_input s then spawn_input_thread s else s
      else s)"

section \<open>Input in order\<close>

text \<open>The bytes the host has sent and the guest has not read.\<close>

definition serial_pending :: "serial \<Rightarrow> u8 list" where
  "serial_pending s = in_buffer s @ (case in_channel s of None \<Rightarrow> [] | Some ch \<Rightarrow> chan_bytes ch)"

text \<open>The data bit of the line status is set exactly while the buffer holds bytes, the interrupt
  identification is one of the four values the guest may see, and a device that still owns its
  input stream has no channel.\<close>

definition uart_ok :: "serial \<Rightarrow> bool" where
  "uart_ok s \<longleftrightarrow> line_status s = (if in_buffer s = [] then 0x60 else 0x61) \<and>
     interrupt_identification s \<in> {1, 2, 4, 6} \<and> interrupt_enable s \<le> 0x0f"

definition serial_inv :: "serial \<Rightarrow> bool" where
  "serial_inv s \<longleftrightarrow> uart_ok s \<and> (has_input s \<longrightarrow> in_channel s = None)"

definition serial_normal :: "serial \<Rightarrow> bool" where
  "serial_normal s \<longleftrightarrow> serial_state s = Awake \<and> \<not> is_loop s \<and> \<not> is_dlab_set s"

lemmas uart_defs = is_dlab_set_def is_recv_intr_enabled_def is_thr_intr_enabled_def is_thr_intr_changed_def is_loop_def
  add_intr_bit_def del_intr_bit_def signal_interrupt_def trigger_thr_empty_def trigger_recv_interrupt_def set_data_bit_def
  is_data_avaiable_def iir_reset_def queue_input_bytes_def spawn_input_thread_def end_input_thread_def stop_worker_def

lemma serial_new_inv: "serial_inv (serial_new i out t)" "serial_normal (serial_new i out t)" "serial_pending (serial_new i out t) = []"
  by (simp_all add: serial_new_def serial_inv_def uart_ok_def serial_normal_def serial_pending_def uart_defs)

lemma iir_bits:
  assumes "(v :: u8) \<in> {1, 2, 4, 6}"
  shows "v AND NOT 1 OR 2 \<in> {1, 2, 4, 6}" "v AND NOT 1 OR 4 \<in> {1, 2, 4, 6}"
  using assms by auto

lemma trigger_ok: "uart_ok s \<Longrightarrow> uart_ok (trigger_recv_interrupt s)"
  using iir_bits [of "interrupt_identification s"] unfolding uart_ok_def uart_defs by simp

lemma trigger_inv:
  assumes "serial_inv s"
  shows "serial_inv (trigger_thr_empty s)" "serial_inv (trigger_recv_interrupt s)" "serial_inv (iir_reset s)"
  using assms iir_bits [of "interrupt_identification s"] unfolding serial_inv_def uart_ok_def uart_defs by simp_all

lemma del_intr_inv: "serial_inv s \<Longrightarrow> serial_inv (del_intr_bit s 4)"
  by (auto simp: serial_inv_def uart_ok_def del_intr_bit_def Let_def)

lemma queue_input_ok:
  assumes "uart_ok s"
  shows "uart_ok (queue_input_bytes s c)"
proof -
  have "uart_ok (set_data_bit (s\<lparr>in_buffer := in_buffer s @ c\<rparr>))" if "c \<noteq> []"
    using assms that by (auto simp: uart_ok_def set_data_bit_def split: if_splits)
  then show ?thesis using assms trigger_ok by (auto simp: queue_input_bytes_def)
qed

lemma queue_input_frame [simp]:
  "in_channel (queue_input_bytes s c) = in_channel s" "serial_state (queue_input_bytes s c) = serial_state s"
  "line_control (queue_input_bytes s c) = line_control s" "modem_control (queue_input_bytes s c) = modem_control s"
  "has_input (queue_input_bytes s c) = has_input s" "has_worker (queue_input_bytes s c) = has_worker s"
  "in_buffer (queue_input_bytes s c) = (if is_loop s then in_buffer s else in_buffer s @ c)"
  by (simp_all add: queue_input_bytes_def trigger_recv_interrupt_def signal_interrupt_def add_intr_bit_def set_data_bit_def)

lemma drain_bytes_frame [simp]:
  "in_channel (drain_bytes bs s) = in_channel s" "serial_state (drain_bytes bs s) = serial_state s"
  "line_control (drain_bytes bs s) = line_control s" "modem_control (drain_bytes bs s) = modem_control s"
  "has_input (drain_bytes bs s) = has_input s" "has_worker (drain_bytes bs s) = has_worker s"
  by (induction bs arbitrary: s) simp_all

lemma drain_bytes_buffer: "in_buffer (drain_bytes bs s) = (if is_loop s then in_buffer s else in_buffer s @ bs)"
  by (induction bs arbitrary: s) (simp_all add: is_loop_def)

lemma drain_bytes_ok: "uart_ok s \<Longrightarrow> uart_ok (drain_bytes bs s)"
  by (induction bs arbitrary: s) (simp_all add: queue_input_ok)

lemma drain_in_channel_ok:
  assumes "uart_ok s"
  shows "uart_ok (drain_in_channel s)"
  using drain_bytes_ok [OF assms] assms by (auto simp: drain_in_channel_def uart_ok_def split: option.split)

lemma drain_in_channel_inv:
  assumes "serial_inv s"
  shows "serial_inv (drain_in_channel s)"
  using assms drain_in_channel_ok [of s] by (auto simp: drain_in_channel_def serial_inv_def split: option.splits)

lemma drain_in_channel_frame [simp]:
  "serial_state (drain_in_channel s) = serial_state s" "line_control (drain_in_channel s) = line_control s"
  "modem_control (drain_in_channel s) = modem_control s" "has_input (drain_in_channel s) = has_input s"
  "has_worker (drain_in_channel s) = has_worker s"
  by (simp_all add: drain_in_channel_def split: option.split)

lemma drain_in_channel_buffer:
  assumes "\<not> is_loop s"
  shows "in_buffer (drain_in_channel s) = serial_pending s" "serial_pending (drain_in_channel s) = serial_pending s"
  using assms by (auto simp: drain_in_channel_def serial_pending_def drain_bytes_buffer split: option.split)

lemma spawn_inv: "serial_inv s \<Longrightarrow> serial_inv (spawn_input_thread s)"
  by (simp add: serial_inv_def uart_ok_def spawn_input_thread_def)

lemma spawn_frame [simp]:
  "serial_state (spawn_input_thread s) = serial_state s" "line_control (spawn_input_thread s) = line_control s"
  "modem_control (spawn_input_thread s) = modem_control s" "in_buffer (spawn_input_thread s) = in_buffer s"
  by (simp_all add: spawn_input_thread_def)

lemma spawn_pending: "serial_inv s \<Longrightarrow> serial_pending (spawn_input_thread s) = serial_pending s"
  by (auto simp: serial_inv_def uart_ok_def spawn_input_thread_def serial_pending_def)

text \<open>What every access keeps of the device, apart from the data it moves.\<close>

definition same_mode :: "serial \<Rightarrow> serial \<Rightarrow> bool" where
  "same_mode s s' \<longleftrightarrow> serial_state s' = serial_state s \<and> line_control s' = line_control s \<and> modem_control s' = modem_control s"

lemma del_intr_bit_frame:
  "in_buffer (del_intr_bit s b) = in_buffer s" "in_channel (del_intr_bit s b) = in_channel s" "same_mode s (del_intr_bit s b)"
  by (simp_all add: del_intr_bit_def same_mode_def Let_def)

lemma read_register_data:
  assumes "serial_inv s" "\<not> is_dlab_set s" "read_register s 0 = (s', v)"
  shows "serial_inv s'" "in_buffer s' = tl (in_buffer s)" "in_channel s' = in_channel s" "same_mode s s'"
    "v = (case in_buffer s of [] \<Rightarrow> 0 | b # _ \<Rightarrow> b)"
proof -
  define d where "d = del_intr_bit s 4"
  have d: "serial_inv d" "in_buffer d = in_buffer s" "in_channel d = in_channel s" "same_mode s d"
    unfolding d_def by (rule del_intr_inv [OF assms(1)]) (simp_all only: del_intr_bit_frame)
  let ?c = "d\<lparr>line_status := line_status d AND NOT 0x1\<rparr>"
  have r: "read_register s 0 = (let s = (if length (in_buffer d) \<le> 1 then ?c else d)
      in (case in_buffer s of [] \<Rightarrow> (s, 0) | b # bs \<Rightarrow> (s\<lparr>in_buffer := bs\<rparr>, b)))"
    using assms(2) unfolding read_register_def d_def by (simp only: Let_def if_False if_True simp_thms)
  have "serial_inv s' \<and> in_buffer s' = tl (in_buffer s) \<and> in_channel s' = in_channel s \<and> same_mode s s' \<and>
      v = (case in_buffer s of [] \<Rightarrow> 0 | b # _ \<Rightarrow> b)"
  proof (cases "in_buffer d")
    case Nil
    then have "s' = ?c" "v = 0" using r assms(3) by simp_all
    then show ?thesis using d Nil by (simp add: serial_inv_def uart_ok_def same_mode_def)
  next
    case (Cons b bs)
    then have "s' = (if bs = [] then ?c else d)\<lparr>in_buffer := bs\<rparr>" "v = b" using r assms(3) by (cases bs; simp)+
    moreover have "in_buffer s = b # bs" using Cons d(2) by simp
    ultimately show ?thesis using d(1,3,4) Cons by (simp add: serial_inv_def uart_ok_def same_mode_def)
  qed
  then show "serial_inv s'" "in_buffer s' = tl (in_buffer s)" "in_channel s' = in_channel s" "same_mode s s'"
    "v = (case in_buffer s of [] \<Rightarrow> 0 | b # _ \<Rightarrow> b)" by auto
qed

lemma read_register_frame:
  assumes "off \<noteq> 0 \<or> is_dlab_set s"
  shows "fst (read_register s off) = (if off = 2 then iir_reset s else s)"
  using assms by (simp add: read_register_def)

lemma read_register_inv:
  assumes "serial_inv s"
  shows "serial_inv (fst (read_register s off))" "same_mode s (fst (read_register s off))"
proof -
  have "serial_inv (fst (read_register s off)) \<and> same_mode s (fst (read_register s off))"
  proof (cases "off \<noteq> 0 \<or> is_dlab_set s")
    case True
    then show ?thesis using assms trigger_inv(3) [OF assms] by (auto simp: read_register_frame same_mode_def iir_reset_def)
  next
    case False
    then show ?thesis using read_register_data [OF assms, of "fst (read_register s 0)" "snd (read_register s 0)"] by simp
  qed
  then show "serial_inv (fst (read_register s off))" "same_mode s (fst (read_register s off))" by auto
qed

lemma trigger_frame [simp]:
  "in_buffer (trigger_thr_empty s) = in_buffer s" "in_channel (trigger_thr_empty s) = in_channel s"
  "same_mode s' (trigger_thr_empty s) = same_mode s' s"
  "in_buffer (trigger_recv_interrupt s) = in_buffer s" "in_channel (trigger_recv_interrupt s) = in_channel s"
  "same_mode s' (trigger_recv_interrupt s) = same_mode s' s"
  by (simp_all add: trigger_thr_empty_def trigger_recv_interrupt_def signal_interrupt_def add_intr_bit_def same_mode_def)

lemma serial_inv_frame [simp]:
  "serial_inv (s\<lparr>baud_divisor := w\<rparr>) = serial_inv s" "serial_inv (s\<lparr>line_control := v\<rparr>) = serial_inv s"
  "serial_inv (s\<lparr>modem_control := v\<rparr>) = serial_inv s" "serial_inv (s\<lparr>scratch := v\<rparr>) = serial_inv s"
  "serial_inv (s\<lparr>serial_state := st\<rparr>) = serial_inv s"
  by (simp_all add: serial_inv_def uart_ok_def)

lemma handle_write_data_out:
  "fst (handle_write_data now s v) = s\<lparr>serial_out := serial_out (fst (handle_write_data now s v)),
     last_write_was_newline := last_write_was_newline (fst (handle_write_data now s v))\<rparr>"
  by (simp add: handle_write_data_def Let_def split: option.split)

lemma handle_write_data_frame:
  assumes "handle_write_data now s v = (s', r)"
  shows "serial_inv s \<Longrightarrow> serial_inv s'" "in_buffer s' = in_buffer s" "in_channel s' = in_channel s" "same_mode s s'"
proof -
  obtain b n where e: "s' = s\<lparr>serial_out := b, last_write_was_newline := n\<rparr>" using handle_write_data_out [of now s v] assms by auto
  show "serial_inv s \<Longrightarrow> serial_inv s'" "in_buffer s' = in_buffer s" "in_channel s' = in_channel s" "same_mode s s'"
    unfolding e by (simp_all add: serial_inv_def uart_ok_def same_mode_def)
qed

lemma write_ier:
  fixes v :: u8
  assumes "serial_inv s"
  shows "serial_inv (s\<lparr>interrupt_enable := v AND 0x0f\<rparr>)"
  using assms word_and_le1 [of v 15] by (simp add: serial_inv_def uart_ok_def)

lemma handle_write_data_reg:
  assumes "serial_inv s" "\<not> is_dlab_set s"
  shows "serial_inv (fst (handle_write now s 0 v))" "same_mode s (fst (handle_write now s 0 v))"
    "\<not> is_loop s \<Longrightarrow> serial_pending (fst (handle_write now s 0 v)) = serial_pending s"
proof -
  let ?l = "set_data_bit (s\<lparr>in_buffer := in_buffer s @ [v]\<rparr>)"
  obtain s1 r where h: "handle_write_data now s v = (s1, r)" by (cases "handle_write_data now s v")
  note f = handle_write_data_frame [OF h]
  have l: "serial_inv ?l" "same_mode s ?l" using assms(1) by (auto simp: serial_inv_def uart_ok_def set_data_bit_def same_mode_def split: if_splits)
  have e: "fst (handle_write now s 0 v) = (if is_loop s then if length (in_buffer s) < 0x40 then trigger_recv_interrupt ?l else s
      else case r of Err _ \<Rightarrow> s1 | Ok _ \<Rightarrow> trigger_thr_empty s1)"
    using assms(2) h by (simp add: handle_write_def split: result.split)
  show "serial_inv (fst (handle_write now s 0 v))"
    unfolding e using assms(1) f(1) l(1) trigger_inv by (simp split: result.split)
  show "same_mode s (fst (handle_write now s 0 v))"
    unfolding e using f(4) l(2) by (simp add: same_mode_def split: result.split) (simp add: same_mode_def [symmetric])
  show "\<not> is_loop s \<Longrightarrow> serial_pending (fst (handle_write now s 0 v)) = serial_pending s"
    unfolding e using f(2,3) by (simp add: serial_pending_def split: result.split)
qed

lemma handle_write_ier:
  assumes "serial_inv s" "\<not> is_dlab_set s"
  shows "serial_inv (fst (handle_write now s 1 v))" "same_mode s (fst (handle_write now s 1 v))"
    "serial_pending (fst (handle_write now s 1 v)) = serial_pending s"
proof -
  let ?e = "s\<lparr>interrupt_enable := v AND 0x0f\<rparr>"
  let ?r = "if is_data_avaiable ?e then trigger_recv_interrupt ?e else ?e"
  have e: "fst (handle_write now s 1 v) = (if is_thr_intr_changed s v then trigger_thr_empty ?r else ?r)"
    using assms(2) by (simp add: handle_write_def Let_def)
  have r: "serial_inv ?r" "same_mode s ?r" "in_buffer ?r = in_buffer s" "in_channel ?r = in_channel s"
    using write_ier [OF assms(1), of v] trigger_inv(2) by simp_all (simp add: same_mode_def)
  show "serial_inv (fst (handle_write now s 1 v))" unfolding e using r(1) trigger_inv(1) by simp
  show "same_mode s (fst (handle_write now s 1 v))" unfolding e using r(2) by simp
  show "serial_pending (fst (handle_write now s 1 v)) = serial_pending s" unfolding e serial_pending_def using r(3,4) by simp
qed

lemma handle_write_other:
  assumes "\<not> (off = 0 \<and> \<not> is_dlab_set s)" "\<not> (off = 1 \<and> \<not> is_dlab_set s)"
  shows "fst (handle_write now s off v) =
    (if off = 0 then s\<lparr>baud_divisor := baud_divisor s AND 0xff00 OR ucast v\<rparr>
     else if off = 1 then s\<lparr>baud_divisor := baud_divisor s AND 0x00ff OR push_bit 8 (ucast v)\<rparr>
     else if off = 3 then s\<lparr>line_control := v\<rparr> else if off = 4 then s\<lparr>modem_control := v\<rparr>
     else if off = 7 then s\<lparr>scratch := v\<rparr> else s)"
  using assms by (simp add: handle_write_def)

lemma handle_write_inv:
  assumes "serial_inv s"
  shows "serial_inv (fst (handle_write now s off v))" "serial_state (fst (handle_write now s off v)) = serial_state s"
proof -
  consider "off = 0" "\<not> is_dlab_set s" | "off = 1" "\<not> is_dlab_set s"
    | "\<not> (off = 0 \<and> \<not> is_dlab_set s)" "\<not> (off = 1 \<and> \<not> is_dlab_set s)" by blast
  then have "serial_inv (fst (handle_write now s off v)) \<and> serial_state (fst (handle_write now s off v)) = serial_state s"
  proof cases
    case 1
    then show ?thesis using handle_write_data_reg(1,2) [OF assms, of now v] by (simp add: same_mode_def)
  next
    case 2
    then show ?thesis using handle_write_ier(1,2) [OF assms, of now v] by (simp add: same_mode_def)
  next
    case 3
    then show ?thesis using assms by (simp add: handle_write_other)
  qed
  then show "serial_inv (fst (handle_write now s off v))" "serial_state (fst (handle_write now s off v)) = serial_state s" by auto
qed

lemma handle_write_normal:
  assumes "serial_inv s" "serial_normal s" "off = 3 \<Longrightarrow> v AND 0x80 = 0" "off = 4 \<Longrightarrow> v AND 0x10 = 0"
  shows "serial_normal (fst (handle_write now s off v))" "serial_pending (fst (handle_write now s off v)) = serial_pending s"
proof -
  have n: "\<not> is_dlab_set s" "\<not> is_loop s" using assms(2) by (auto simp: serial_normal_def)
  have m: "serial_normal s'" if "same_mode s s'" for s'
    using assms(2) that by (simp add: serial_normal_def same_mode_def is_dlab_set_def is_loop_def)
  consider "off = 0" | "off = 1" | "off \<noteq> 0" "off \<noteq> 1" by blast
  then have "serial_normal (fst (handle_write now s off v)) \<and> serial_pending (fst (handle_write now s off v)) = serial_pending s"
  proof cases
    case 3
    then show ?thesis
      using assms(2-4) by (simp add: handle_write_other serial_normal_def serial_pending_def is_dlab_set_def is_loop_def)
  qed (use handle_write_data_reg(2,3) [OF assms(1) n(1)] handle_write_ier(2,3) [OF assms(1) n(1)] m n(2) in simp_all)
  then show "serial_normal (fst (handle_write now s off v))" "serial_pending (fst (handle_write now s off v)) = serial_pending s" by auto
qed

lemma serial_read_normal:
  assumes "serial_inv s" "serial_normal s"
  obtains s' v where "serial_read s io [x] = Some (s', [v])" "serial_inv s'" "serial_normal s'"
    "if ucast (access_offset io) = (0 :: u8) then serial_pending s' = tl (serial_pending s) \<and>
       v = (case serial_pending s of [] \<Rightarrow> 0 | b # _ \<Rightarrow> b)
     else serial_pending s' = serial_pending s"
    "ucast (access_offset io) = (5 :: u8) \<Longrightarrow> v = (if serial_pending s = [] then 0x60 else 0x61)"
proof -
  let ?off = "ucast (access_offset io) :: u8"
  define t where "t = drain_in_channel (spawn_input_thread s)"
  have n: "\<not> is_dlab_set s" "\<not> is_loop s" "serial_state s \<noteq> Sleep" using assms(2) by (auto simp: serial_normal_def)
  have t: "serial_inv t" "same_mode s t" "\<not> is_dlab_set t" "in_buffer t = serial_pending s" "serial_pending t = serial_pending s"
    unfolding t_def using n drain_in_channel_inv [OF spawn_inv [OF assms(1)]] drain_in_channel_buffer [of "spawn_input_thread s"]
      spawn_pending [OF assms(1)] by (simp_all add: same_mode_def is_dlab_set_def is_loop_def)
  have t_ch: "(case in_channel t of None \<Rightarrow> [] | Some ch \<Rightarrow> chan_bytes ch) = []" using t(4,5) by (simp add: serial_pending_def)
  obtain s' v where r: "read_register t ?off = (s', v)" by (cases "read_register t ?off")
  have e: "serial_read s io [x] = Some (s', [v])"
    using n(3) r by (simp add: serial_read_def assert_that_def t_def spawn_input_thread_def split: if_splits)
  have s': "serial_inv s'" "same_mode t s'" using read_register_inv [OF t(1), of ?off] r by simp_all
  then have nm: "serial_normal s'" using t(2) assms(2) by (simp add: serial_normal_def same_mode_def is_dlab_set_def is_loop_def)
  have p: "if ?off = 0 then serial_pending s' = tl (serial_pending s) \<and> v = (case serial_pending s of [] \<Rightarrow> 0 | b # _ \<Rightarrow> b)
      else serial_pending s' = serial_pending s"
  proof (cases "?off = 0")
    case True
    then show ?thesis
      using read_register_data [OF t(1,3) r [unfolded True]] t(4) t_ch by (simp add: serial_pending_def)
  next
    case False
    then show ?thesis
      using read_register_frame [of ?off t] r t(5) by (auto simp: serial_pending_def iir_reset_def split: if_splits)
  qed
  have "v = (if serial_pending s = [] then 0x60 else 0x61)" if "?off = 5"
    using r that t(1,4) by (auto simp: read_register_def serial_inv_def uart_ok_def)
  then show thesis using that [OF e s'(1) nm p] by blast
qed

section \<open>Runs of the device\<close>

text \<open>The device is put to sleep, its state is written to a snapshot and restored into a new device with
  an input stream and the same output, which is then woken.\<close>

definition serial_migrate :: "serial \<Rightarrow> serial" where
  "serial_migrate s = serial_wake (serial_restore (serial_sleep (serial_new True (serial_out s) (out_timestamp s)))
     (snd (serial_take_snapshot (serial_sleep s))))"

datatype serial_event = HostByte u8 | GuestRead u64 | GuestWrite u64 u8 | SuspendResume | Migrate

definition listening :: "serial \<Rightarrow> bool" where
  "listening s \<longleftrightarrow> (case in_channel s of None \<Rightarrow> False | Some ch \<Rightarrow> chan_open ch)"

text \<open>A step yields the new state, the bytes accepted from the host, and the bytes the guest took from
  the data register while there were any.\<close>

fun serial_step :: "u8 list \<Rightarrow> serial \<Rightarrow> serial_event \<Rightarrow> (serial \<times> u8 list \<times> u8 list) option" where
  "serial_step now s (HostByte b) = Some (input_thread s (ReadByte b), if listening s then [b] else [], [])"
| "serial_step now s (GuestRead off) = do {
     (s', ys) \<leftarrow> serial_read s \<lparr>access_offset = off, access_address = off, requester = 0\<rparr> [0];
     Some (s', [], if ucast off = (0 :: u8) \<and> serial_pending s \<noteq> [] then ys else [])
   }"
| "serial_step now s (GuestWrite off v) = do {
     s' \<leftarrow> serial_write now s \<lparr>access_offset = off, access_address = off, requester = 0\<rparr> [v];
     Some (s', [], [])
   }"
| "serial_step now s SuspendResume = Some (serial_wake (serial_sleep s), [], [])"
| "serial_step now s Migrate = Some (serial_migrate s, [], [])"

fun serial_run :: "u8 list \<Rightarrow> serial \<Rightarrow> serial_event list \<Rightarrow> (serial \<times> u8 list \<times> u8 list) option" where
  "serial_run now s [] = Some (s, [], [])"
| "serial_run now s (e # es) = do {
     (s1, sent1, got1) \<leftarrow> serial_step now s e;
     (s2, sent2, got2) \<leftarrow> serial_run now s1 es;
     Some (s2, sent1 @ sent2, got1 @ got2)
   }"

fun keeps_mode :: "serial_event \<Rightarrow> bool" where
  "keeps_mode (GuestWrite off v) \<longleftrightarrow>
     (ucast off = (3 :: u8) \<longrightarrow> v AND 0x80 = 0) \<and> (ucast off = (4 :: u8) \<longrightarrow> v AND 0x10 = 0)"
| "keeps_mode _ \<longleftrightarrow> True"

lemma stop_worker_frame [simp]:
  "serial_state (stop_worker s) = serial_state s" "line_control (stop_worker s) = line_control s"
  "modem_control (stop_worker s) = modem_control s" "serial_pending (stop_worker s) = serial_pending s"
  by (simp_all add: stop_worker_def end_input_thread_def serial_pending_def split: option.split)

lemma drain_stopped:
  assumes "serial_inv s" "\<not> is_loop s"
  shows "serial_inv (drain_in_channel (stop_worker s))" "in_buffer (drain_in_channel (stop_worker s)) = serial_pending s"
    "has_worker s \<Longrightarrow> in_channel (drain_in_channel (stop_worker s)) = None"
proof -
  show "in_buffer (drain_in_channel (stop_worker s)) = serial_pending s"
    using drain_in_channel_buffer(1) [of "stop_worker s"] assms(2) by (simp add: is_loop_def)
  show n: "has_worker s \<Longrightarrow> in_channel (drain_in_channel (stop_worker s)) = None"
    by (simp add: drain_in_channel_def stop_worker_def end_input_thread_def split: option.split)
  have "uart_ok (stop_worker s)" using assms(1) by (simp add: serial_inv_def uart_ok_def stop_worker_def end_input_thread_def)
  then have "uart_ok (drain_in_channel (stop_worker s))" by (rule drain_in_channel_ok)
  then show "serial_inv (drain_in_channel (stop_worker s))"
    using drain_in_channel_inv [OF assms(1)] n by (cases "has_worker s") (simp_all add: serial_inv_def stop_worker_def)
qed

lemma serial_sleep_normal:
  assumes "serial_inv s" "serial_normal s"
  shows "serial_inv (serial_sleep s)" "in_buffer (serial_sleep s) = serial_pending s" "in_channel (serial_sleep s) = None"
    "serial_state (serial_sleep s) = Sleep" "line_control (serial_sleep s) = line_control s"
    "modem_control (serial_sleep s) = modem_control s"
proof -
  let ?t = "s\<lparr>serial_state := Sleep\<rparr>"
  have "\<not> is_loop ?t" "serial_inv ?t" "serial_pending ?t = serial_pending s"
    using assms by (simp_all add: serial_normal_def is_loop_def serial_pending_def)
  note d = drain_stopped [OF this(2,1)] this(3)
  have e: "serial_sleep s = (drain_in_channel (stop_worker ?t))\<lparr>in_channel := None\<rparr>"
    using assms(2) by (simp add: serial_sleep_def serial_normal_def)
  show "serial_inv (serial_sleep s)" unfolding e using d(1) by (simp add: serial_inv_def uart_ok_def)
  show "in_buffer (serial_sleep s) = serial_pending s" "in_channel (serial_sleep s) = None" "serial_state (serial_sleep s) = Sleep"
    "line_control (serial_sleep s) = line_control s" "modem_control (serial_sleep s) = modem_control s"
    unfolding e using d(2,4) by simp_all
qed

lemma serial_wake_asleep:
  assumes "serial_inv s" "serial_state s = Sleep"
  shows "serial_inv (serial_wake s)" "serial_pending (serial_wake s) = serial_pending s"
    "serial_state (serial_wake s) = Awake" "line_control (serial_wake s) = line_control s" "modem_control (serial_wake s) = modem_control s"
proof -
  have e: "serial_wake s = spawn_input_thread (s\<lparr>serial_state := Awake\<rparr>)"
    using assms(2) by (simp add: serial_wake_def spawn_input_thread_def Let_def)
  show "serial_inv (serial_wake s)" unfolding e using assms(1) by (intro spawn_inv) simp
  have "serial_inv (s\<lparr>serial_state := Awake\<rparr>)" using assms(1) by simp
  from spawn_pending [OF this] show "serial_pending (serial_wake s) = serial_pending s" unfolding e by (simp add: serial_pending_def)
  show "serial_state (serial_wake s) = Awake" "line_control (serial_wake s) = line_control s" "modem_control (serial_wake s) = modem_control s"
    unfolding e by simp_all
qed

lemma suspend_resume_normal:
  assumes "serial_inv s" "serial_normal s"
  shows "serial_inv (serial_wake (serial_sleep s))" "serial_normal (serial_wake (serial_sleep s))"
    "serial_pending (serial_wake (serial_sleep s)) = serial_pending s"
proof -
  note z = serial_sleep_normal [OF assms] and w = serial_wake_asleep [OF serial_sleep_normal(1,4) [OF assms]]
  show "serial_inv (serial_wake (serial_sleep s))" by (rule w(1))
  show "serial_normal (serial_wake (serial_sleep s))"
    using w z assms(2) by (simp add: serial_normal_def is_loop_def is_dlab_set_def)
  show "serial_pending (serial_wake (serial_sleep s)) = serial_pending s" using w(2) z(2,3) by (simp add: serial_pending_def)
qed

lemma migrate_normal:
  assumes "serial_inv s" "serial_normal s"
  shows "serial_inv (serial_migrate s)" "serial_normal (serial_migrate s)" "serial_pending (serial_migrate s) = serial_pending s"
proof -
  note z = serial_sleep_normal [OF assms] and f = serial_sleep_normal [OF serial_new_inv(1,2), of True "serial_out s" "out_timestamp s"]
  define d where "d = drain_in_channel (stop_worker (spawn_input_thread (serial_sleep s)))"
  have l: "\<not> is_loop (spawn_input_thread (serial_sleep s))" using z(6) assms(2) by (simp add: is_loop_def serial_normal_def)
  have d: "serial_inv d" "in_buffer d = serial_pending s" "line_control d = line_control s" "modem_control d = modem_control s"
    unfolding d_def using drain_stopped(1,2) [OF spawn_inv [OF z(1)] l] spawn_pending [OF z(1)] z(2,3,5,6)
    by (simp_all add: serial_pending_def)
  define r where "r = serial_restore (serial_sleep (serial_new True (serial_out s) (out_timestamp s)))
    (snd (serial_take_snapshot (serial_sleep s)))"
  have r: "serial_inv r" "serial_state r = Sleep" "serial_pending r = serial_pending s"
    "line_control r = line_control s" "modem_control r = modem_control s"
    unfolding r_def serial_restore_def serial_take_snapshot_def Let_def d_def [symmetric]
    using d f by (simp_all add: serial_inv_def uart_ok_def serial_pending_def)
  note w = serial_wake_asleep [OF r(1,2)]
  show "serial_inv (serial_migrate s)" "serial_normal (serial_migrate s)" "serial_pending (serial_migrate s) = serial_pending s"
    unfolding serial_migrate_def r_def [symmetric]
    using w r assms(2) by (simp_all add: serial_normal_def is_loop_def is_dlab_set_def)
qed

lemma host_byte_normal:
  assumes "serial_inv s" "serial_normal s"
  shows "serial_inv (input_thread s (ReadByte b))" "serial_normal (input_thread s (ReadByte b))"
    "serial_pending (input_thread s (ReadByte b)) = serial_pending s @ (if listening s then [b] else [])"
proof -
  have "serial_inv (input_thread s (ReadByte b)) \<and> serial_normal (input_thread s (ReadByte b)) \<and>
    serial_pending (input_thread s (ReadByte b)) = serial_pending s @ (if listening s then [b] else [])"
  proof (cases "listening s")
    case True
    then obtain ch where ch: "in_channel s = Some ch" "chan_open ch" by (auto simp: listening_def split: option.splits)
    obtain n where "input_thread s (ReadByte b) = s\<lparr>in_channel := Some (ch\<lparr>chan_bytes := chan_bytes ch @ [b]\<rparr>), interrupt_evt := n\<rparr>"
    proof
      show "input_thread s (ReadByte b) = s\<lparr>in_channel := Some (ch\<lparr>chan_bytes := chan_bytes ch @ [b]\<rparr>),
          interrupt_evt := (if is_recv_intr_enabled s then interrupt_evt s + 1 else interrupt_evt s)\<rparr>"
        using ch by (simp add: signal_interrupt_def is_recv_intr_enabled_def Let_def)
    qed
    then show ?thesis using assms ch True
      by (simp add: serial_inv_def uart_ok_def serial_normal_def serial_pending_def is_loop_def is_dlab_set_def)
  next
    case False
    then have "input_thread s (ReadByte b) = s" by (simp add: listening_def split: option.splits)
    then show ?thesis using assms False by simp
  qed
  then show "serial_inv (input_thread s (ReadByte b))" "serial_normal (input_thread s (ReadByte b))"
    "serial_pending (input_thread s (ReadByte b)) = serial_pending s @ (if listening s then [b] else [])" by auto
qed

lemma serial_step_normal:
  assumes "serial_inv s" "serial_normal s" "keeps_mode e"
  obtains s' sent got where "serial_step now s e = Some (s', sent, got)" "serial_inv s'" "serial_normal s'"
    "serial_pending s @ sent = got @ serial_pending s'"
proof (cases e)
  case (HostByte b)
  have "serial_step now s e = Some (input_thread s (ReadByte b), if listening s then [b] else [], [])" using HostByte by simp
  from that [OF this host_byte_normal(1,2) [OF assms(1,2)]] show thesis
    by (simp add: host_byte_normal(3) [OF assms(1,2)] del: input_thread.simps)
next
  case (GuestRead off)
  let ?io = "\<lparr>access_offset = off, access_address = off, requester = 0\<rparr>"
  obtain s' v where r: "serial_read s ?io [0] = Some (s', [v])" "serial_inv s'" "serial_normal s'"
    "if ucast off = (0 :: u8) then serial_pending s' = tl (serial_pending s) \<and> v = (case serial_pending s of [] \<Rightarrow> 0 | b # _ \<Rightarrow> b)
     else serial_pending s' = serial_pending s"
    by (rule serial_read_normal [OF assms(1,2), of ?io 0]) simp
  have "serial_step now s e = Some (s', [], if ucast off = (0 :: u8) \<and> serial_pending s \<noteq> [] then [v] else [])"
    using GuestRead r(1) by simp
  from that [OF this r(2,3)] r(4) show thesis by (cases "serial_pending s") (simp_all split: if_splits)
next
  case (GuestWrite off v)
  have n: "serial_normal s" "serial_state s \<noteq> Sleep" using assms(2) by (auto simp: serial_normal_def)
  have "serial_step now s e = Some (fst (handle_write now s (ucast off) v), [], [])"
    using GuestWrite n(2) by (simp add: serial_write_def assert_that_def)
  then show thesis
    using that handle_write_inv [OF assms(1)] handle_write_normal [OF assms(1,2), of "ucast off" v now] assms(3) GuestWrite by simp
next
  case SuspendResume
  then show thesis using that suspend_resume_normal [OF assms(1,2)] by simp
next
  case Migrate
  then show thesis using that migrate_normal [OF assms(1,2)] by simp
qed

section \<open>The bus contract\<close>

definition serial_awake :: "serial \<Rightarrow> bool" where
  "serial_awake s \<longleftrightarrow> serial_inv s \<and> serial_state s = Awake"

lemma serial_read_awake:
  assumes "serial_awake s"
  shows "\<exists>s' ys. serial_read s io xs = Some (s', ys) \<and> serial_awake s' \<and> length ys = length xs"
proof (cases "length xs = 1")
  case True
  let ?t = "drain_in_channel (spawn_input_thread s)" and ?off = "ucast (access_offset io) :: u8"
  have i: "serial_inv s" "serial_state s \<noteq> Sleep" using assms by (auto simp: serial_awake_def)
  have t: "serial_inv ?t" by (rule drain_in_channel_inv [OF spawn_inv [OF i(1)]])
  have "serial_read s io xs = Some (fst (read_register ?t ?off), [snd (read_register ?t ?off)])"
    using i(2) True by (simp add: serial_read_def assert_that_def spawn_input_thread_def split: prod.split)
  moreover have "serial_awake (fst (read_register ?t ?off))"
    using read_register_inv [OF t, of ?off] assms by (simp add: serial_awake_def same_mode_def)
  ultimately show ?thesis using True by simp
next
  case False
  then show ?thesis using assms by (simp add: serial_read_def assert_that_def serial_awake_def)
qed

lemma serial_write_awake:
  assumes "serial_awake s"
  shows "\<exists>s'. serial_write now s io xs = Some s' \<and> serial_awake s'"
proof -
  have "serial_write now s io xs = Some (case xs of [v] \<Rightarrow> fst (handle_write now s (ucast (access_offset io)) v) | _ \<Rightarrow> s)"
    using assms by (simp add: serial_write_def assert_that_def serial_awake_def split: list.split)
  then show ?thesis using assms handle_write_inv by (auto simp: serial_awake_def split: list.split)
qed

interpretation serial_device: io_device serial_read "serial_write now" serial_awake for now
  by unfold_locales (auto intro: serial_read_awake serial_write_awake)

section \<open>Properties\<close>


definition demo_serial_events :: "serial_event list" where
  "demo_serial_events = [GuestRead 5, GuestWrite 1 1, HostByte 0x68, HostByte 0x69, GuestRead 0, Migrate, HostByte 0x21, GuestRead 0]"



end
