(* ===== verification/Machine.thy ===== *)
theory Machine
  imports Pic Serial Ioapic_Delivery Legacy_Devices
begin

text \<open>
A machine: the devices of the other theories on one bus.  The contract of a bus is interpreted on them, so
that what \<open>Io_Bus\<close> proves of a bus holds of the machine.
\<close>

section \<open>A machine\<close>

text \<open>The bus stores its devices behind one trait; here they are the alternatives of one type.\<close>

datatype machine_device = PicDevice pic | IoapicDevice ioapic | SerialPort serial | I8042Device i8042 | DebugconDevice debugcon

datatype machine_snapshot = EmptySnapshot | IoapicSnapshot ioapic_snapshot | SerialSnapshot serial_snapshot

datatype machine_error = IoapicFailed ioapic_error | WrongSnapshot

fun machine_label :: "machine_device \<Rightarrow> string" where
  "machine_label (PicDevice _) = ''userspace PIC''"
| "machine_label (IoapicDevice _) = ''userspace IOAPIC''"
| "machine_label (SerialPort _) = ''serial''"
| "machine_label (I8042Device _) = ''i8042''"
| "machine_label (DebugconDevice _) = ''debugcon''"

fun machine_read :: "machine_device \<Rightarrow> bus_access_info \<Rightarrow> u8 list \<Rightarrow> (machine_device \<times> u8 list) option" where
  "machine_read (PicDevice d) io xs = map_option (map_prod PicDevice id) (pic_read d io xs)"
| "machine_read (IoapicDevice d) io xs = map_option (map_prod IoapicDevice id) (ioapic_bus_read d io xs)"
| "machine_read (SerialPort d) io xs = map_option (map_prod SerialPort id) (serial_read d io xs)"
| "machine_read (I8042Device d) io xs = map_option (map_prod I8042Device id) (i8042_read d io xs)"
| "machine_read (DebugconDevice d) io xs = map_option (map_prod DebugconDevice id) (debugcon_read d io xs)"

fun machine_write :: "ioapic_env \<Rightarrow> u8 list \<Rightarrow> machine_device \<Rightarrow> bus_access_info \<Rightarrow> u8 list \<Rightarrow> machine_device option" where
  "machine_write env now (PicDevice d) io xs = map_option PicDevice (pic_write d io xs)"
| "machine_write env now (IoapicDevice d) io xs = map_option IoapicDevice (ioapic_bus_write env d io xs)"
| "machine_write env now (SerialPort d) io xs = map_option SerialPort (serial_write now d io xs)"
| "machine_write env now (I8042Device d) io xs = map_option I8042Device (i8042_write d io xs)"
| "machine_write env now (DebugconDevice d) io xs = map_option DebugconDevice (debugcon_write d io xs)"

fun machine_sleep :: "machine_device \<Rightarrow> machine_device \<times> (unit, machine_error) result" where
  "machine_sleep (SerialPort d) = (SerialPort (serial_sleep d), Ok ())"
| "machine_sleep d = (d, Ok ())"

fun machine_wake :: "machine_device \<Rightarrow> machine_device \<times> (unit, machine_error) result" where
  "machine_wake (SerialPort d) = (SerialPort (serial_wake d), Ok ())"
| "machine_wake d = (d, Ok ())"

fun machine_take_snapshot :: "machine_device \<Rightarrow> machine_device \<times> (machine_snapshot, machine_error) result" where
  "machine_take_snapshot (IoapicDevice d) = (IoapicDevice d, Ok (IoapicSnapshot (ioapic_take_snapshot d)))"
| "machine_take_snapshot (SerialPort d) =
     (case serial_take_snapshot d of (d, snap) \<Rightarrow> (SerialPort d, Ok (SerialSnapshot snap)))"
| "machine_take_snapshot d = (d, Ok EmptySnapshot)"

text \<open>A snapshot of another device is refused by deserialisation.  The trait's \<open>restore\<close> can only fail, so a
  panic inside it, which a snapshot with routes beyond the pins would cause, is an error here.\<close>

fun machine_restore :: "ioapic_env \<Rightarrow> machine_device \<Rightarrow> machine_snapshot \<Rightarrow> machine_device \<times> (unit, machine_error) result" where
  "machine_restore env (IoapicDevice d) (IoapicSnapshot s) =
     (case ioapic_restore env d s of
       Some (d, Ok _) \<Rightarrow> (IoapicDevice d, Ok ())
     | Some (d, Err e) \<Rightarrow> (IoapicDevice d, Err (IoapicFailed e))
     | None \<Rightarrow> (IoapicDevice d, Err WrongSnapshot))"
| "machine_restore env (SerialPort d) (SerialSnapshot s) = (SerialPort (serial_restore d s), Ok ())"
| "machine_restore env (PicDevice d) _ = (PicDevice d, Ok ())"
| "machine_restore env (I8042Device d) _ = (I8042Device d, Ok ())"
| "machine_restore env (DebugconDevice d) EmptySnapshot = (DebugconDevice d, Ok ())"
| "machine_restore env d _ = (d, Err WrongSnapshot)"

text \<open>None of these devices is registered with inner synchronisation; its operations are the same.\<close>

definition machine_ops :: "ioapic_env \<Rightarrow> u8 list \<Rightarrow> (machine_device, machine_snapshot, machine_error) device_ops" where
  "machine_ops env now = \<lparr>debug_label = machine_label, dev_read = machine_read, dev_write = machine_write env now,
     dev_sleep = machine_sleep, dev_wake = machine_wake, dev_snapshot = machine_take_snapshot, dev_restore = machine_restore env,
     read_sync = machine_read, write_sync = machine_write env now, sleep_sync = machine_sleep, wake_sync = machine_wake,
     snapshot_sync = machine_take_snapshot, restore_sync = machine_restore env\<rparr>"

fun machine_fine :: "ioapic_env \<Rightarrow> machine_device \<Rightarrow> bool" where
  "machine_fine env (PicDevice d) = pic_inv d"
| "machine_fine env (IoapicDevice d) = ioapic_fine env d"
| "machine_fine env (SerialPort d) = serial_awake d"
| "machine_fine env _ = True"

lemma machine_read_fine:
  assumes "machine_fine env d"
  shows "\<exists>d' ys. machine_read d io xs = Some (d', ys) \<and> machine_fine env d' \<and> length ys = length xs"
proof (cases d)
  case (PicDevice p)
  then show ?thesis using pic_device.read_total [of p io xs] assms by auto
next
  case (IoapicDevice p)
  then show ?thesis using ioapic_device.read_total [of env p io xs] assms by auto
next
  case (SerialPort p)
  then show ?thesis using serial_device.read_total [of p io xs] assms by auto
next
  case (I8042Device p)
  then show ?thesis using i8042_device.read_total [of p io xs] by auto
next
  case (DebugconDevice p)
  then show ?thesis using debugcon_device.read_total [of p io xs] by auto
qed

lemma machine_write_fine:
  assumes "machine_fine env d"
  shows "\<exists>d'. machine_write env now d io xs = Some d' \<and> machine_fine env d'"
proof (cases d)
  case (PicDevice p)
  then show ?thesis using pic_device.write_total [of p io xs] assms by auto
next
  case (IoapicDevice p)
  then show ?thesis using ioapic_device.write_total [of env p io xs] assms by auto
next
  case (SerialPort p)
  then show ?thesis using serial_device.write_total [of p now io xs] assms by auto
next
  case (I8042Device p)
  then show ?thesis using i8042_device.write_total [of p io xs] by auto
next
  case (DebugconDevice p)
  then show ?thesis using debugcon_device.write_total [of p io xs] by auto
qed

interpretation machine_bus: bus_device "machine_ops env now" "machine_fine env" for env now
  by unfold_locales (auto simp: machine_ops_def intro: machine_read_fine machine_write_fine)

section \<open>Properties\<close>

text \<open>C10: No guest access stops the machine.  On a bus with interrupt controllers, serial ports, keyboard
  controllers and debug consoles, in any arrangement and in any valid state, every sequence of reads
  and writes of any size at any address completes, and all devices stay in valid states.\<close>

theorem guest_cannot_stop_machine:
  assumes "\<forall>ptr. machine_fine env (h ptr)"
  shows "\<exists>h' out. guest_run (machine_ops env now) b h accs = Some (h', out) \<and> (\<forall>ptr. machine_fine env (h' ptr))"
  using machine_bus.guest_run_total [OF assms, of now b accs] by blast

definition demo_machine :: "nat \<Rightarrow> machine_device" where
  "demo_machine ptr = (if ptr = 0 then SerialPort (serial_new False (Some []) False)
     else if ptr = 1 then IoapicDevice demo_ioapic else I8042Device (i8042_new True))"

definition demo_bus :: bus where
  "demo_bus = fst (bus_insert (fst (bus_insert (fst (bus_insert (bus_new Io) 0 0x3f8 8)) 1 0xfec00000 0x100)) 2 0x61 4)"

theorem guest_cannot_stop_machine_witness:
  "\<exists>h' out. guest_run (machine_ops demo_env []) demo_bus demo_machine
       [Io_Bus.GuestWrite 0x3f8 [0x41], Io_Bus.GuestRead 0x3fd 1, Io_Bus.GuestWrite 0xfec00000 [0x1a],
        Io_Bus.GuestRead 0xfec00010 4, Io_Bus.GuestRead 0x999 2] = Some (h', out) \<and>
     out = [[0x60], [0x31, 0x80, 0, 0], [0, 0]] \<and> (\<forall>ptr. machine_fine demo_env (h' ptr))"
proof -
  let ?as = "[Io_Bus.GuestWrite 0x3f8 [0x41], Io_Bus.GuestRead 0x3fd 1, Io_Bus.GuestWrite 0xfec00000 [0x1a],
        Io_Bus.GuestRead 0xfec00010 4, Io_Bus.GuestRead 0x999 2]"
  have "\<forall>ptr. machine_fine demo_env (demo_machine ptr)"
    using serial_new_inv demo_ioapic_inv demo_env_good
    by (auto simp: demo_machine_def serial_awake_def ioapic_fine_def serial_normal_def)
  from guest_cannot_stop_machine [OF this, of "[]" demo_bus ?as] obtain h' out
    where r: "guest_run (machine_ops demo_env []) demo_bus demo_machine ?as = Some (h', out)" "\<forall>ptr. machine_fine demo_env (h' ptr)" by blast
  have "map_option snd (guest_run (machine_ops demo_env []) demo_bus demo_machine ?as) = Some [[0x60], [0x31, 0x80, 0, 0], [0, 0]]"
    by code_simp
  with r show ?thesis by auto
qed

end
