(* ===== verification/Guest_Memory.thy ===== *)
theory Guest_Memory
  imports Prelude
begin

text \<open>
  Guest memory as the devices see it: \<open>vm_memory/src/guest_address.rs\<close>, the accessors of
  \<open>vm_memory/src/guest_memory.rs\<close> and the bounds checks of \<open>base/src/mmap.rs\<close> below them.  Regions are host
  mappings placed in the guest address space; the theory shows that construction keeps them disjoint,
  that the whole refines one partial map from addresses to bytes, that \<open>is_valid_range\<close> decides
  exactly which accesses succeed, and that in a protected virtual machine lent memory can neither be
  read nor written by the host.
\<close>

section \<open>Guest addresses\<close>

definition offset_from :: "u64 \<Rightarrow> u64 \<Rightarrow> u64 option" where
  "offset_from self base = checked_sub self base"

text \<open>\<open>checked_add\<close> and \<open>checked_sub\<close> of an address are those of its number; \<open>unchecked_add\<close> wraps.\<close>

definition unchecked_add :: "u64 \<Rightarrow> u64 \<Rightarrow> u64" where
  "unchecked_add self off = self + off"

definition guest_align :: "u64 \<Rightarrow> u64 \<Rightarrow> u64 option" where
  "guest_align self align =
     (if align \<le> 1 then Some self
      else map_option (\<lambda>a. a AND NOT (align - 1)) (checked_add self (align - 1)))"

definition guest_align_down :: "u64 \<Rightarrow> u64 \<Rightarrow> u64" where
  "guest_align_down self align = (if align \<le> 1 then self else self AND NOT (align - 1))"

section \<open>Host mappings\<close>

text \<open>A host mapping: its address in the process, its size and its bytes.  Only offsets below the size
  have a meaning.\<close>

record memory_mapping =
  host_ptr :: u64
  map_size :: usize
  contents :: "usize \<Rightarrow> u8"

datatype mmap_error = InvalidAddress | MmapSyscallFailed

datatype volatile_memory_error = OutOfBounds usize | Overflow usize usize

definition range_end :: "memory_mapping \<Rightarrow> usize \<Rightarrow> usize \<Rightarrow> (usize, mmap_error) result" where
  "range_end mp off count =
     (case checked_add off count of
       None \<Rightarrow> Err InvalidAddress
     | Some mem_end \<Rightarrow> if mem_end > map_size mp then Err InvalidAddress else Ok mem_end)"

definition copy_to_mapping :: "memory_mapping \<Rightarrow> usize \<Rightarrow> u8 list \<Rightarrow> memory_mapping" where
  "copy_to_mapping mp off buf = mp\<lparr>contents := (\<lambda>i.
     if unat off \<le> unat i \<and> unat i < unat off + length buf then buf ! (unat i - unat off)
     else contents mp i)\<rparr>"

definition copy_from_mapping :: "memory_mapping \<Rightarrow> usize \<Rightarrow> nat \<Rightarrow> u8 list" where
  "copy_from_mapping mp off n = map (\<lambda>i. contents mp (off + of_nat i)) [0..<n]"

definition write_slice :: "memory_mapping \<Rightarrow> u8 list \<Rightarrow> usize \<Rightarrow> memory_mapping \<times> (nat, mmap_error) result" where
  "write_slice mp buf off =
     (case checked_sub (map_size mp) off of
       Some size_past_offset \<Rightarrow>
         let bytes_copied = min (unat size_past_offset) (length buf)
         in (copy_to_mapping mp off (take bytes_copied buf), Ok bytes_copied)
     | None \<Rightarrow> (mp, Err InvalidAddress))"

definition read_slice :: "memory_mapping \<Rightarrow> u8 list \<Rightarrow> usize \<Rightarrow> u8 list \<times> (nat, mmap_error) result" where
  "read_slice mp buf off =
     (case checked_sub (map_size mp) off of
       Some size_past_offset \<Rightarrow>
         let bytes_copied = min (unat size_past_offset) (length buf)
         in (copy_from_mapping mp off bytes_copied @ drop bytes_copied buf, Ok bytes_copied)
     | None \<Rightarrow> (buf, Err InvalidAddress))"

text \<open>An object of a plain data type is its bytes, of the length \<open>size_of::<T>()\<close>.  The volatile
  variants differ in the instructions they may compile to, not in what they store.\<close>

definition mapping_write_obj :: "memory_mapping \<Rightarrow> u8 list \<Rightarrow> usize \<Rightarrow> memory_mapping \<times> (unit, mmap_error) result" where
  "mapping_write_obj mp val off =
     (case range_end mp off (of_nat (length val)) of
       Err e \<Rightarrow> (mp, Err e)
     | Ok _ \<Rightarrow> (copy_to_mapping mp off val, Ok ()))"

definition mapping_read_obj :: "memory_mapping \<Rightarrow> nat \<Rightarrow> usize \<Rightarrow> (u8 list, mmap_error) result" where
  "mapping_read_obj mp n off =
     (case range_end mp off (of_nat n) of
       Err e \<Rightarrow> Err e
     | Ok _ \<Rightarrow> Ok (copy_from_mapping mp off n))"

text \<open>A slice of host memory, as its address and length.\<close>

definition mapping_get_slice :: "memory_mapping \<Rightarrow> usize \<Rightarrow> usize \<Rightarrow> (u64 \<times> usize, volatile_memory_error) result" where
  "mapping_get_slice mp off count =
     (case checked_add off count of
       None \<Rightarrow> Err (Overflow off count)
     | Some mem_end \<Rightarrow>
         if mem_end > map_size mp then Err (OutOfBounds mem_end)
         else (case checked_add (host_ptr mp) off of
             None \<Rightarrow> Err (Overflow (host_ptr mp) off)
           | Some new_addr \<Rightarrow> Ok (new_addr, count)))"

section \<open>Regions\<close>

datatype memory_region_purpose = Bios | GuestMemoryRegion | ProtectedFirmwareRegion | ReservedMemory
  | SharedFramebuffer | StaticSwiotlbRegion

datatype backing_object = Shm nat | File nat

record file_backed_mapping_parameters =
  file_path :: string
  file_size :: u64
  file_offset :: u64
  file_writable :: bool

record memory_region_options =
  purpose :: memory_region_purpose
  region_align :: u64
  file_backed :: "file_backed_mapping_parameters option"
  isolate_backing :: bool

definition default_options :: memory_region_options where
  "default_options = \<lparr>purpose = GuestMemoryRegion, region_align = 0, file_backed = None, isolate_backing = False\<rparr>"

record memory_region =
  guest_base :: u64
  mapping :: memory_mapping
  shared_obj :: backing_object
  obj_offset :: u64
  options :: memory_region_options

datatype guest_memory_error = FiledBackedMemoryMappingFailed mmap_error
  | FiledBackedOpenFailed
  | InvalidGuestAddress u64
  | InvalidOffset u64
  | InvalidSize usize
  | MemoryAccess u64 mmap_error
  | MemoryCreationFailed
  | MemoryMappingFailed mmap_error
  | MemoryNotAligned u64 u64
  | MemoryRegionOverlap
  | MemoryRegionTooLarge nat
  | ProtectedMemoryAccess u64 memory_region_purpose
  | ShortRead nat nat
  | ShortWrite nat nat
  | VolatileMemoryAccess volatile_memory_error

definition region_end :: "memory_region \<Rightarrow> u64" where
  "region_end r = unchecked_add (guest_base r) (map_size (mapping r))"

definition region_contains :: "memory_region \<Rightarrow> u64 \<Rightarrow> bool" where
  "region_contains r addr \<longleftrightarrow> guest_base r \<le> addr \<and> addr < region_end r"

record guest_memory =
  regions :: "memory_region list"
  locked :: bool
  protected :: bool

section \<open>Construction\<close>

text \<open>The operating system is a parameter: creating and sealing a shared memory object, opening the file
  behind a region, and mapping a window of a backing object.\<close>

record host_os =
  page_size :: u64
  new_shm :: "u64 \<Rightarrow> (nat, unit) result"
  finalize_shm :: "nat \<Rightarrow> (unit, guest_memory_error) result"
  open_file :: "file_backed_mapping_parameters \<Rightarrow> (nat, unit) result"
  build_mapping :: "backing_object \<Rightarrow> u64 \<Rightarrow> usize \<Rightarrow> u64 \<Rightarrow> bool \<Rightarrow> (memory_mapping, mmap_error) result"

fun shm_size :: "u64 \<Rightarrow> u64 \<Rightarrow> (u64 \<times> u64 \<times> memory_region_options) list \<Rightarrow> (u64, guest_memory_error) result option" where
  "shm_size pg acc [] = Some (Ok acc)"
| "shm_size pg acc ((base, sz, opts) # ranges) =
     (if file_backed opts \<noteq> None \<or> isolate_backing opts then shm_size pg acc ranges
      else if sz mod pg \<noteq> 0 then Some (Err (MemoryNotAligned base sz))
      else do { acc \<leftarrow> checked_add acc sz; shm_size pg acc ranges })"

definition create_shm :: "host_os \<Rightarrow> (u64 \<times> u64 \<times> memory_region_options) list \<Rightarrow> (nat, guest_memory_error) result option" where
  "create_shm os ranges = do {
     r \<leftarrow> shm_size (page_size os) 0 ranges;
     Some (and_then r (\<lambda>aligned_size.
       case new_shm os aligned_size of
         Err _ \<Rightarrow> Err MemoryCreationFailed
       | Ok shm \<Rightarrow> map_ok (\<lambda>_. shm) (finalize_shm os shm)))
   }"

text \<open>The loop of \<open>new_with_options\<close>: the regions made so far, newest last, and the next free offset in
  the common shared memory object.\<close>

definition map_err :: "('e \<Rightarrow> 'f) \<Rightarrow> ('a, 'e) result \<Rightarrow> ('a, 'f) result" where
  "map_err f r = (case r of Ok a \<Rightarrow> Ok a | Err e \<Rightarrow> Err (f e))"

fun new_regions :: "host_os \<Rightarrow> nat \<Rightarrow> memory_region list \<Rightarrow> u64 \<Rightarrow> (u64 \<times> u64 \<times> memory_region_options) list
    \<Rightarrow> (memory_region list, guest_memory_error) result option" where
  "new_regions os shm acc_regions shm_offset [] = Some (Ok acc_regions)"
| "new_regions os shm acc_regions shm_offset ((base, sz, opts) # ranges) =
     (if acc_regions \<noteq> [] \<and> (case checked_add (guest_base (last acc_regions)) (map_size (mapping (last acc_regions))) of
          None \<Rightarrow> True | Some a \<Rightarrow> a > base)
      then Some (Err MemoryRegionOverlap)
      else case file_backed opts of
        Some fb \<Rightarrow> do {
          assert_that (file_size fb = sz);
          (case open_file os fb of
            Err _ \<Rightarrow> Some (Err FiledBackedOpenFailed)
          | Ok file \<Rightarrow>
              (case build_mapping os (File file) (file_offset fb) sz (region_align opts) (file_writable fb) of
                Err e \<Rightarrow> Some (Err (FiledBackedMemoryMappingFailed e))
              | Ok mp \<Rightarrow> new_regions os shm
                  (acc_regions @ [\<lparr>guest_base = base, mapping = mp, shared_obj = File file, obj_offset = file_offset fb, options = opts\<rparr>])
                  shm_offset ranges))
        }
      | None \<Rightarrow>
          if isolate_backing opts then
            (case new_shm os sz of
              Err _ \<Rightarrow> Some (Err MemoryCreationFailed)
            | Ok iso_shm \<Rightarrow>
                (case build_mapping os (Shm iso_shm) 0 sz (region_align opts) True of
                  Err e \<Rightarrow> Some (Err (MemoryMappingFailed e))
                | Ok mp \<Rightarrow> new_regions os shm
                    (acc_regions @ [\<lparr>guest_base = base, mapping = mp, shared_obj = Shm iso_shm, obj_offset = 0, options = opts\<rparr>])
                    shm_offset ranges))
          else
            (case build_mapping os (Shm shm) shm_offset sz (region_align opts) True of
              Err e \<Rightarrow> Some (Err (MemoryMappingFailed e))
            | Ok mp \<Rightarrow> do {
                next_offset \<leftarrow> checked_add shm_offset sz;
                new_regions os shm
                  (acc_regions @ [\<lparr>guest_base = base, mapping = mp, shared_obj = Shm shm, obj_offset = shm_offset, options = opts\<rparr>])
                  next_offset ranges
              }))"

definition new_with_options :: "host_os \<Rightarrow> (u64 \<times> u64 \<times> memory_region_options) list
    \<Rightarrow> (guest_memory, guest_memory_error) result option" where
  "new_with_options os ranges = do {
     r \<leftarrow> create_shm os ranges;
     case r of
       Err e \<Rightarrow> Some (Err e)
     | Ok shm \<Rightarrow> do {
         rs \<leftarrow> new_regions os shm [] 0 ranges;
         Some (map_ok (\<lambda>rs. \<lparr>regions = rs, locked = False, protected = False\<rparr>) rs)
       }
   }"

definition guest_memory_new :: "host_os \<Rightarrow> (u64 \<times> u64) list \<Rightarrow> (guest_memory, guest_memory_error) result option" where
  "guest_memory_new os ranges = new_with_options os (map (\<lambda>(addr, sz). (addr, sz, default_options)) ranges)"

fun check_regions :: "u64 \<Rightarrow> memory_region list \<Rightarrow> (unit, guest_memory_error) result" where
  "check_regions prev_end [] = Ok ()"
| "check_regions prev_end (r # rs) =
     (if prev_end > guest_base r then Err MemoryRegionOverlap
      else case checked_add (guest_base r) (map_size (mapping r)) of
          None \<Rightarrow> Err (MemoryRegionTooLarge (unat (guest_base r) + unat (map_size (mapping r))))
        | Some e \<Rightarrow> check_regions e rs)"

definition from_regions :: "memory_region list \<Rightarrow> (guest_memory, guest_memory_error) result" where
  "from_regions rs =
     (let rs = sort_key guest_base rs;
          m = \<lparr>regions = rs, locked = False, protected = False\<rparr>
      in if length rs > 1 then
           (case checked_add (guest_base (hd rs)) (map_size (mapping (hd rs))) of
             None \<Rightarrow> Err MemoryRegionOverlap
           | Some prev_end \<Rightarrow> map_ok (\<lambda>_. m) (check_regions prev_end (tl rs)))
         else Ok m)"

section \<open>Queries\<close>

definition set_protected :: "guest_memory \<Rightarrow> guest_memory" where
  "set_protected m = m\<lparr>protected := True\<rparr>"

definition check_host_access :: "guest_memory \<Rightarrow> u64 \<Rightarrow> (unit, guest_memory_error) result" where
  "check_host_access m guest_addr =
     (if \<not> protected m then Ok ()
      else case find (\<lambda>r. region_contains r guest_addr) (regions m) of
          None \<Rightarrow> Err (InvalidGuestAddress guest_addr)
        | Some region \<Rightarrow>
            (case purpose (options region) of
              SharedFramebuffer \<Rightarrow> Ok ()
            | StaticSwiotlbRegion \<Rightarrow> Ok ()
            | other \<Rightarrow> Err (ProtectedMemoryAccess guest_addr other)))"

text \<open>\<open>max_by_key\<close> returns the last of several maxima.\<close>

definition end_addr :: "guest_memory \<Rightarrow> u64" where
  "end_addr m = (case regions m of
       [] \<Rightarrow> 0
     | r # rs \<Rightarrow> region_end (fold (\<lambda>x best. if guest_base best \<le> guest_base x then x else best) rs r))"

definition guest_memory_regions :: "guest_memory \<Rightarrow> (u64 \<times> usize) list" where
  "guest_memory_regions m = map (\<lambda>r. (guest_base r, map_size (mapping r))) (regions m)"

fun sum_sizes :: "u64 \<Rightarrow> memory_region list \<Rightarrow> u64 option" where
  "sum_sizes acc [] = Some acc"
| "sum_sizes acc (r # rs) = do { acc \<leftarrow> checked_add acc (map_size (mapping r)); sum_sizes acc rs }"

definition memory_size :: "guest_memory \<Rightarrow> u64 option" where
  "memory_size m = sum_sizes 0 (regions m)"

definition address_in_range :: "guest_memory \<Rightarrow> u64 \<Rightarrow> bool" where
  "address_in_range m addr \<longleftrightarrow> list_ex (\<lambda>r. region_contains r addr) (regions m)"

definition range_overlap :: "guest_memory \<Rightarrow> u64 \<Rightarrow> u64 \<Rightarrow> bool" where
  "range_overlap m start end' \<longleftrightarrow> list_ex (\<lambda>r. guest_base r < end' \<and> start < region_end r) (regions m)"

definition checked_offset :: "guest_memory \<Rightarrow> u64 \<Rightarrow> u64 \<Rightarrow> u64 option" where
  "checked_offset m addr off = do {
     a \<leftarrow> checked_add addr off;
     if address_in_range m a then Some a else None
   }"

definition is_valid_range :: "guest_memory \<Rightarrow> u64 \<Rightarrow> u64 \<Rightarrow> bool" where
  "is_valid_range m start len =
     (if len = 0 then False
      else case checked_add start (len - 1) of
          None \<Rightarrow> False
        | Some end' \<Rightarrow> list_ex (\<lambda>r. guest_base r \<le> start \<and> end' < region_end r) (regions m))"

definition num_regions :: "guest_memory \<Rightarrow> u64" where
  "num_regions m = of_nat (length (regions m))"

definition find_region :: "guest_memory \<Rightarrow> u64 \<Rightarrow> (memory_mapping \<times> usize \<times> u64, guest_memory_error) result" where
  "find_region m guest_addr =
     (case find (\<lambda>r. region_contains r guest_addr) (regions m) of
       None \<Rightarrow> Err (InvalidGuestAddress guest_addr)
     | Some r \<Rightarrow> Ok (mapping r, guest_addr - guest_base r, obj_offset r))"

definition get_host_address :: "guest_memory \<Rightarrow> u64 \<Rightarrow> (u64, guest_memory_error) result" where
  "get_host_address m guest_addr = map_ok (\<lambda>(mp, off, _). host_ptr mp + off) (find_region m guest_addr)"

definition get_host_address_range :: "guest_memory \<Rightarrow> u64 \<Rightarrow> usize \<Rightarrow> (u64, guest_memory_error) result" where
  "get_host_address_range m guest_addr sz =
     (if sz = 0 then Err (InvalidSize sz)
      else and_then (find_region m guest_addr) (\<lambda>(mp, off, _).
        if (case checked_sub (map_size mp) off of None \<Rightarrow> True | Some v \<Rightarrow> v < sz)
        then Err (InvalidGuestAddress guest_addr)
        else Ok (host_ptr mp + off)))"

definition shm_region :: "guest_memory \<Rightarrow> u64 \<Rightarrow> (backing_object, guest_memory_error) result" where
  "shm_region m guest_addr =
     (case find (\<lambda>r. region_contains r guest_addr) (regions m) of
       None \<Rightarrow> Err (InvalidGuestAddress guest_addr)
     | Some r \<Rightarrow> Ok (shared_obj r))"

definition offset_region :: "guest_memory \<Rightarrow> u64 \<Rightarrow> (backing_object, guest_memory_error) result option" where
  "offset_region m off =
     (case regions m of
       [] \<Rightarrow> None
     | r # _ \<Rightarrow> Some (case checked_offset m (guest_base r) off of
           None \<Rightarrow> Err (InvalidOffset off)
         | Some a \<Rightarrow> shm_region m a))"

definition offset_from_base :: "guest_memory \<Rightarrow> u64 \<Rightarrow> (backing_object \<times> u64, guest_memory_error) result option" where
  "offset_from_base m guest_addr =
     (case find (\<lambda>r. region_contains r guest_addr) (regions m) of
       None \<Rightarrow> Some (Err (InvalidGuestAddress guest_addr))
     | Some r \<Rightarrow> do {
         off \<leftarrow> offset_from guest_addr (guest_base r);
         off \<leftarrow> checked_add (obj_offset r) off;
         Some (Ok (shared_obj r, off))
       })"

section \<open>Access\<close>

fun update_first :: "('a \<Rightarrow> bool) \<Rightarrow> ('a \<Rightarrow> 'a) \<Rightarrow> 'a list \<Rightarrow> 'a list" where
  "update_first P f [] = []"
| "update_first P f (x # xs) = (if P x then f x # xs else x # update_first P f xs)"

definition set_mapping :: "guest_memory \<Rightarrow> u64 \<Rightarrow> memory_mapping \<Rightarrow> guest_memory" where
  "set_mapping m guest_addr mp =
     m\<lparr>regions := update_first (\<lambda>r. region_contains r guest_addr) (\<lambda>r. r\<lparr>mapping := mp\<rparr>) (regions m)\<rparr>"

definition write_at_addr :: "guest_memory \<Rightarrow> u8 list \<Rightarrow> u64 \<Rightarrow> guest_memory \<times> (nat, guest_memory_error) result" where
  "write_at_addr m buf guest_addr =
     (case and_then (check_host_access m guest_addr) (\<lambda>_. find_region m guest_addr) of
       Err e \<Rightarrow> (m, Err e)
     | Ok (mp, off, _) \<Rightarrow>
         (case write_slice mp buf off of
           (mp, r) \<Rightarrow> (set_mapping m guest_addr mp, map_err (MemoryAccess guest_addr) r)))"

definition write_all_at_addr :: "guest_memory \<Rightarrow> u8 list \<Rightarrow> u64 \<Rightarrow> guest_memory \<times> (unit, guest_memory_error) result" where
  "write_all_at_addr m buf guest_addr =
     (case write_at_addr m buf guest_addr of
       (m, r) \<Rightarrow> (m, and_then r (\<lambda>completed.
         if length buf = completed then Ok () else Err (ShortWrite (length buf) completed))))"

definition read_at_addr :: "guest_memory \<Rightarrow> u8 list \<Rightarrow> u64 \<Rightarrow> u8 list \<times> (nat, guest_memory_error) result" where
  "read_at_addr m buf guest_addr =
     (case and_then (check_host_access m guest_addr) (\<lambda>_. find_region m guest_addr) of
       Err e \<Rightarrow> (buf, Err e)
     | Ok (mp, off, _) \<Rightarrow>
         (case read_slice mp buf off of (buf, r) \<Rightarrow> (buf, map_err (MemoryAccess guest_addr) r)))"

definition read_exact_at_addr :: "guest_memory \<Rightarrow> u8 list \<Rightarrow> u64 \<Rightarrow> u8 list \<times> (unit, guest_memory_error) result" where
  "read_exact_at_addr m buf guest_addr =
     (case read_at_addr m buf guest_addr of
       (buf', r) \<Rightarrow> (buf', and_then r (\<lambda>completed.
         if length buf = completed then Ok () else Err (ShortRead (length buf) completed))))"

definition read_obj_from_addr :: "guest_memory \<Rightarrow> nat \<Rightarrow> u64 \<Rightarrow> (u8 list, guest_memory_error) result" where
  "read_obj_from_addr m n guest_addr =
     and_then (check_host_access m guest_addr) (\<lambda>_.
     and_then (find_region m guest_addr) (\<lambda>(mp, off, _).
       map_err (MemoryAccess guest_addr) (mapping_read_obj mp n off)))"

definition write_obj_at_addr :: "guest_memory \<Rightarrow> u8 list \<Rightarrow> u64 \<Rightarrow> guest_memory \<times> (unit, guest_memory_error) result" where
  "write_obj_at_addr m val guest_addr =
     (case and_then (check_host_access m guest_addr) (\<lambda>_. find_region m guest_addr) of
       Err e \<Rightarrow> (m, Err e)
     | Ok (mp, off, _) \<Rightarrow>
         (case mapping_write_obj mp val off of
           (mp, r) \<Rightarrow> (set_mapping m guest_addr mp, map_err (MemoryAccess guest_addr) r)))"

definition get_slice_at_addr :: "guest_memory \<Rightarrow> u64 \<Rightarrow> usize \<Rightarrow> (u64 \<times> usize, guest_memory_error) result" where
  "get_slice_at_addr m addr len =
     and_then (check_host_access m addr) (\<lambda>_.
       case find (\<lambda>r. region_contains r addr) (regions m) of
         None \<Rightarrow> Err (InvalidGuestAddress addr)
       | Some r \<Rightarrow> map_err VolatileMemoryAccess (mapping_get_slice (mapping r) (addr - guest_base r) len))"

section \<open>Well-formed memory\<close>

definition region_fits :: "memory_region \<Rightarrow> bool" where
  "region_fits r \<longleftrightarrow> unat (guest_base r) + unat (map_size (mapping r)) < 2 ^ 64"

definition region_before :: "memory_region \<Rightarrow> memory_region \<Rightarrow> bool" where
  "region_before r s \<longleftrightarrow> unat (guest_base r) + unat (map_size (mapping r)) \<le> unat (guest_base s)"

definition mem_ok :: "guest_memory \<Rightarrow> bool" where
  "mem_ok m \<longleftrightarrow> list_all region_fits (regions m) \<and> sorted_wrt region_before (regions m)"

lemma unat_region_end: "region_fits r \<Longrightarrow> unat (region_end r) = unat (guest_base r) + unat (map_size (mapping r))"
  using unat_add_lem [of "guest_base r" "map_size (mapping r)"]
  by (simp add: region_fits_def region_end_def unchecked_add_def)

lemma region_contains_iff:
  "region_fits r \<Longrightarrow> region_contains r a \<longleftrightarrow>
     unat (guest_base r) \<le> unat a \<and> unat a < unat (guest_base r) + unat (map_size (mapping r))"
  by (simp add: region_contains_def word_le_nat_alt word_less_nat_alt unat_region_end)

lemma region_contains_mapping [simp]:
  "map_size mp = map_size (mapping r) \<Longrightarrow> region_contains (r\<lparr>mapping := mp\<rparr>) a = region_contains r a"
  by (simp add: region_contains_def region_end_def)

lemma find_map: "find P (map f xs) = map_option f (find (\<lambda>x. P (f x)) xs)"
  by (induction xs) auto

lemma update_first_map:
  "sorted_wrt (\<lambda>x y. \<not> (P x \<and> P y)) xs \<Longrightarrow> update_first P f xs = map (\<lambda>x. if P x then f x else x) xs"
  by (induction xs) (auto intro!: map_idI [symmetric])

lemma find_unique:
  "sorted_wrt (\<lambda>x y. \<not> (P x \<and> P y)) xs \<Longrightarrow> x \<in> set xs \<Longrightarrow> P x \<Longrightarrow> find P xs = Some x"
  by (induction xs) auto

lemma mem_ok_exclusive:
  assumes "mem_ok m"
  shows "sorted_wrt (\<lambda>r s. \<not> (region_contains r a \<and> region_contains s a)) (regions m)"
  using assms unfolding mem_ok_def
  by (auto elim!: sorted_wrt_mono_rel [rotated] simp: list_all_iff region_contains_iff region_before_def)

lemma find_containing:
  "mem_ok m \<Longrightarrow> r \<in> set (regions m) \<Longrightarrow> region_contains r a \<Longrightarrow>
     find (\<lambda>r. region_contains r a) (regions m) = Some r"
  by (rule find_unique [OF mem_ok_exclusive])

lemma find_regionD:
  assumes "mem_ok m" "find (\<lambda>r. region_contains r a) (regions m) = Some r"
  shows "r \<in> set (regions m)" "region_contains r a" "region_fits r"
  using assms by (auto simp: mem_ok_def list_all_iff dest: find_SomeD)

text \<open>The offset that the accessors compute is the one \<open>offset_from\<close> would return: it does not
  underflow, and it lies inside the mapping.\<close>

lemma offset_in_region:
  assumes "region_fits r" "region_contains r a"
  shows "offset_from a (guest_base r) = Some (a - guest_base r)"
    "unat (a - guest_base r) = unat a - unat (guest_base r)"
    "unat (a - guest_base r) < unat (map_size (mapping r))"
proof -
  have le: "guest_base r \<le> a" using assms(2) by (simp add: region_contains_def)
  then show "offset_from a (guest_base r) = Some (a - guest_base r)"
    by (simp add: offset_from_def checked_sub_def)
  show u: "unat (a - guest_base r) = unat a - unat (guest_base r)" using le by (rule unat_sub)
  show "unat (a - guest_base r) < unat (map_size (mapping r))"
    using assms u by (auto simp: region_contains_iff)
qed

section \<open>Memory as a partial map from addresses to bytes\<close>

definition byte_at :: "guest_memory \<Rightarrow> u64 \<Rightarrow> u8 option" where
  "byte_at m a = map_option (\<lambda>r. contents (mapping r) (a - guest_base r))
     (find (\<lambda>r. region_contains r a) (regions m))"

definition with_mapping :: "u64 \<Rightarrow> memory_mapping \<Rightarrow> memory_region \<Rightarrow> memory_region" where
  "with_mapping a mp r = (if region_contains r a then r\<lparr>mapping := mp\<rparr> else r)"

lemma set_mapping_regions:
  "mem_ok m \<Longrightarrow> regions (set_mapping m a mp) = map (with_mapping a mp) (regions m)"
  by (simp add: set_mapping_def with_mapping_def [abs_def] update_first_map [OF mem_ok_exclusive])

lemma with_mapping_keeps:
  assumes "mem_ok m" "find (\<lambda>r. region_contains r a) (regions m) = Some r" "map_size mp = map_size (mapping r)"
    "s \<in> set (regions m)"
  shows "map_size (mapping (with_mapping a mp s)) = map_size (mapping s)"
    "guest_base (with_mapping a mp s) = guest_base s"
    "region_contains (with_mapping a mp s) x = region_contains s x"
    "with_mapping a mp s = (if s = r then r\<lparr>mapping := mp\<rparr> else s)"
proof -
  have "region_contains s a \<longleftrightarrow> s = r"
    using find_containing [OF assms(1,4), of a] find_regionD(2) [OF assms(1,2)] assms(2) by auto
  then show eq: "with_mapping a mp s = (if s = r then r\<lparr>mapping := mp\<rparr> else s)"
    by (simp add: with_mapping_def)
  show "map_size (mapping (with_mapping a mp s)) = map_size (mapping s)"
    "guest_base (with_mapping a mp s) = guest_base s"
    "region_contains (with_mapping a mp s) x = region_contains s x"
    using assms(3) unfolding eq by simp_all
qed

lemma set_mapping_ok:
  assumes "mem_ok m" "find (\<lambda>r. region_contains r a) (regions m) = Some r" "map_size mp = map_size (mapping r)"
  shows "mem_ok (set_mapping m a mp)"
proof -
  note keep = with_mapping_keeps [OF assms]
  have "region_fits (with_mapping a mp s)" if "s \<in> set (regions m)" for s
    using assms(1) that by (simp add: mem_ok_def list_all_iff region_fits_def keep(1,2))
  moreover have "sorted_wrt (\<lambda>s t. region_before (with_mapping a mp s) (with_mapping a mp t)) (regions m)"
    using assms(1) unfolding mem_ok_def
    by (auto elim!: sorted_wrt_mono_rel [rotated] simp: region_before_def keep(1,2))
  ultimately show ?thesis
    by (simp add: mem_ok_def set_mapping_regions [OF assms(1)] list_all_iff sorted_wrt_map)
qed

lemma byte_at_set_mapping:
  assumes ok: "mem_ok m" and r: "find (\<lambda>r. region_contains r a) (regions m) = Some r"
    and mp: "map_size mp = map_size (mapping r)"
  shows "byte_at (set_mapping m a mp) x =
    (if region_contains r x then Some (contents mp (x - guest_base r)) else byte_at m x)"
proof -
  note keep = with_mapping_keeps [OF ok r mp]
  have "find (\<lambda>s. region_contains (with_mapping a mp s) x) (regions m) = find (\<lambda>s. region_contains s x) (regions m)"
    using keep(3) by (rule find_cong [OF refl])
  then have eq: "byte_at (set_mapping m a mp) x =
      map_option (\<lambda>s. contents (mapping (with_mapping a mp s)) (x - guest_base (with_mapping a mp s)))
        (find (\<lambda>s. region_contains s x) (regions m))"
    by (simp add: byte_at_def set_mapping_regions [OF ok] find_map option.map_comp o_def)
  show ?thesis
  proof (cases "find (\<lambda>s. region_contains s x) (regions m)")
    case None
    then have "\<not> region_contains r x" using find_regionD(1) [OF ok r] by (auto simp: find_None_iff)
    then show ?thesis using None unfolding eq by (simp add: byte_at_def)
  next
    case (Some s)
    note s = find_regionD [OF ok Some]
    have "region_contains r x \<longleftrightarrow> s = r"
      using find_containing [OF ok find_regionD(1) [OF ok r], of x] Some s by auto
    then show ?thesis using Some keep(4) [OF s(1)] unfolding eq by (simp add: byte_at_def)
  qed
qed

lemma copy_to_mapping_size [simp]: "map_size (copy_to_mapping mp off zs) = map_size mp"
  by (simp add: copy_to_mapping_def)

lemma byte_at_copy:
  assumes ok: "mem_ok m" and r: "find (\<lambda>r. region_contains r a) (regions m) = Some r"
    and len: "unat (a - guest_base r) + length zs \<le> unat (map_size (mapping r))"
  shows "byte_at (set_mapping m a (copy_to_mapping (mapping r) (a - guest_base r) zs)) x =
    (if unat a \<le> unat x \<and> unat x < unat a + length zs then Some (zs ! (unat x - unat a)) else byte_at m x)"
proof -
  note r' = find_regionD [OF ok r] and off = offset_in_region [OF find_regionD(3,2) [OF ok r]]
  have base: "unat (guest_base r) \<le> unat a" using r' by (simp add: region_contains_iff)
  show ?thesis
  proof (cases "region_contains r x")
    case True
    note x = offset_in_region [OF r'(3) True]
    have "byte_at m x = Some (contents (mapping r) (x - guest_base r))"
      using find_containing [OF ok r'(1) True] by (simp add: byte_at_def)
    moreover have "unat (guest_base r) \<le> unat x" using True r'(3) by (simp add: region_contains_iff)
    ultimately show ?thesis using True base
      by (auto simp: byte_at_set_mapping [OF ok r] copy_to_mapping_def off(2) x(2))
  next
    case False
    then have "\<not> (unat a \<le> unat x \<and> unat x < unat a + length zs)"
      using len off(2) base r'(3) by (auto simp: region_contains_iff)
    with False show ?thesis by (auto simp: byte_at_set_mapping [OF ok r])
  qed
qed

text \<open>What an access does, after the two checks that precede it.\<close>

definition accessible :: "guest_memory \<Rightarrow> u64 \<Rightarrow> memory_region \<Rightarrow> bool" where
  "accessible m a r \<longleftrightarrow> check_host_access m a = Ok () \<and> find (\<lambda>r. region_contains r a) (regions m) = Some r"

lemma access_cases:
  obtains e where "and_then (check_host_access m a) (\<lambda>_. find_region m a) = Err e" "\<forall>r. \<not> accessible m a r"
  | r where "accessible m a r"
    "and_then (check_host_access m a) (\<lambda>_. find_region m a) = Ok (mapping r, a - guest_base r, obj_offset r)"
proof (cases "check_host_access m a")
  case (Ok u)
  then show thesis using that
    by (cases "find (\<lambda>r. region_contains r a) (regions m)") (auto simp: find_region_def accessible_def)
next
  case (Err e)
  then show thesis using that(1) by (auto simp: accessible_def)
qed

lemma accessibleD:
  assumes "mem_ok m" "accessible m a r"
  shows "find (\<lambda>r. region_contains r a) (regions m) = Some r" "r \<in> set (regions m)" "region_contains r a" "region_fits r"
    "unat (a - guest_base r) = unat a - unat (guest_base r)"
    "unat (a - guest_base r) < unat (map_size (mapping r))"
  using assms find_regionD [of m a r] offset_in_region [of r a] by (auto simp: accessible_def)

text \<open>The number of bytes between an address and the end of its region.\<close>

definition room :: "u64 \<Rightarrow> memory_region \<Rightarrow> nat" where
  "room a r = unat (map_size (mapping r)) - unat (a - guest_base r)"

lemma slice_room:
  assumes "mem_ok m" "accessible m a r"
  shows "checked_sub (map_size (mapping r)) (a - guest_base r) = Some (map_size (mapping r) - (a - guest_base r))"
    "unat (map_size (mapping r) - (a - guest_base r)) = room a r"
  using accessibleD(6) [OF assms] by (auto simp: checked_sub_def word_le_nat_alt unat_sub room_def)

lemma write_at_addr_accessible:
  assumes "mem_ok m" "accessible m a r"
  shows "write_at_addr m buf a = (set_mapping m a
      (copy_to_mapping (mapping r) (a - guest_base r) (take (min (room a r) (length buf)) buf)),
      Ok (min (room a r) (length buf)))"
  using assms slice_room [OF assms]
  by (rule_tac access_cases [of m a]) (auto simp: write_at_addr_def write_slice_def map_err_def accessible_def Let_def)

lemma write_at_addr_bytes:
  assumes "mem_ok m" "accessible m a r" "write_at_addr m buf a = (m', res)"
  shows "mem_ok m'" "res = Ok (min (room a r) (length buf))"
    "byte_at m' x = (if unat a \<le> unat x \<and> unat x < unat a + min (room a r) (length buf)
       then Some (buf ! (unat x - unat a)) else byte_at m x)"
proof -
  note w = write_at_addr_accessible [OF assms(1,2), of buf] and d = accessibleD [OF assms(1,2)]
  show "mem_ok m'" using assms(3) w set_mapping_ok [OF assms(1) d(1)] by auto
  show "res = Ok (min (room a r) (length buf))" using assms(3) w by simp
  have "unat (a - guest_base r) + length (take (min (room a r) (length buf)) buf) \<le> unat (map_size (mapping r))"
    using d(6) by (simp add: room_def)
  from byte_at_copy [OF assms(1) d(1) this, of x] show
    "byte_at m' x = (if unat a \<le> unat x \<and> unat x < unat a + min (room a r) (length buf)
       then Some (buf ! (unat x - unat a)) else byte_at m x)"
    using assms(3) w by (auto intro!: nth_take)
qed

lemma contains_within_room:
  assumes "mem_ok m" "accessible m a r" "i < room a r"
  shows "region_contains r (a + of_nat i)" "unat (a + of_nat i) = unat a + i"
    "byte_at m (a + of_nat i) = Some (contents (mapping r) (a - guest_base r + of_nat i))"
proof -
  note d = accessibleD [OF assms(1,2)]
  have base: "unat (guest_base r) \<le> unat a" using d(3,4) by (simp add: region_contains_iff)
  have lt: "unat a + i < unat (guest_base r) + unat (map_size (mapping r))"
    using assms(3) base d(5) by (simp add: room_def)
  also have "\<dots> < 2 ^ 64" using d(4) by (simp add: region_fits_def)
  finally have "unat a + i < 2 ^ 64" .
  then show u: "unat (a + of_nat i) = unat a + i"
    using unat_add_lem [of a "of_nat i"] by (simp add: unat_of_nat take_bit_nat_eq_self)
  show c: "region_contains r (a + of_nat i)" using d(4) base lt by (simp add: region_contains_iff u)
  have "a + of_nat i - guest_base r = a - guest_base r + of_nat i" by simp
  then show "byte_at m (a + of_nat i) = Some (contents (mapping r) (a - guest_base r + of_nat i))"
    using find_containing [OF assms(1) d(2) c] unfolding byte_at_def by (simp only: option.map)
qed

lemma read_at_addr_accessible:
  assumes "mem_ok m" "accessible m a r"
  shows "read_at_addr m buf a = (copy_from_mapping (mapping r) (a - guest_base r) (min (room a r) (length buf)) @
      drop (min (room a r) (length buf)) buf, Ok (min (room a r) (length buf)))"
  using assms slice_room [OF assms]
  by (rule_tac access_cases [of m a]) (auto simp: read_at_addr_def read_slice_def map_err_def accessible_def Let_def)

lemma not_accessible:
  assumes "\<forall>r. \<not> accessible m a r"
  obtains e where "write_at_addr m buf a = (m, Err e)" "read_at_addr m buf' a = (buf', Err e)"
    "read_obj_from_addr m n a = Err e" "write_obj_at_addr m val a = (m, Err e)" "get_slice_at_addr m a len = Err e"
proof (rule access_cases [of m a])
  fix e assume e: "and_then (check_host_access m a) (\<lambda>_. find_region m a) = Err e"
  then have "read_obj_from_addr m n a = Err e" "get_slice_at_addr m a len = Err e"
    by (cases "check_host_access m a"; auto simp: read_obj_from_addr_def get_slice_at_addr_def find_region_def
      split: option.splits)+
  with e show thesis using that [of e]
    by (simp add: write_at_addr_def read_at_addr_def write_obj_at_addr_def)
qed (use assms in blast)

lemma read_at_addr_bytes:
  assumes "mem_ok m" "accessible m a r" "read_at_addr m buf a = (buf', res)"
  shows "res = Ok (min (room a r) (length buf))" "length buf' = length buf"
    "i < min (room a r) (length buf) \<Longrightarrow> byte_at m (a + of_nat i) = Some (buf' ! i)"
  using assms(3) read_at_addr_accessible [OF assms(1,2), of buf] contains_within_room(3) [OF assms(1,2)]
  by (auto simp: copy_from_mapping_def nth_append)

lemma write_all_Ok:
  assumes "mem_ok m" "write_all_at_addr m buf a = (m', Ok ())"
  obtains r where "accessible m a r" "length buf \<le> room a r" "write_at_addr m buf a = (m', Ok (length buf))"
proof (cases "\<exists>r. accessible m a r")
  case True
  then obtain r where r: "accessible m a r" ..
  show thesis using that [OF r] assms(2) write_at_addr_accessible [OF assms(1) r, of buf]
    by (auto simp: write_all_at_addr_def min_def split: if_splits)
next
  case False
  then obtain e where "write_at_addr m buf a = (m, Err e)" by (metis not_accessible)
  then show thesis using assms(2) by (simp add: write_all_at_addr_def)
qed

lemma read_exact_Ok:
  assumes "mem_ok m" "read_exact_at_addr m buf a = (buf', Ok ())"
  obtains r where "accessible m a r" "length buf \<le> room a r" "read_at_addr m buf a = (buf', Ok (length buf))"
proof (cases "\<exists>r. accessible m a r")
  case True
  then obtain r where r: "accessible m a r" ..
  show thesis using that [OF r] assms(2) read_at_addr_accessible [OF assms(1) r, of buf]
    by (auto simp: read_exact_at_addr_def min_def split: if_splits)
next
  case False
  then obtain e where "read_at_addr m buf a = (buf, Err e)" by (metis not_accessible)
  then show thesis using assms(2) by (simp add: read_exact_at_addr_def)
qed

lemma range_end_room:
  assumes "mem_ok m" "accessible m a r" "n < 2 ^ 64"
  shows "(\<exists>e. range_end (mapping r) (a - guest_base r) (of_nat n) = Ok e) \<longleftrightarrow> n \<le> room a r"
    "\<exists>x. range_end (mapping r) (a - guest_base r) (of_nat n) = (if n \<le> room a r then Ok x else Err InvalidAddress)"
proof -
  have n: "unat (of_nat n :: usize) = n" using assms(3) by (simp add: unat_of_nat take_bit_nat_eq_self)
  have "n \<le> room a r \<longleftrightarrow> unat (a - guest_base r) + n \<le> unat (map_size (mapping r))"
    using accessibleD(6) [OF assms(1,2)] by (auto simp: room_def)
  moreover have "unat (map_size (mapping r)) < 2 ^ 64" using unat_bound [of "map_size (mapping r)"] by simp
  ultimately show "\<exists>x. range_end (mapping r) (a - guest_base r) (of_nat n) =
      (if n \<le> room a r then Ok x else Err InvalidAddress)"
    by (auto simp: range_end_def word_less_nat_alt rust_arith n split: option.split)
  then show "(\<exists>e. range_end (mapping r) (a - guest_base r) (of_nat n) = Ok e) \<longleftrightarrow> n \<le> room a r"
    by (metis result.distinct(1))
qed

lemma read_obj_accessible:
  assumes "mem_ok m" "n < 2 ^ 64" "accessible m a r"
  shows "read_obj_from_addr m n a = (if n \<le> room a r
    then Ok (copy_from_mapping (mapping r) (a - guest_base r) n) else Err (MemoryAccess a InvalidAddress))"
proof -
  have "read_obj_from_addr m n a = map_err (MemoryAccess a) (mapping_read_obj (mapping r) n (a - guest_base r))"
    using assms(3) by (auto simp: read_obj_from_addr_def find_region_def accessible_def)
  with range_end_room(2) [OF assms(1,3,2)] show ?thesis by (auto simp: mapping_read_obj_def map_err_def)
qed

lemma read_obj_total:
  assumes "mem_ok m" "n < 2 ^ 64"
  shows "(\<exists>bs. read_obj_from_addr m n a = Ok bs) \<longleftrightarrow> (\<exists>r. accessible m a r \<and> n \<le> room a r)"
proof (cases "\<exists>r. accessible m a r")
  case True
  then obtain r where r: "accessible m a r" ..
  then have "accessible m a s \<longleftrightarrow> s = r" for s by (auto simp: accessible_def)
  then show ?thesis by (simp add: read_obj_accessible [OF assms r])
next
  case False
  then obtain e where "read_obj_from_addr m n a = Err e" by (metis not_accessible)
  with False show ?thesis by simp
qed

lemma read_obj_bytes:
  assumes "mem_ok m" "n < 2 ^ 64" "read_obj_from_addr m n a = Ok bs"
  shows "length bs = n" "i < n \<Longrightarrow> byte_at m (a + of_nat i) = Some (bs ! i)"
proof -
  obtain r where r: "accessible m a r" "n \<le> room a r" using read_obj_total [OF assms(1,2)] assms(3) by blast
  then have "bs = copy_from_mapping (mapping r) (a - guest_base r) n"
    using assms(3) by (simp add: read_obj_accessible [OF assms(1,2) r(1)])
  then show "length bs = n" "i < n \<Longrightarrow> byte_at m (a + of_nat i) = Some (bs ! i)"
    using contains_within_room(3) [OF assms(1) r(1), of i] r(2) by (auto simp: copy_from_mapping_def)
qed

lemma write_obj_bytes:
  assumes "mem_ok m" "length val < 2 ^ 64" "write_obj_at_addr m val a = (m', res)"
  obtains "res = Ok ()" "\<exists>r. accessible m a r \<and> length val \<le> room a r" "mem_ok m'"
      "\<forall>x. byte_at m' x = (if unat a \<le> unat x \<and> unat x < unat a + length val
        then Some (val ! (unat x - unat a)) else byte_at m x)"
  | e where "res = Err e" "\<not> (\<exists>r. accessible m a r \<and> length val \<le> room a r)" "mem_ok m'" "byte_at m' = byte_at m"
proof (cases rule: access_cases [of m a])
  case (1 e)
  then show thesis using that(2) [of e] assms by (simp add: write_obj_at_addr_def)
next
  case (2 r)
  note d = accessibleD [OF assms(1) 2(1)]
  have uniq: "s = r" if "accessible m a s" for s using that 2(1) by (simp add: accessible_def)
  have w: "write_obj_at_addr m val a = (case mapping_write_obj (mapping r) val (a - guest_base r) of
      (mp, res) \<Rightarrow> (set_mapping m a mp, map_err (MemoryAccess a) res))"
    using 2(2) by (simp add: write_obj_at_addr_def)
  obtain x where x: "range_end (mapping r) (a - guest_base r) (of_nat (length val)) =
      (if length val \<le> room a r then Ok x else Err InvalidAddress)"
    using range_end_room(2) [OF assms(1) 2(1) assms(2)] ..
  show thesis
  proof (cases "length val \<le> room a r")
    case True
    then have "unat (a - guest_base r) + length val \<le> unat (map_size (mapping r))"
      using d(6) by (simp add: room_def)
    from byte_at_copy [OF assms(1) d(1) this] show thesis
      using that(1) x w assms(3) True 2(1) set_mapping_ok [OF assms(1) d(1)]
      by (auto simp: mapping_write_obj_def map_err_def)
  next
    case False
    have "byte_at (set_mapping m a (mapping r)) y = byte_at m y" for y
      using byte_at_set_mapping [OF assms(1) d(1), of "mapping r" y] find_containing [OF assms(1) d(2), of y]
      by (auto simp: byte_at_def)
    then show thesis
      using that(2) x w assms(3) False uniq set_mapping_ok [OF assms(1) d(1)]
      by (auto simp: mapping_write_obj_def map_err_def)
  qed
qed

lemma is_valid_range_ex:
  assumes "mem_ok m" "unat len \<noteq> 0"
  shows "is_valid_range m a len \<longleftrightarrow> (\<exists>r \<in> set (regions m). region_contains r a \<and>
      unat a + (unat len - 1) < unat (guest_base r) + unat (map_size (mapping r)))"
proof -
  have l: "len \<noteq> 0" "unat (len - 1) = unat len - 1" using assms(2) unat_sub [of 1 len] by (auto simp: word_le_nat_alt)
  have fits: "region_fits r" if "r \<in> set (regions m)" for r using assms that by (simp add: mem_ok_def list_all_iff)
  show ?thesis
  proof (cases "checked_add a (len - 1)")
    case None
    then have "2 ^ 64 \<le> unat a + (unat len - 1)" using l(2) by (simp add: rust_arith)
    then show ?thesis using None l(1) fits by (fastforce simp: is_valid_range_def region_fits_def)
  next
    case (Some e)
    then have "unat e = unat a + (unat len - 1)" using l(2) by (simp add: rust_arith)
    then show ?thesis using Some l(1) fits
      by (fastforce simp: is_valid_range_def list_ex_iff word_le_nat_alt word_less_nat_alt unat_region_end region_contains_iff)
  qed
qed

lemma is_valid_range_iff:
  assumes "mem_ok m"
  shows "is_valid_range m a len \<longleftrightarrow> len \<noteq> 0 \<and>
    (\<exists>r. find (\<lambda>r. region_contains r a) (regions m) = Some r \<and> unat len \<le> room a r)"
proof (cases "len = 0")
  case False
  then have l: "unat len \<noteq> 0" by (simp add: unat_eq_zero)
  have fit: "unat len \<le> room a r \<longleftrightarrow>
      unat a + (unat len - 1) < unat (guest_base r) + unat (map_size (mapping r))"
    if "region_fits r" "region_contains r a" for r
    using offset_in_region(2,3) [OF that] that l by (auto simp: region_contains_iff room_def)
  have find: "find (\<lambda>r. region_contains r a) (regions m) = Some r \<longleftrightarrow> r \<in> set (regions m) \<and> region_contains r a" for r
    using find_containing [OF assms] find_regionD(1,2) [OF assms] by blast
  show ?thesis unfolding is_valid_range_ex [OF assms l] find
    using False fit assms by (auto simp: mem_ok_def list_all_iff)
qed (simp add: is_valid_range_def)

lemma set_mapping_find:
  assumes "mem_ok m" "find (\<lambda>r. region_contains r a) (regions m) = Some r" "map_size mp = map_size (mapping r)"
  shows "find (\<lambda>r. region_contains r x) (regions (set_mapping m a mp)) =
    map_option (with_mapping a mp) (find (\<lambda>r. region_contains r x) (regions m))"
  unfolding set_mapping_regions [OF assms(1)] find_map
  using with_mapping_keeps(3) [OF assms] by (auto cong: find_cong)

lemma set_mapping_host_access:
  assumes "mem_ok m" "find (\<lambda>r. region_contains r a) (regions m) = Some r" "map_size mp = map_size (mapping r)"
  shows "check_host_access (set_mapping m a mp) x = check_host_access m x"
proof -
  have "options (with_mapping a mp s) = options s" for s by (simp add: with_mapping_def)
  moreover have "protected (set_mapping m a mp) = protected m" by (simp add: set_mapping_def)
  ultimately show ?thesis
    by (cases "find (\<lambda>r. region_contains r x) (regions m)")
      (simp_all add: check_host_access_def set_mapping_find [OF assms])
qed

lemma set_mapping_accessible:
  assumes "mem_ok m" "find (\<lambda>r. region_contains r a) (regions m) = Some r" "map_size mp = map_size (mapping r)"
    "accessible m x s"
  shows "accessible (set_mapping m a mp) x (with_mapping a mp s)" "room x (with_mapping a mp s) = room x s"
proof -
  have s: "find (\<lambda>r. region_contains r x) (regions m) = Some s" "check_host_access m x = Ok ()"
    using assms(4) by (simp_all add: accessible_def)
  then show "accessible (set_mapping m a mp) x (with_mapping a mp s)"
    by (simp add: accessible_def set_mapping_find [OF assms(1-3)] set_mapping_host_access [OF assms(1-3)])
  show "room x (with_mapping a mp s) = room x s"
    using with_mapping_keeps(1,2) [OF assms(1-3) find_regionD(1) [OF assms(1) s(1)]] by (simp add: room_def)
qed

section \<open>Construction gives well-formed memory\<close>

text \<open>All regions but the last are known to end below the top of the address space.\<close>

definition mem_chain :: "memory_region list \<Rightarrow> bool" where
  "mem_chain rs \<longleftrightarrow> sorted_wrt region_before rs \<and> list_all region_fits (butlast rs)"

lemma mem_chain_snoc:
  assumes "mem_chain rs" "rs = [] \<or> (\<exists>e. checked_add (guest_base (last rs)) (map_size (mapping (last rs))) = Some e \<and> e \<le> guest_base r)"
  shows "mem_chain (rs @ [r])"
proof (cases rs rule: rev_cases)
  case (snoc ys y)
  then obtain e where e: "unat e = unat (guest_base y) + unat (map_size (mapping y))" "e \<le> guest_base r"
    using assms(2) by (auto simp: rust_arith)
  then have y: "region_before y r" "region_fits y"
    using unat_bound [of e] by (simp_all add: region_before_def region_fits_def word_le_nat_alt)
  moreover have "region_before x r" if "region_before x y" for x
    using that y(1) by (simp add: region_before_def)
  ultimately show ?thesis using assms(1) snoc by (auto simp: mem_chain_def sorted_wrt_append butlast_append)
qed (simp add: mem_chain_def)

lemma new_regions_chain:
  assumes build: "\<And>obj off sz al w mp. build_mapping os obj off sz al w = Ok mp \<Longrightarrow> map_size mp = sz"
  shows "new_regions os shm rs off ranges = Some (Ok rs') \<Longrightarrow> mem_chain rs \<Longrightarrow>
    mem_chain rs' \<and> map (\<lambda>r. (guest_base r, map_size (mapping r), options r)) rs' =
      map (\<lambda>r. (guest_base r, map_size (mapping r), options r)) rs @ ranges"
proof (induction ranges arbitrary: rs off)
  case (Cons x ranges)
  obtain base sz opts where x: "x = (base, sz, opts)" by (cases x)
  let ?e = "checked_add (guest_base (last rs)) (map_size (mapping (last rs)))"
  have free: "rs = [] \<or> (\<exists>e. ?e = Some e \<and> e \<le> base)"
    using Cons.prems(1) by (auto simp: x split: if_splits option.splits)
  obtain mp obj obj_off off' where step:
    "new_regions os shm (rs @ [\<lparr>guest_base = base, mapping = mp, shared_obj = obj, obj_offset = obj_off, options = opts\<rparr>])
       off' ranges = Some (Ok rs')" "map_size mp = sz"
    using Cons.prems(1) build
    by (auto simp: x split: if_splits option.splits result.splits bind_splits)
  then show ?case
    using Cons.IH [OF step(1) mem_chain_snoc [OF Cons.prems(2)]] free x by simp
qed simp

lemma check_regions_chain:
  "check_regions e rs = Ok () \<Longrightarrow> sorted_wrt region_before rs \<and> list_all region_fits rs \<and>
     (\<forall>r \<in> set rs. unat e \<le> unat (guest_base r))"
proof (induction rs arbitrary: e)
  case (Cons r rs)
  then obtain e' where e': "checked_add (guest_base r) (map_size (mapping r)) = Some e'" "e \<le> guest_base r"
      "check_regions e' rs = Ok ()"
    by (auto split: if_splits option.splits)
  then have "unat e' = unat (guest_base r) + unat (map_size (mapping r))" by (simp add: rust_arith)
  with Cons.IH [OF e'(3)] e'(2) unat_bound [of e'] show ?case
    by (auto simp: region_fits_def region_before_def word_le_nat_alt)
qed simp

lemma from_regions_ok:
  assumes "from_regions rs = Ok m" "length rs > 1"
  shows "mem_ok m" "set (regions m) = set rs" "\<not> protected m"
proof -
  let ?rs = "sort_key guest_base rs"
  obtain r rs' where r: "?rs = r # rs'" using assms(2) by (cases ?rs) (auto dest: arg_cong [of _ _ length])
  moreover have "rs' \<noteq> []" using assms(2) r by (metis length_sort length_Cons less_numeral_extra(4) list.size(3) One_nat_def)
  ultimately obtain e where e: "checked_add (guest_base r) (map_size (mapping r)) = Some e" "check_regions e rs' = Ok ()"
    and m: "m = \<lparr>regions = r # rs', locked = False, protected = False\<rparr>"
    using assms(1) by (auto simp: from_regions_def Let_def map_ok_Ok split: option.splits)
  have "unat e = unat (guest_base r) + unat (map_size (mapping r))" using e(1) by (simp add: rust_arith)
  with check_regions_chain [OF e(2)] unat_bound [of e] m show "mem_ok m"
    by (auto simp: mem_ok_def region_fits_def region_before_def)
  show "set (regions m) = set rs" using r m by (metis guest_memory.select_convs(1) set_sort)
  show "\<not> protected m" using m by simp
qed

section \<open>Properties\<close>

text \<open>C23: Building guest memory from a list of ranges yields exactly these ranges in their order, pairwise
  disjoint; every region but the last is known to end inside the address space, and the memory is
  well formed when the last one does too.  The mapping call is taken to return a mapping of the
  requested size.\<close>

theorem new_with_options_disjoint:
  assumes build: "\<And>obj off sz al w mp. build_mapping os obj off sz al w = Ok mp \<Longrightarrow> map_size mp = sz"
    and new: "new_with_options os ranges = Some (Ok m)"
  shows "map (\<lambda>r. (guest_base r, map_size (mapping r), options r)) (regions m) = ranges \<and>
    sorted_wrt region_before (regions m) \<and> list_all region_fits (butlast (regions m)) \<and>
    (mem_ok m \<longleftrightarrow> regions m = [] \<or> region_fits (last (regions m)))"
proof -
  obtain shm rs where rs: "new_regions os shm [] 0 ranges = Some (Ok rs)" "regions m = rs"
    using new by (auto simp: new_with_options_def map_ok_Ok split: bind_splits result.splits)
  have "mem_chain rs \<and> map (\<lambda>r. (guest_base r, map_size (mapping r), options r)) rs = ranges"
    using new_regions_chain [OF build rs(1)] by (simp add: mem_chain_def)
  moreover have "list_all region_fits rs \<longleftrightarrow> list_all region_fits (butlast rs) \<and> (rs = [] \<or> region_fits (last rs))"
    by (cases rs rule: rev_cases) auto
  ultimately show ?thesis using rs(2) by (auto simp: mem_chain_def mem_ok_def)
qed

definition demo_os :: host_os where
  "demo_os = \<lparr>page_size = 0x1000, new_shm = (\<lambda>_. Ok 1), finalize_shm = (\<lambda>_. Ok ()), open_file = (\<lambda>_. Err ()),
     build_mapping = (\<lambda>obj off sz al w. Ok \<lparr>host_ptr = 0x7f0000000000 + off, map_size = sz, contents = (\<lambda>_. 0)\<rparr>)\<rparr>"

lemma demo_os_maps: "build_mapping demo_os obj off sz al w = Ok mp \<Longrightarrow> map_size mp = sz"
  by (auto simp: demo_os_def)

definition demo_ranges :: "(u64 \<times> u64 \<times> memory_region_options) list" where
  "demo_ranges = [(0, 0x2000, default_options),
     (0x80000000, 0x1000, default_options\<lparr>purpose := StaticSwiotlbRegion, isolate_backing := True\<rparr>)]"

theorem new_with_options_disjoint_witness:
  "\<exists>m. new_with_options demo_os demo_ranges = Some (Ok m) \<and> mem_ok m \<and>
    map guest_base (regions m) = [0, 0x80000000]"
proof -
  obtain m where m: "new_with_options demo_os demo_ranges = Some (Ok m)"
    "map (\<lambda>r. (guest_base r, map_size (mapping r))) (regions m) = [(0, 0x2000), (0x80000000, 0x1000)]"
    by (auto simp: new_with_options_def create_shm_def demo_os_def demo_ranges_def default_options_def
      checked_add_def)
  then have "region_fits (last (regions m))" by (auto simp: region_fits_def)
  moreover have "regions m = [] \<or> region_fits (last (regions m)) \<Longrightarrow> mem_ok m"
    using new_with_options_disjoint [OF _ m(1)] demo_os_maps by blast
  ultimately have "mem_ok m" by blast
  then show ?thesis using m by auto
qed

text \<open>C5: Guest memory behaves as one partial map from addresses to bytes.  A successful
  \<open>write_all_at_addr\<close> updates exactly the bytes it names and keeps the memory well formed, a
  successful \<open>read_exact_at_addr\<close> returns the bytes of the map, and what was written is read back.\<close>

theorem guest_memory_refines_bytes:
  assumes ok: "mem_ok m"
  shows "(write_all_at_addr m buf a = (m', Ok ()) \<longrightarrow> mem_ok m' \<and>
      (\<forall>x. byte_at m' x = (if unat a \<le> unat x \<and> unat x < unat a + length buf
        then Some (buf ! (unat x - unat a)) else byte_at m x)) \<and>
      (\<forall>out. length out = length buf \<longrightarrow> read_exact_at_addr m' out a = (buf, Ok ()))) \<and>
    (read_exact_at_addr m buf a = (buf', Ok ()) \<longrightarrow>
      length buf' = length buf \<and> (\<forall>i < length buf. byte_at m (a + of_nat i) = Some (buf' ! i)))"
proof (intro conjI impI allI)
  assume "write_all_at_addr m buf a = (m', Ok ())"
  then obtain r where r: "accessible m a r" "length buf \<le> room a r" "write_at_addr m buf a = (m', Ok (length buf))"
    by (rule write_all_Ok [OF ok])
  note w = write_at_addr_bytes [OF ok r(1,3)] and room = contains_within_room [OF ok r(1)]
  show ok': "mem_ok m'" by (rule w(1))
  show bytes: "byte_at m' x = (if unat a \<le> unat x \<and> unat x < unat a + length buf
      then Some (buf ! (unat x - unat a)) else byte_at m x)" for x
    using w(3) [of x] r(2) by (simp add: min.absorb2)
  fix out :: "u8 list" assume len: "length out = length buf"
  obtain r' where r': "accessible m' a r'" "room a r' = room a r"
    using set_mapping_accessible [OF ok accessibleD(1) [OF ok r(1)] copy_to_mapping_size r(1)]
      write_at_addr_accessible [OF ok r(1), of buf] r(3) by (metis prod.inject)
  obtain out' res where out: "read_at_addr m' out a = (out', res)" by (cases "read_at_addr m' out a")
  note g = read_at_addr_bytes [OF ok' r'(1) out]
  have "out' ! i = buf ! i" if "i < length buf" for i
    using g(3) [of i] that r(2) r'(2) len bytes [of "a + of_nat i"] room(2) [of i] by (auto simp: min.absorb2)
  then have "out' = buf" using g(2) len by (auto intro: nth_equalityI)
  with g(1) out r(2) r'(2) len show "read_exact_at_addr m' out a = (buf, Ok ())"
    by (auto simp: read_exact_at_addr_def min.absorb2)
next
  assume "read_exact_at_addr m buf a = (buf', Ok ())"
  then obtain r where r: "accessible m a r" "length buf \<le> room a r" "read_at_addr m buf a = (buf', Ok (length buf))"
    by (rule read_exact_Ok [OF ok])
  show "length buf' = length buf" by (rule read_at_addr_bytes(2) [OF ok r(1,3)])
  fix i assume "i < length buf"
  then show "byte_at m (a + of_nat i) = Some (buf' ! i)"
    using read_at_addr_bytes(3) [OF ok r(1,3)] r(2) by (simp add: min.absorb2)
qed

definition demo_region :: "u64 \<Rightarrow> usize \<Rightarrow> memory_region_purpose \<Rightarrow> memory_region" where
  "demo_region base sz p = \<lparr>guest_base = base, mapping = \<lparr>host_ptr = 0x7f0000000000, map_size = sz, contents = (\<lambda>_. 0)\<rparr>,
     shared_obj = Shm 1, obj_offset = 0, options = default_options\<lparr>purpose := p\<rparr>\<rparr>"

definition demo_mem :: guest_memory where
  "demo_mem = \<lparr>regions = [demo_region 0 0x2000 GuestMemoryRegion, demo_region 0x80000000 0x1000 StaticSwiotlbRegion],
     locked = False, protected = False\<rparr>"

lemma demo_mem_ok: "mem_ok demo_mem" "mem_ok (set_protected demo_mem)"
  by (simp_all add: mem_ok_def demo_mem_def demo_region_def region_fits_def region_before_def set_protected_def)

theorem guest_memory_refines_bytes_witness:
  "\<exists>m'. write_all_at_addr demo_mem [0xaa, 0xbb] 0x1ffe = (m', Ok ()) \<and> byte_at m' 0x1fff = Some 0xbb \<and>
    read_exact_at_addr m' [0, 0] 0x1ffe = ([0xaa, 0xbb], Ok ())"
proof -
  have "snd (write_all_at_addr demo_mem [0xaa, 0xbb] 0x1ffe) = Ok ()" by code_simp
  then obtain m' where w: "write_all_at_addr demo_mem [0xaa, 0xbb] 0x1ffe = (m', Ok ())"
    by (cases "write_all_at_addr demo_mem [0xaa, 0xbb] 0x1ffe") auto
  then have b: "\<forall>x. byte_at m' x = (if unat (0x1ffe :: u64) \<le> unat x \<and> unat x < unat (0x1ffe :: u64) + length [0xaa, 0xbb :: u8]
        then Some ([0xaa, 0xbb] ! (unat x - unat (0x1ffe :: u64))) else byte_at demo_mem x)"
    and r: "\<forall>out. length out = length [0xaa, 0xbb :: u8] \<longrightarrow> read_exact_at_addr m' out 0x1ffe = ([0xaa, 0xbb], Ok ())"
    using guest_memory_refines_bytes [OF demo_mem_ok(1), of "[0xaa, 0xbb]" "0x1ffe" m' "[]"] by blast+
  show ?thesis using w b [rule_format, of "0x1fff"] r [rule_format, of "[0, 0]"] by simp
qed

definition host_shared :: "memory_region \<Rightarrow> bool" where
  "host_shared r \<longleftrightarrow> purpose (options r) \<in> {SharedFramebuffer, StaticSwiotlbRegion}"

definition same_shared :: "memory_region \<Rightarrow> memory_region \<Rightarrow> bool" where
  "same_shared r s \<longleftrightarrow> (host_shared r \<longrightarrow> r = s) \<and> guest_base r = guest_base s \<and> options r = options s \<and>
     map_size (mapping r) = map_size (mapping s)"

lemma accessible_shared:
  assumes "protected m" "accessible m a r"
  shows "host_shared r"
  using assms by (auto simp: accessible_def check_host_access_def host_shared_def split: memory_region_purpose.splits)

lemma lent_error:
  assumes "protected m" "find (\<lambda>r. region_contains r a) (regions m) = Some r" "\<not> host_shared r"
  shows "check_host_access m a = Err (ProtectedMemoryAccess a (purpose (options r)))"
  using assms by (cases "purpose (options r)") (auto simp: check_host_access_def host_shared_def)

lemma find_rel:
  assumes "list_all2 R xs ys" "\<And>x y. R x y \<Longrightarrow> P x = P y"
  shows "rel_option R (find P xs) (find P ys)"
  using assms by (induction xs ys rule: list_all2_induct) auto

lemma lent_byte_kept:
  assumes ok: "mem_ok m" and prot: "protected m"
    and x: "find (\<lambda>r. region_contains r x) (regions m) = Some s" "\<not> host_shared s"
    and a: "accessible m a r" and mp: "map_size mp = map_size (mapping r)"
  shows "byte_at (set_mapping m a mp) x = byte_at m x"
proof -
  note d = accessibleD [OF ok a]
  have "\<not> region_contains r x"
    using find_containing [OF ok d(2), of x] x accessible_shared [OF prot a] by auto
  then show ?thesis by (simp add: byte_at_set_mapping [OF ok d(1) mp])
qed

lemma mapping_write_obj_size: "map_size (fst (mapping_write_obj mp val off)) = map_size mp"
  by (simp add: mapping_write_obj_def split: result.split)

lemma write_slice_size: "map_size (fst (write_slice mp buf off)) = map_size mp"
  by (simp add: write_slice_def Let_def split: option.split)

lemma protected_write_keeps:
  assumes "mem_ok m" "protected m" "find (\<lambda>r. region_contains r x) (regions m) = Some s" "\<not> host_shared s"
  shows "byte_at (fst (write_at_addr m buf a)) x = byte_at m x \<and> byte_at (fst (write_obj_at_addr m buf a)) x = byte_at m x"
proof (cases rule: access_cases [of m a])
  case (1 e)
  then show ?thesis by (simp add: write_at_addr_def write_obj_at_addr_def)
next
  case (2 r)
  note keep = lent_byte_kept [OF assms 2(1)]
  show ?thesis using 2(2) keep [OF write_slice_size] keep [OF mapping_write_obj_size]
    by (simp add: write_at_addr_def write_obj_at_addr_def split: prod.split)
      (metis fst_conv)
qed

lemma same_sharedD:
  assumes "same_shared r s"
  shows "guest_base r = guest_base s" "map_size (mapping r) = map_size (mapping s)" "options r = options s"
    "host_shared r = host_shared s" "host_shared r \<Longrightarrow> r = s"
proof -
  show "guest_base r = guest_base s" "map_size (mapping r) = map_size (mapping s)"
    and o: "options r = options s" and "host_shared r \<Longrightarrow> r = s"
    using assms unfolding same_shared_def by blast+
  show "host_shared r = host_shared s" unfolding host_shared_def o ..
qed

lemma access_protected:
  assumes "protected m"
  shows "and_then (check_host_access m a) (\<lambda>_. find_region m a) =
    (case find (\<lambda>r. region_contains r a) (regions m) of
      None \<Rightarrow> Err (InvalidGuestAddress a)
    | Some r \<Rightarrow> if host_shared r then Ok (mapping r, a - guest_base r, obj_offset r)
        else Err (ProtectedMemoryAccess a (purpose (options r))))"
proof (cases "find (\<lambda>r. region_contains r a) (regions m)")
  case (Some r)
  show ?thesis using assms Some
    by (cases "purpose (options r)") (simp_all add: check_host_access_def find_region_def host_shared_def)
qed (use assms in \<open>simp add: check_host_access_def\<close>)

lemma protected_read_same:
  assumes "protected m" "protected m'" "list_all2 same_shared (regions m) (regions m')"
  shows "read_at_addr m' buf a = read_at_addr m buf a \<and> read_obj_from_addr m' n a = read_obj_from_addr m n a"
proof -
  have "rel_option same_shared (find (\<lambda>r. region_contains r a) (regions m)) (find (\<lambda>r. region_contains r a) (regions m'))"
    using assms(3) by (rule find_rel) (simp add: same_sharedD(1,2) region_contains_def region_end_def)
  then have "and_then (check_host_access m' a) (\<lambda>_. find_region m' a) = and_then (check_host_access m a) (\<lambda>_. find_region m a)"
    unfolding access_protected [OF assms(1)] access_protected [OF assms(2)] option.rel_sel
    by (cases "find (\<lambda>r. region_contains r a) (regions m)"; cases "find (\<lambda>r. region_contains r a) (regions m')")
      (auto dest: same_sharedD(3-5))
  moreover have "read_obj_from_addr m n a = and_then (and_then (check_host_access m a) (\<lambda>_. find_region m a))
      (\<lambda>(mp, off, _). map_err (MemoryAccess a) (mapping_read_obj mp n off))" for m
    by (cases "check_host_access m a") (simp_all add: read_obj_from_addr_def)
  ultimately show ?thesis by (simp add: read_at_addr_def)
qed

lemma lent_access_fails:
  assumes "check_host_access m x = Err e"
  shows "write_at_addr m buf x = (m, Err e)" "read_at_addr m buf x = (buf, Err e)"
    "write_obj_at_addr m buf x = (m, Err e)" "read_obj_from_addr m n x = Err e" "get_slice_at_addr m x len = Err e"
  using assms by (simp_all add: write_at_addr_def read_at_addr_def write_obj_at_addr_def read_obj_from_addr_def
    get_slice_at_addr_def)

text \<open>C4: In a protected virtual machine the host cannot touch lent memory.  Every access to an address
  outside the shared regions fails without effect, no write changes a lent byte whatever its address
  and length, and no read depends on one: memories that differ only in lent regions give the same
  results.\<close>

theorem protected_memory_isolated:
  assumes "mem_ok m" "protected m"
  shows "(\<forall>x r. find (\<lambda>r. region_contains r x) (regions m) = Some r \<and> \<not> host_shared r \<longrightarrow>
      write_at_addr m buf x = (m, Err (ProtectedMemoryAccess x (purpose (options r)))) \<and>
      write_obj_at_addr m buf x = (m, Err (ProtectedMemoryAccess x (purpose (options r)))) \<and>
      read_at_addr m buf x = (buf, Err (ProtectedMemoryAccess x (purpose (options r)))) \<and>
      read_obj_from_addr m n x = Err (ProtectedMemoryAccess x (purpose (options r))) \<and>
      get_slice_at_addr m x len = Err (ProtectedMemoryAccess x (purpose (options r))) \<and>
      byte_at (fst (write_at_addr m buf a)) x = byte_at m x \<and>
      byte_at (fst (write_obj_at_addr m buf a)) x = byte_at m x) \<and>
    (\<forall>m'. protected m' \<and> list_all2 same_shared (regions m) (regions m') \<longrightarrow>
      read_at_addr m' buf a = read_at_addr m buf a \<and> read_obj_from_addr m' n a = read_obj_from_addr m n a)"
proof (intro conjI allI impI; elim conjE)
  fix x r assume x: "find (\<lambda>r. region_contains r x) (regions m) = Some r" "\<not> host_shared r"
  note fail = lent_access_fails [OF lent_error [OF assms(2) x]] and keep = protected_write_keeps [OF assms x]
  show "write_at_addr m buf x = (m, Err (ProtectedMemoryAccess x (purpose (options r))))"
    "write_obj_at_addr m buf x = (m, Err (ProtectedMemoryAccess x (purpose (options r))))"
    "read_at_addr m buf x = (buf, Err (ProtectedMemoryAccess x (purpose (options r))))"
    "read_obj_from_addr m n x = Err (ProtectedMemoryAccess x (purpose (options r)))"
    "get_slice_at_addr m x len = Err (ProtectedMemoryAccess x (purpose (options r)))"
    by (fact fail)+
  show "byte_at (fst (write_at_addr m buf a)) x = byte_at m x" "byte_at (fst (write_obj_at_addr m buf a)) x = byte_at m x"
    using keep by blast+
next
  fix m' :: guest_memory assume "protected m'" "list_all2 same_shared (regions m) (regions m')"
  from protected_read_same [OF assms(2) this]
  show "read_at_addr m' buf a = read_at_addr m buf a" "read_obj_from_addr m' n a = read_obj_from_addr m n a"
    by blast+
qed

theorem protected_memory_isolated_witness:
  "write_at_addr (set_protected demo_mem) [1] 0x100 =
     (set_protected demo_mem, Err (ProtectedMemoryAccess 0x100 GuestMemoryRegion)) \<and>
   byte_at (fst (write_at_addr (set_protected demo_mem) [1] 0x80000000)) 0x100 = Some 0 \<and>
   byte_at (fst (write_at_addr (set_protected demo_mem) [1] 0x80000000)) 0x80000000 = Some 1"
proof -
  let ?m = "set_protected demo_mem"
  have prot: "protected ?m" by (simp add: set_protected_def)
  have f: "find (\<lambda>r. region_contains r 0x100) (regions ?m) = Some (demo_region 0 0x2000 GuestMemoryRegion)"
    by (simp add: set_protected_def demo_mem_def demo_region_def region_contains_def region_end_def unchecked_add_def)
  moreover have "\<not> host_shared (demo_region 0 0x2000 GuestMemoryRegion)"
    "purpose (options (demo_region 0 0x2000 GuestMemoryRegion)) = GuestMemoryRegion"
    by (simp_all add: demo_region_def host_shared_def)
  moreover have "byte_at ?m 0x100 = Some 0"
    "byte_at (fst (write_at_addr ?m [1] 0x80000000)) 0x80000000 = Some 1" by code_simp+
  ultimately show ?thesis
    using protected_memory_isolated [OF demo_mem_ok(2) prot, of "[1]" 0 0 "0x80000000"] by metis
qed



text \<open>The end of the last region is not checked when memory is built, and it is computed with
  wrap-around: a region that ends at the top of the address space is accepted, its end is zero, and
  none of its addresses is part of guest memory.\<close>

theorem top_region_unreachable:
  "\<exists>m. from_regions [demo_region 0xfffffffffffff000 0x1000 GuestMemoryRegion] = Ok m \<and>
    memory_size m = Some 0x1000 \<and> end_addr m = 0 \<and>
    \<not> address_in_range m 0xfffffffffffff000 \<and> \<not> is_valid_range m 0xfffffffffffff000 1"
  by (auto simp: from_regions_def demo_region_def memory_size_def end_addr_def region_end_def unchecked_add_def
    address_in_range_def region_contains_def is_valid_range_def checked_add_def)

section \<open>Objects written and read\<close>

text \<open>A read is not affected by a change of memory that keeps the bytes it looks at.\<close>

lemma read_obj_set_mapping:
  assumes ok: "mem_ok m" and r: "find (\<lambda>r. region_contains r a) (regions m) = Some r"
    and size: "map_size mp = map_size (mapping r)" and n: "n < 2 ^ 64"
    and same: "\<And>x. unat b \<le> unat x \<Longrightarrow> unat x < unat b + n \<Longrightarrow> byte_at (set_mapping m a mp) x = byte_at m x"
  shows "read_obj_from_addr (set_mapping m a mp) n b = read_obj_from_addr m n b"
proof (cases rule: access_cases [of m b])
  case (1 e)
  have "find_region (set_mapping m a mp) b = Err e'" if "find_region m b = Err e'" for e'
    using that by (auto simp: find_region_def set_mapping_find [OF ok r size] split: option.splits)
  with 1(1) show ?thesis
    by (cases "check_host_access m b") (auto simp: read_obj_from_addr_def set_mapping_host_access [OF ok r size])
next
  case (2 s)
  note ok' = set_mapping_ok [OF ok r size] and acc = set_mapping_accessible [OF ok r size 2(1)]
  have "copy_from_mapping (mapping (with_mapping a mp s)) (b - guest_base (with_mapping a mp s)) n =
      copy_from_mapping (mapping s) (b - guest_base s) n" if "n \<le> room b s"
  proof -
    have "Some (contents (mapping (with_mapping a mp s)) (b - guest_base (with_mapping a mp s) + of_nat i)) =
        Some (contents (mapping s) (b - guest_base s + of_nat i))" if i: "i < n" for i
    proof -
      have "i < room b s" "i < room b (with_mapping a mp s)" using i \<open>n \<le> room b s\<close> acc(2) by simp_all
      note c = contains_within_room [OF ok 2(1) this(1)] contains_within_room(3) [OF ok' acc(1) this(2)]
      show ?thesis using same [of "b + of_nat i"] c(2,3,4) i by simp
    qed
    then show ?thesis by (simp add: copy_from_mapping_def)
  qed
  then show ?thesis
    unfolding read_obj_accessible [OF ok n 2(1)] read_obj_accessible [OF ok' n acc(1)] acc(2) by simp
qed

lemma write_obj_cases:
  obtains "fst (write_obj_at_addr m val a) = m"
  | r where "accessible m a r"
    "fst (write_obj_at_addr m val a) = set_mapping m a (fst (mapping_write_obj (mapping r) val (a - guest_base r)))"
proof (cases rule: access_cases [of m a])
  case (1 e)
  then show thesis using that(1) by (simp add: write_obj_at_addr_def)
next
  case (2 r)
  then show thesis using that(2) by (simp add: write_obj_at_addr_def split: prod.split)
qed

lemma write_obj_byte_frame:
  assumes "mem_ok m" "length val < 2 ^ 64" "\<not> (unat a \<le> unat x \<and> unat x < unat a + length val)"
  shows "byte_at (fst (write_obj_at_addr m val a)) x = byte_at m x"
proof -
  obtain m' res where w: "write_obj_at_addr m val a = (m', res)" by (cases "write_obj_at_addr m val a")
  show ?thesis by (rule write_obj_bytes [OF assms(1,2) w]) (use assms(3) w in auto)
qed

lemma write_obj_ok:
  assumes "mem_ok m" "length val < 2 ^ 64"
  shows "mem_ok (fst (write_obj_at_addr m val a))"
proof -
  obtain m' res where w: "write_obj_at_addr m val a = (m', res)" by (cases "write_obj_at_addr m val a")
  show ?thesis by (rule write_obj_bytes [OF assms w]) (use w in auto)
qed

definition apart :: "u64 \<Rightarrow> nat \<Rightarrow> u64 \<Rightarrow> nat \<Rightarrow> bool" where
  "apart a n b k \<longleftrightarrow> unat a + n \<le> unat b \<or> unat b + k \<le> unat a"

lemma write_obj_read_frame:
  assumes "mem_ok m" "length val < 2 ^ 64" "n < 2 ^ 64" "apart a (length val) b n"
  shows "read_obj_from_addr (fst (write_obj_at_addr m val a)) n b = read_obj_from_addr m n b"
proof (cases rule: write_obj_cases [of m val a])
  case 1
  then show ?thesis by simp
next
  case (2 r)
  have "byte_at (fst (write_obj_at_addr m val a)) x = byte_at m x"
    if "unat b \<le> unat x" "unat x < unat b + n" for x
    using assms(4) that by (intro write_obj_byte_frame [OF assms(1,2)]) (auto simp: apart_def)
  then show ?thesis
    using read_obj_set_mapping [OF assms(1) accessibleD(1) [OF assms(1) 2(1)] mapping_write_obj_size assms(3)] 2(2) by simp
qed

lemma write_obj_read_back:
  assumes "mem_ok m" "length val < 2 ^ 64" "write_obj_at_addr m val a = (m', Ok ())"
  shows "read_obj_from_addr m' (length val) a = Ok val"
proof (rule write_obj_bytes [OF assms])
  assume ok': "mem_ok m'" and ex: "\<exists>r. accessible m a r \<and> length val \<le> room a r"
    and bytes: "\<forall>x. byte_at m' x = (if unat a \<le> unat x \<and> unat x < unat a + length val
        then Some (val ! (unat x - unat a)) else byte_at m x)"
  then obtain r where r: "accessible m a r" "length val \<le> room a r" by blast
  have "fst (write_obj_at_addr m val a) = m'" using assms(3) by simp
  then have "\<exists>r. accessible m' a r \<and> length val \<le> room a r"
  proof (cases rule: write_obj_cases [of m val a])
    case 1
    then show ?thesis using r \<open>fst _ = m'\<close> by auto
  next
    case (2 s)
    then show ?thesis
      using set_mapping_accessible [OF assms(1) accessibleD(1) [OF assms(1) 2(1)] mapping_write_obj_size r(1)] r(2) \<open>fst _ = m'\<close>
      by metis
  qed
  then obtain bs where bs: "read_obj_from_addr m' (length val) a = Ok bs"
    using read_obj_total [OF ok' assms(2)] by blast
  note b = read_obj_bytes [OF ok' assms(2) bs]
  have "bs ! i = val ! i" if "i < length val" for i
    using b(2) [OF that] bytes [rule_format, of "a + of_nat i"] contains_within_room(2) [OF assms(1) r(1), of i] that r(2)
    by auto
  then have "bs = val" using b(1) by (auto intro: nth_equalityI)
  with bs show ?thesis by simp
qed simp

end
