(* ===== verification/Descriptor_Chain.thy ===== *)
theory Descriptor_Chain
  imports Guest_Memory
begin

text \<open>
  Virtqueue descriptor chains: \<open>devices/src/virtio/descriptor_chain.rs\<close> and its two iterators,
  \<open>queue/split_descriptor_chain.rs\<close> and \<open>queue/packed_descriptor_chain.rs\<close>.  The guest writes the
  descriptor tables, so the walk over them is a loop on untrusted data; the theory states what the
  walk needs of an iterator as a contract, shows that both iterators meet it, and derives that every
  walk ends and that an accepted chain only names valid guest memory.
\<close>

section \<open>Little-endian objects\<close>

fun le_word :: "u8 list \<Rightarrow> 'a::len word" where
  "le_word [] = 0"
| "le_word (b # bs) = ucast b OR push_bit 8 (le_word bs)"

fun le_bytes :: "nat \<Rightarrow> 'a::len word \<Rightarrow> u8 list" where
  "le_bytes 0 w = []"
| "le_bytes (Suc n) w = ucast w # le_bytes n (drop_bit 8 w)"

lemma length_le_bytes [simp]: "length (le_bytes n w) = n"
  by (induction n arbitrary: w) auto

lemma le_word_bytes: "le_word (le_bytes n w) = take_bit (8 * n) (w :: 'a::len word)"
proof (induction n arbitrary: w)
  case (Suc n)
  have "ucast (ucast w :: u8) OR push_bit 8 (take_bit (8 * n) (drop_bit 8 w)) = take_bit (8 + 8 * n) w"
    by (rule bit_eqI) (auto simp: bit_simps)
  then show ?case using Suc by simp
qed simp

lemma le_roundtrip: "LENGTH('a) \<le> 8 * n \<Longrightarrow> le_word (le_bytes n w) = (w :: 'a::len word)"
  by (simp add: le_word_bytes take_bit_word_eq_self)

section \<open>Descriptors\<close>

datatype descriptor_access = DeviceRead | DeviceWrite

record descriptor =
  desc_address :: u64
  desc_len :: u32
  desc_access :: descriptor_access

record mem_region =
  mr_offset :: u64
  mr_len :: usize

record descriptor_chain =
  chain_head :: u16
  readable :: "mem_region list"
  writable :: "mem_region list"
  chain_id :: "u16 option"
  chain_count :: u16

datatype chain_error = IndexOutOfBounds u16 u16
  | LoopDetected
  | IntegerOverflow
  | DescReadFailed guest_memory_error
  | UnexpectedFlags u16 u16
  | ZeroLengthDescriptor
  | ReadableAfterWritable
  | RegionOutOfBounds u64 usize
  | LengthOverflow
  | ZeroLengthChain

text \<open>The walk of \<open>DescriptorChain::new\<close> over any descriptor iterator.  Nothing in it bounds the number
  of steps, so that it returns is a matter of the iterator.\<close>

partial_function (option) chain_walk ::
  "('c \<Rightarrow> 'c \<times> (descriptor option, chain_error) result) \<Rightarrow> 'c \<Rightarrow> mem_region list \<Rightarrow> mem_region list \<Rightarrow> bool
    \<Rightarrow> ('c \<times> mem_region list \<times> mem_region list, chain_error) result option" where
  "chain_walk chain_next chain rd wr seen_writable =
     (case chain_next chain of (chain, res) \<Rightarrow>
       (case res of
         Err e \<Rightarrow> Some (Err e)
       | Ok None \<Rightarrow> Some (Ok (chain, rd, wr))
       | Ok (Some desc) \<Rightarrow>
           (if desc_len desc = 0 then chain_walk chain_next chain rd wr seen_writable
            else (case desc_access desc of
              DeviceRead \<Rightarrow>
                if seen_writable then Some (Err ReadableAfterWritable)
                else chain_walk chain_next chain
                  (rd @ [\<lparr>mr_offset = desc_address desc, mr_len = ucast (desc_len desc)\<rparr>]) wr seen_writable
            | DeviceWrite \<Rightarrow> chain_walk chain_next chain rd
                (wr @ [\<lparr>mr_offset = desc_address desc, mr_len = ucast (desc_len desc)\<rparr>]) True))))"

declare chain_walk.simps [code]

fun validate_regions :: "guest_memory \<Rightarrow> u32 \<Rightarrow> mem_region list \<Rightarrow> (u32, chain_error) result" where
  "validate_regions mem total_len [] = Ok total_len"
| "validate_regions mem total_len (r # rs) =
     (let len = ucast (mr_len r) :: u32
      in if \<not> is_valid_range mem (mr_offset r) (ucast len) then Err (RegionOutOfBounds (mr_offset r) (mr_len r))
         else case checked_add total_len len of
             None \<Rightarrow> Err LengthOverflow
           | Some total_len \<Rightarrow> validate_regions mem total_len rs)"

definition validate_mem_regions :: "guest_memory \<Rightarrow> mem_region list \<Rightarrow> mem_region list \<Rightarrow> (unit, chain_error) result" where
  "validate_mem_regions mem rd wr =
     and_then (validate_regions mem 0 (rd @ wr)) (\<lambda>total_len.
       if total_len = 0 then Err ZeroLengthChain else Ok ())"

record 'c chain_iter =
  iter_next :: "'c \<Rightarrow> 'c \<times> (descriptor option, chain_error) result"
  iter_count :: "'c \<Rightarrow> u16"
  iter_id :: "'c \<Rightarrow> u16 option"

definition descriptor_chain_new :: "'c chain_iter \<Rightarrow> 'c \<Rightarrow> guest_memory \<Rightarrow> u16
    \<Rightarrow> (descriptor_chain, chain_error) result option" where
  "descriptor_chain_new it chain mem index = do {
     walked \<leftarrow> chain_walk (iter_next it) chain [] [] False;
     Some (and_then walked (\<lambda>(chain, rd, wr).
       and_then (validate_mem_regions mem rd wr) (\<lambda>_.
         Ok \<lparr>chain_head = index, readable = rd, writable = wr, chain_id = iter_id it chain,
             chain_count = iter_count it chain\<rparr>)))
   }"

section \<open>Split descriptor chains\<close>

record virtq_desc =
  vd_addr :: u64
  vd_len :: u32
  vd_flags :: u16
  vd_next :: u16

definition virtq_desc_of :: "u8 list \<Rightarrow> virtq_desc" where
  "virtq_desc_of bs = \<lparr>vd_addr = le_word (take 8 bs), vd_len = le_word (take 4 (drop 8 bs)),
     vd_flags = le_word (take 2 (drop 12 bs)), vd_next = le_word (take 2 (drop 14 bs))\<rparr>"

record split_descriptor_chain =
  split_index :: "u16 option"
  split_count :: u16
  split_queue_size :: u16
  split_desc_table :: u64

definition split_descriptor_chain_new :: "u64 \<Rightarrow> u16 \<Rightarrow> u16 \<Rightarrow> split_descriptor_chain" where
  "split_descriptor_chain_new table queue_size index =
     \<lparr>split_index = Some index, split_count = 0, split_queue_size = queue_size, split_desc_table = table\<rparr>"

definition split_next :: "guest_memory \<Rightarrow> split_descriptor_chain
    \<Rightarrow> split_descriptor_chain \<times> (descriptor option, chain_error) result" where
  "split_next mem c =
     (case split_index c of
       None \<Rightarrow> (c, Ok None)
     | Some index \<Rightarrow>
         if index \<ge> split_queue_size c then (c, Err (IndexOutOfBounds index (split_queue_size c)))
         else if split_count c \<ge> split_queue_size c then (c, Err LoopDetected)
         else let c = c\<lparr>split_count := split_count c + 1\<rparr> in
           case checked_add (split_desc_table c) (ucast index * 16) of
             None \<Rightarrow> (c, Err IntegerOverflow)
           | Some desc_addr \<Rightarrow>
               (case read_obj_from_addr mem 16 desc_addr of
                 Err e \<Rightarrow> (c, Err (DescReadFailed e))
               | Ok bytes \<Rightarrow>
                   let desc = virtq_desc_of bytes;
                       unexpected_flags = vd_flags desc AND NOT (0x2 OR 0x1)
                   in if unexpected_flags \<noteq> 0 then (c, Err (UnexpectedFlags index unexpected_flags))
                      else (c\<lparr>split_index := (if vd_flags desc AND 0x1 \<noteq> 0 then Some (vd_next desc) else None)\<rparr>,
                        Ok (Some \<lparr>desc_address = vd_addr desc, desc_len = vd_len desc,
                          desc_access = (if vd_flags desc AND 0x2 \<noteq> 0 then DeviceWrite else DeviceRead)\<rparr>))))"

definition split_iter :: "guest_memory \<Rightarrow> split_descriptor_chain chain_iter" where
  "split_iter mem = \<lparr>iter_next = split_next mem, iter_count = split_count, iter_id = (\<lambda>_. None)\<rparr>"

section \<open>Packed descriptor chains\<close>

record packed_desc =
  packed_addr :: u64
  packed_len :: u32
  packed_id :: u16
  packed_flags :: u16

definition packed_desc_of :: "u8 list \<Rightarrow> packed_desc" where
  "packed_desc_of bs = \<lparr>packed_addr = le_word (take 8 bs), packed_len = le_word (take 4 (drop 8 bs)),
     packed_id = le_word (take 2 (drop 12 bs)), packed_flags = le_word (take 2 (drop 14 bs))\<rparr>"

definition has_next :: "packed_desc \<Rightarrow> bool" where
  "has_next d \<longleftrightarrow> packed_flags d AND 0x1 \<noteq> 0"

definition is_available :: "packed_desc \<Rightarrow> bool \<Rightarrow> bool" where
  "is_available d wrap =
     (let avail = packed_flags d AND 0x80 \<noteq> 0;
          used = packed_flags d AND 0x8000 \<noteq> 0
      in avail \<noteq> used \<and> avail = wrap)"

record packed_descriptor_chain =
  avail_wrap_counter :: bool
  packed_index :: "u16 option"
  packed_count :: u16
  packed_chain_id :: "u16 option"
  packed_queue_size :: u16
  packed_desc_table :: u64

definition packed_descriptor_chain_new :: "u64 \<Rightarrow> u16 \<Rightarrow> bool \<Rightarrow> u16 \<Rightarrow> packed_descriptor_chain" where
  "packed_descriptor_chain_new table queue_size wrap index =
     \<lparr>avail_wrap_counter = wrap, packed_index = Some index, packed_count = 0, packed_chain_id = None,
      packed_queue_size = queue_size, packed_desc_table = table\<rparr>"

definition packed_next :: "guest_memory \<Rightarrow> packed_descriptor_chain
    \<Rightarrow> packed_descriptor_chain \<times> (descriptor option, chain_error) result" where
  "packed_next mem c =
     (case packed_index c of
       None \<Rightarrow> (c, Ok None)
     | Some index \<Rightarrow>
         if index \<ge> packed_queue_size c then (c, Err (IndexOutOfBounds index (packed_queue_size c)))
         else if packed_count c \<ge> packed_queue_size c then (c, Err LoopDetected)
         else case checked_add (packed_desc_table c) (ucast index * 16) of
             None \<Rightarrow> (c, Err IntegerOverflow)
           | Some desc_addr \<Rightarrow>
               (case read_obj_from_addr mem 16 desc_addr of
                 Err e \<Rightarrow> (c, Err (DescReadFailed e))
               | Ok bytes \<Rightarrow>
                   let desc = packed_desc_of bytes;
                       unexpected_flags = packed_flags desc AND NOT (0x2 OR 0x1 OR 0x80 OR 0x8000)
                   in if \<not> is_available desc (avail_wrap_counter c) then (c, Ok None)
                      else if packed_len desc = 0 then (c, Err ZeroLengthDescriptor)
                      else if unexpected_flags \<noteq> 0 then (c, Err (UnexpectedFlags index unexpected_flags))
                      else
                        let c = (if has_next desc
                              then if index + 1 < packed_queue_size c then c\<lparr>packed_index := Some (index + 1)\<rparr>
                                else c\<lparr>packed_index := Some 0, avail_wrap_counter := \<not> avail_wrap_counter c\<rparr>
                              else c\<lparr>packed_chain_id := Some (packed_id desc), packed_index := None\<rparr>)
                        in (c\<lparr>packed_count := packed_count c + 1\<rparr>,
                          Ok (Some \<lparr>desc_address = packed_addr desc, desc_len = packed_len desc,
                            desc_access = (if packed_flags desc AND 0x2 \<noteq> 0 then DeviceWrite else DeviceRead)\<rparr>))))"

definition packed_iter :: "guest_memory \<Rightarrow> packed_descriptor_chain chain_iter" where
  "packed_iter mem = \<lparr>iter_next = packed_next mem, iter_count = packed_count, iter_id = packed_chain_id\<rparr>"

section \<open>The iterator contract\<close>

text \<open>What \<open>DescriptorChain::new\<close> needs of \<open>DescriptorChainIter\<close>: an iterator that yields a descriptor
  has counted it, and the count stays within the size of the queue.\<close>

locale descriptor_chain_iter =
  fixes it :: "'c chain_iter"
    and qsize :: "'c \<Rightarrow> u16"
  assumes next_counts: "iter_next it c = (c', Ok (Some d)) \<Longrightarrow>
      unat (iter_count it c') = unat (iter_count it c) + 1 \<and> iter_count it c' \<le> qsize c \<and> qsize c' = qsize c"
    and next_stops: "iter_next it c = (c', Ok None) \<Longrightarrow> iter_count it c' = iter_count it c \<and> qsize c' = qsize c"
begin

definition walk_bound :: "'c \<Rightarrow> nat" where
  "walk_bound c = unat (qsize c) - unat (iter_count it c)"

lemma bound_decreases: "iter_next it c = (c', Ok (Some d)) \<Longrightarrow> walk_bound c' < walk_bound c"
  using next_counts [of c c' d] by (auto simp: walk_bound_def word_le_nat_alt)

text \<open>One unfolding of the walk, by what the iterator yields.\<close>

lemma walk_step:
  assumes "chain_walk (iter_next it) c rd wr b = res"
  obtains c' e where "iter_next it c = (c', Err e)" "res = Some (Err e)"
  | c' where "iter_next it c = (c', Ok None)" "res = Some (Ok (c', rd, wr))"
  | c' d where "iter_next it c = (c', Ok (Some d))" "desc_len d = 0" "chain_walk (iter_next it) c' rd wr b = res"
  | c' d where "iter_next it c = (c', Ok (Some d))" "desc_access d = DeviceRead" "b" "res = Some (Err ReadableAfterWritable)"
  | c' d where "iter_next it c = (c', Ok (Some d))" "\<not> b"
      "chain_walk (iter_next it) c' (rd @ [\<lparr>mr_offset = desc_address d, mr_len = ucast (desc_len d)\<rparr>]) wr b = res"
  | c' d where "iter_next it c = (c', Ok (Some d))"
      "chain_walk (iter_next it) c' rd (wr @ [\<lparr>mr_offset = desc_address d, mr_len = ucast (desc_len d)\<rparr>]) True = res"
proof -
  obtain c' r where n: "iter_next it c = (c', r)" by (cases "iter_next it c")
  have unfold: "res = (case r of
         Err e \<Rightarrow> Some (Err e)
       | Ok None \<Rightarrow> Some (Ok (c', rd, wr))
       | Ok (Some desc) \<Rightarrow>
           (if desc_len desc = 0 then chain_walk (iter_next it) c' rd wr b
            else (case desc_access desc of
              DeviceRead \<Rightarrow>
                if b then Some (Err ReadableAfterWritable)
                else chain_walk (iter_next it) c'
                  (rd @ [\<lparr>mr_offset = desc_address desc, mr_len = ucast (desc_len desc)\<rparr>]) wr b
            | DeviceWrite \<Rightarrow> chain_walk (iter_next it) c' rd
                (wr @ [\<lparr>mr_offset = desc_address desc, mr_len = ucast (desc_len desc)\<rparr>]) True)))"
    using assms n by (subst (asm) chain_walk.simps) simp
  show thesis
  proof (cases r)
    case (Err e)
    then show thesis using that(1) n unfold by simp
  next
    case (Ok od)
    show thesis
    proof (cases od)
      case None
      then show thesis using that(2) n unfold Ok by simp
    next
      case (Some d)
      then show thesis using that(3-6) n unfold Ok
        by (cases "desc_len d = 0"; cases "desc_access d"; cases b) auto
    qed
  qed
qed

lemma walk_total: "\<exists>r. chain_walk (iter_next it) c rd wr b = Some r"
proof (induction "walk_bound c" arbitrary: c rd wr b rule: less_induct)
  case less
  note IH = less [OF bound_decreases]
  show ?case by (rule walk_step [OF refl, of c rd wr b]) (metis IH)+
qed

lemma walk_result:
  assumes "chain_walk (iter_next it) c rd wr b = Some (Ok (c', rd', wr'))"
    "iter_count it c \<le> qsize c" "\<forall>r \<in> set (rd @ wr). unat (mr_len r) < 2 ^ 32"
  shows "iter_count it c' \<le> qsize c \<and> iter_count it c \<le> iter_count it c' \<and>
    length rd' + length wr' \<le> length rd + length wr + (unat (iter_count it c') - unat (iter_count it c)) \<and>
    (\<forall>r \<in> set (rd' @ wr'). unat (mr_len r) < 2 ^ 32)"
  using assms
proof (induction "walk_bound c" arbitrary: c rd wr b rule: less_induct)
  case less
  have len: "unat (ucast (x :: u32) :: usize) < 2 ^ 32" for x
    using unat_bound [of x] by (simp add: unsigned_ucast_eq le_less_trans [OF take_bit_nat_less_eq_self])
  have step: "iter_count it c' \<le> qsize c \<and> iter_count it c \<le> iter_count it c' \<and>
      length rd' + length wr' \<le> length rd + length wr + (unat (iter_count it c') - unat (iter_count it c)) \<and>
      (\<forall>r \<in> set (rd' @ wr'). unat (mr_len r) < 2 ^ 32)"
    if n: "iter_next it c = (c1, Ok (Some d))" and w: "chain_walk (iter_next it) c1 rd1 wr1 b1 = Some (Ok (c', rd', wr'))"
      and l: "length rd1 + length wr1 \<le> length rd + length wr + 1" "\<forall>r \<in> set (rd1 @ wr1). unat (mr_len r) < 2 ^ 32"
    for c1 d rd1 wr1 b1
  proof -
    note c1 = next_counts [OF n]
    then have "iter_count it c1 \<le> qsize c1" by simp
    from less(1) [OF bound_decreases [OF n] w this l(2)] c1 l(1) show ?thesis
      by (auto simp: word_le_nat_alt)
  qed
  show ?case
  proof (rule walk_step [OF less(2)])
    fix c1 assume "iter_next it c = (c1, Ok None)" "Some (Ok (c', rd', wr')) = Some (Ok (c1, rd, wr))"
    then show ?case using next_stops [of c c1] less(3,4) by simp
  next
    fix c1 d assume a: "iter_next it c = (c1, Ok (Some d))" "chain_walk (iter_next it) c1 rd wr b = Some (Ok (c', rd', wr'))"
    show ?case by (rule step [OF a]) (use less(4) in auto)
  next
    fix c1 d assume a: "iter_next it c = (c1, Ok (Some d))"
      "chain_walk (iter_next it) c1 (rd @ [\<lparr>mr_offset = desc_address d, mr_len = ucast (desc_len d)\<rparr>]) wr b = Some (Ok (c', rd', wr'))"
    show ?case by (rule step [OF a]) (use less(4) len in auto)
  next
    fix c1 d assume a: "iter_next it c = (c1, Ok (Some d))"
      "chain_walk (iter_next it) c1 rd (wr @ [\<lparr>mr_offset = desc_address d, mr_len = ucast (desc_len d)\<rparr>]) True = Some (Ok (c', rd', wr'))"
    show ?case by (rule step [OF a]) (use less(4) len in auto)
  qed simp_all
qed

lemma chain_new_total: "\<exists>r. descriptor_chain_new it c mem idx = Some r"
  using walk_total [of c "[]" "[]" False] by (auto simp: descriptor_chain_new_def)

lemma chain_new_walk:
  assumes "descriptor_chain_new it c mem idx = Some (Ok dc)" "iter_count it c = 0"
  obtains c' where "chain_head dc = idx" "chain_count dc = iter_count it c'" "chain_id dc = iter_id it c'"
    "validate_mem_regions mem (readable dc) (writable dc) = Ok ()" "chain_count dc \<le> qsize c"
    "length (readable dc) + length (writable dc) \<le> unat (chain_count dc)"
    "\<forall>r \<in> set (readable dc @ writable dc). unat (mr_len r) < 2 ^ 32"
proof -
  obtain c' rd wr where w: "chain_walk (iter_next it) c [] [] False = Some (Ok (c', rd, wr))"
      "validate_mem_regions mem rd wr = Ok ()"
      "dc = \<lparr>chain_head = idx, readable = rd, writable = wr, chain_id = iter_id it c', chain_count = iter_count it c'\<rparr>"
    using assms(1) by (auto simp: descriptor_chain_new_def and_then_Ok split: bind_splits)
  from walk_result [OF w(1)] assms(2) show thesis using that [of c'] w(2,3) by auto
qed

end

lemma split_next_Some:
  assumes "split_next mem c = (c', Ok (Some d))"
  shows "split_count c' = split_count c + 1" "split_count c < split_queue_size c" "split_queue_size c' = split_queue_size c"
  using assms by (auto simp: split_next_def Let_def split: option.splits if_splits result.splits)

interpretation split_chain: descriptor_chain_iter "split_iter mem" split_queue_size for mem
proof
  fix c c' d assume "iter_next (split_iter mem) c = (c', Ok (Some d))"
  then have n: "split_next mem c = (c', Ok (Some d))" by (simp add: split_iter_def)
  note s = split_next_Some [OF n]
  have "unat (split_count c + 1) = unat (split_count c) + 1"
    using s(2) unat_bound [of "split_queue_size c"] unat_add_lem [of "split_count c" 1] by (auto simp: word_less_nat_alt)
  with s show "unat (iter_count (split_iter mem) c') = unat (iter_count (split_iter mem) c) + 1 \<and>
      iter_count (split_iter mem) c' \<le> split_queue_size c \<and> split_queue_size c' = split_queue_size c"
    by (simp add: split_iter_def word_less_nat_alt word_le_nat_alt)
next
  fix c c' assume "iter_next (split_iter mem) c = (c', Ok None)"
  then show "iter_count (split_iter mem) c' = iter_count (split_iter mem) c \<and> split_queue_size c' = split_queue_size c"
    by (auto simp: split_iter_def split_next_def Let_def split: option.splits if_splits result.splits)
qed

lemma packed_next_Some:
  assumes "packed_next mem c = (c', Ok (Some d))"
  shows "packed_count c' = packed_count c + 1" "packed_count c < packed_queue_size c" "packed_queue_size c' = packed_queue_size c"
  using assms by (auto simp: packed_next_def Let_def split: option.splits if_splits result.splits)

interpretation packed_chain: descriptor_chain_iter "packed_iter mem" packed_queue_size for mem
proof
  fix c c' d assume "iter_next (packed_iter mem) c = (c', Ok (Some d))"
  then have n: "packed_next mem c = (c', Ok (Some d))" by (simp add: packed_iter_def)
  note s = packed_next_Some [OF n]
  have "unat (packed_count c + 1) = unat (packed_count c) + 1"
    using s(2) unat_bound [of "packed_queue_size c"] unat_add_lem [of "packed_count c" 1] by (auto simp: word_less_nat_alt)
  with s show "unat (iter_count (packed_iter mem) c') = unat (iter_count (packed_iter mem) c) + 1 \<and>
      iter_count (packed_iter mem) c' \<le> packed_queue_size c \<and> packed_queue_size c' = packed_queue_size c"
    by (simp add: packed_iter_def word_less_nat_alt word_le_nat_alt)
next
  fix c c' assume "iter_next (packed_iter mem) c = (c', Ok None)"
  then show "iter_count (packed_iter mem) c' = iter_count (packed_iter mem) c \<and> packed_queue_size c' = packed_queue_size c"
    by (auto simp: packed_iter_def packed_next_def Let_def split: option.splits if_splits result.splits)
qed

section \<open>Validated chains\<close>

definition total_len :: "mem_region list \<Rightarrow> nat" where
  "total_len rs = sum_list (map (\<lambda>r. unat (mr_len r)) rs)"

lemma u32_usize:
  assumes "unat (x :: usize) < 2 ^ 32"
  shows "unat (ucast x :: u32) = unat x" "ucast (ucast x :: u32) = x"
proof -
  show u: "unat (ucast x :: u32) = unat x" using assms by (simp add: unsigned_ucast_eq take_bit_nat_eq_self)
  have "unat (ucast (ucast x :: u32) :: usize) = take_bit 64 (unat (ucast x :: u32))"
    by (subst unsigned_ucast_eq) simp
  then show "ucast (ucast x :: u32) = x" using assms unfolding u by (simp add: word_unat_eq_iff take_bit_nat_eq_self)
qed

lemma validate_regions_Ok:
  assumes "validate_regions mem t rs = Ok t'" "\<forall>r \<in> set rs. unat (mr_len r) < 2 ^ 32"
  shows "(\<forall>r \<in> set rs. is_valid_range mem (mr_offset r) (mr_len r)) \<and> unat t' = unat t + total_len rs"
  using assms
proof (induction rs arbitrary: t)
  case (Cons r rs)
  then have r: "unat (ucast (mr_len r) :: u32) = unat (mr_len r)" "ucast (ucast (mr_len r) :: u32) = mr_len r"
    using u32_usize [of "mr_len r"] by auto
  obtain s where "checked_add t (ucast (mr_len r)) = Some s" "validate_regions mem s rs = Ok t'"
      "is_valid_range mem (mr_offset r) (mr_len r)"
    using Cons.prems(1) r(2) by (auto simp: Let_def split: if_splits option.splits)
  then show ?case using Cons r(1) by (auto simp: rust_arith total_len_def)
qed (simp add: total_len_def)

lemma validate_mem_regions_Ok:
  assumes "validate_mem_regions mem rd wr = Ok ()" "\<forall>r \<in> set (rd @ wr). unat (mr_len r) < 2 ^ 32"
  shows "\<forall>r \<in> set (rd @ wr). is_valid_range mem (mr_offset r) (mr_len r)" "0 < total_len (rd @ wr)" "total_len (rd @ wr) < 2 ^ 32"
proof -
  obtain t where t: "validate_regions mem 0 (rd @ wr) = Ok t" "t \<noteq> 0"
    using assms(1) by (auto simp: validate_mem_regions_def and_then_Ok split: if_splits)
  note v = validate_regions_Ok [OF t(1) assms(2)]
  then show "\<forall>r \<in> set (rd @ wr). is_valid_range mem (mr_offset r) (mr_len r)" by blast
  show "0 < total_len (rd @ wr)" "total_len (rd @ wr) < 2 ^ 32"
    using v t(2) unat_bound [of t] by (auto simp: unat_gt_0 [symmetric])
qed

text \<open>What a device may rely on in a descriptor chain it is given.\<close>

definition chain_fine :: "guest_memory \<Rightarrow> u16 \<Rightarrow> u16 \<Rightarrow> descriptor_chain \<Rightarrow> bool" where
  "chain_fine mem queue_size idx dc \<longleftrightarrow>
     chain_head dc = idx \<and> chain_count dc \<le> queue_size \<and>
     length (readable dc) + length (writable dc) \<le> unat (chain_count dc) \<and>
     (\<forall>r \<in> set (readable dc @ writable dc). is_valid_range mem (mr_offset r) (mr_len r)) \<and>
     0 < total_len (readable dc @ writable dc) \<and> total_len (readable dc @ writable dc) < 2 ^ 32"

context descriptor_chain_iter
begin

lemma chain_new_fine:
  assumes "iter_count it c = 0"
  shows "\<exists>r. descriptor_chain_new it c mem idx = Some r \<and> (\<forall>dc. r = Ok dc \<longrightarrow> chain_fine mem (qsize c) idx dc)"
proof -
  obtain r where r: "descriptor_chain_new it c mem idx = Some r" using chain_new_total ..
  have "chain_fine mem (qsize c) idx dc" if "r = Ok dc" for dc
  proof (rule chain_new_walk [OF _ assms])
    show "descriptor_chain_new it c mem idx = Some (Ok dc)" using r that by simp
  qed (auto simp: chain_fine_def dest: validate_mem_regions_Ok)
  with r show ?thesis by blast
qed

end

section \<open>Properties\<close>

text \<open>C12: Collecting a descriptor chain always ends, whatever the guest has written into the descriptor
  table: a loop or an index outside the table is an error.  A chain that is accepted has at most as
  many buffers as the queue has descriptors, every buffer lies inside guest memory, and the lengths
  add up to a positive number below \<open>2 ^ 32\<close>.  This holds for split and for packed rings.\<close>

theorem descriptor_chain_ends:
  "(\<exists>r. descriptor_chain_new (split_iter mem) (split_descriptor_chain_new table queue_size idx) mem idx = Some r \<and>
      (\<forall>dc. r = Ok dc \<longrightarrow> chain_fine mem queue_size idx dc)) \<and>
   (\<exists>r. descriptor_chain_new (packed_iter mem) (packed_descriptor_chain_new table queue_size wrap idx) mem idx = Some r \<and>
      (\<forall>dc. r = Ok dc \<longrightarrow> chain_fine mem queue_size idx dc))"
  using split_chain.chain_new_fine [of mem "split_descriptor_chain_new table queue_size idx" mem idx]
    packed_chain.chain_new_fine [of mem "packed_descriptor_chain_new table queue_size wrap idx" mem idx]
  by (simp add: split_descriptor_chain_new_def packed_descriptor_chain_new_def split_iter_def packed_iter_def)

text \<open>A descriptor table of two entries: a read buffer that continues at the second, a write buffer; the
  looping table has a second entry that points back to the first.\<close>

definition demo_table :: "u8 \<Rightarrow> guest_memory" where
  "demo_table last_flags = \<lparr>regions = [\<lparr>guest_base = 0, mapping = \<lparr>host_ptr = 0x7f0000000000, map_size = 0x1000,
       contents = (\<lambda>i. if i < 32 then
         [0, 8, 0, 0, 0, 0, 0, 0, 0x10, 0, 0, 0, 1, 0, 1, 0,
          0, 9, 0, 0, 0, 0, 0, 0, 0x20, 0, 0, 0, last_flags, 0, 0, 0] ! unat i else 0)\<rparr>,
       shared_obj = Shm 1, obj_offset = 0, options = default_options\<rparr>],
     locked = False, protected = False\<rparr>"

theorem descriptor_chain_ends_witness:
  "\<exists>dc. descriptor_chain_new (split_iter (demo_table 2)) (split_descriptor_chain_new 0 2 0) (demo_table 2) 0 = Some (Ok dc) \<and>
    chain_fine (demo_table 2) 2 0 dc \<and> map mr_offset (readable dc) = [0x800] \<and> map mr_offset (writable dc) = [0x900] \<and>
    map_option (map_ok chain_count)
      (descriptor_chain_new (split_iter (demo_table 3)) (split_descriptor_chain_new 0 2 0) (demo_table 3) 0) = Some (Err LoopDetected)"
proof -
  have ok: "map_option (map_ok (\<lambda>dc. (map mr_offset (readable dc), map mr_offset (writable dc))))
      (descriptor_chain_new (split_iter (demo_table 2)) (split_descriptor_chain_new 0 2 0) (demo_table 2) 0) =
      Some (Ok ([0x800], [0x900]))" by code_simp
  have loop: "map_option (map_ok chain_count)
      (descriptor_chain_new (split_iter (demo_table 3)) (split_descriptor_chain_new 0 2 0) (demo_table 3) 0) =
      Some (Err LoopDetected)" by code_simp
  obtain r where r: "descriptor_chain_new (split_iter (demo_table 2)) (split_descriptor_chain_new 0 2 0) (demo_table 2) 0 = Some r"
      "\<forall>dc. r = Ok dc \<longrightarrow> chain_fine (demo_table 2) 2 0 dc"
    using descriptor_chain_ends [THEN conjunct1, of "demo_table 2" 0 2 0] by (elim exE conjE)
  obtain dc where dc: "r = Ok dc" "map mr_offset (readable dc) = [0x800]" "map mr_offset (writable dc) = [0x900]"
    using ok unfolding r(1) by (cases r) (simp_all only: option.map map_ok.simps option.inject result.inject result.distinct prod.inject)
  have "chain_fine (demo_table 2) 2 0 dc" using r(2) dc(1) by (elim allE impE)
  with loop dc r(1) show ?thesis by (intro exI conjI) simp_all
qed

end
