(* ===== verification/Split_Queue.thy ===== *)
theory Split_Queue
  imports Descriptor_Chain
begin

text \<open>
Split virtqueues: the configuration record of \<open>devices/src/virtio/queue.rs\<close> (\<open>QueueConfig\<close>) and the
queue of \<open>devices/src/virtio/queue/split_queue.rs\<close> (\<open>SplitQueue\<close>).  A queue acts on the guest memory that is
passed to its operations; the interrupt line is the list of vectors signalled so far.  The lemmas show
that a queue that could be built addresses only its own rings, what is pending in the available
ring and how the operations change it.  The properties: \<open>pop\<close> takes the oldest pending chain,
\<open>add_used\<close> publishes one buffer, and interrupts are suppressed exactly as negotiated.
\<close>

section \<open>Queue configuration\<close>

record queue_config =
  activated :: bool
  max_size :: u16
  cfg_size :: u16
  ready :: bool
  cfg_vector :: u16
  cfg_features :: u64
  acked_features :: u64
  cfg_desc_table :: u64
  cfg_avail_ring :: u64
  cfg_used_ring :: u64
  cfg_next_avail :: u16
  cfg_next_used :: u16

definition queue_config_new :: "u16 \<Rightarrow> u64 \<Rightarrow> queue_config option" where
  "queue_config_new max_sz feats = do {
     assert_that (max_sz > 0);
     assert_that (max_sz \<le> 32768);
     Some \<lparr>activated = False, max_size = max_sz, cfg_size = max_sz, ready = False, cfg_vector = 0xffff,
       cfg_features = feats, acked_features = 0, cfg_desc_table = 0, cfg_avail_ring = 0, cfg_used_ring = 0,
       cfg_next_avail = 0, cfg_next_used = 0\<rparr>
   }"

definition set_size :: "queue_config \<Rightarrow> u16 \<Rightarrow> queue_config" where
  "set_size c val =
     (if ready c then c else if val > max_size c then c else c\<lparr>cfg_size := val\<rparr>)"

definition set_vector :: "queue_config \<Rightarrow> u16 \<Rightarrow> queue_config" where
  "set_vector c val = (if ready c then c else c\<lparr>cfg_vector := val\<rparr>)"

definition set_desc_table :: "queue_config \<Rightarrow> u64 \<Rightarrow> queue_config" where
  "set_desc_table c val = (if ready c then c else c\<lparr>cfg_desc_table := val\<rparr>)"

definition set_avail_ring :: "queue_config \<Rightarrow> u64 \<Rightarrow> queue_config" where
  "set_avail_ring c val = (if ready c then c else c\<lparr>cfg_avail_ring := val\<rparr>)"

definition set_used_ring :: "queue_config \<Rightarrow> u64 \<Rightarrow> queue_config" where
  "set_used_ring c val = (if ready c then c else c\<lparr>cfg_used_ring := val\<rparr>)"

definition set_next_avail :: "queue_config \<Rightarrow> u16 \<Rightarrow> queue_config" where
  "set_next_avail c val = (if ready c then c else c\<lparr>cfg_next_avail := val\<rparr>)"

definition set_next_used :: "queue_config \<Rightarrow> u16 \<Rightarrow> queue_config" where
  "set_next_used c val = (if ready c then c else c\<lparr>cfg_next_used := val\<rparr>)"

definition ack_features :: "queue_config \<Rightarrow> u64 \<Rightarrow> queue_config" where
  "ack_features c feats = c\<lparr>acked_features := acked_features c OR (feats AND cfg_features c)\<rparr>"

definition set_ready :: "queue_config \<Rightarrow> bool \<Rightarrow> queue_config" where
  "set_ready c enable = c\<lparr>ready := enable\<rparr>"

definition queue_config_reset :: "queue_config \<Rightarrow> queue_config" where
  "queue_config_reset c = c\<lparr>activated := False, ready := False, cfg_size := max_size c, cfg_vector := 0xffff,
     cfg_desc_table := 0, cfg_avail_ring := 0, cfg_used_ring := 0, cfg_next_avail := 0, cfg_next_used := 0,
     acked_features := 0\<rparr>"

text \<open>The snapshot of a configuration has the same fields as the configuration.\<close>

definition queue_config_snapshot :: "queue_config \<Rightarrow> queue_config" where
  "queue_config_snapshot c = \<lparr>activated = activated c, max_size = max_size c, cfg_size = cfg_size c, ready = ready c,
     cfg_vector = cfg_vector c, cfg_features = cfg_features c, acked_features = acked_features c,
     cfg_desc_table = cfg_desc_table c, cfg_avail_ring = cfg_avail_ring c, cfg_used_ring = cfg_used_ring c,
     cfg_next_avail = cfg_next_avail c, cfg_next_used = cfg_next_used c\<rparr>"

definition queue_config_restore :: "queue_config \<Rightarrow> queue_config \<Rightarrow> queue_config" where
  "queue_config_restore c snap = c\<lparr>activated := activated snap, max_size := max_size snap, cfg_size := cfg_size snap,
     ready := ready snap, cfg_vector := cfg_vector snap, cfg_features := cfg_features snap,
     acked_features := acked_features snap, cfg_desc_table := cfg_desc_table snap,
     cfg_avail_ring := cfg_avail_ring snap, cfg_used_ring := cfg_used_ring snap,
     cfg_next_avail := cfg_next_avail snap, cfg_next_used := cfg_next_used snap\<rparr>"

datatype queue_error = NotPowerOfTwo u16 | RingOutOfBounds u64 usize | NotReady | AlreadyActivated
  | SnapshotNotImplemented

section \<open>Split queues\<close>

text \<open>Guest memory is shared with the driver, so it is an argument of the operations rather than a
  field; \<open>signals\<close> lists the vectors signalled to the guest, newest first.\<close>

record split_queue =
  sq_size :: u16
  vector :: u16
  desc_table :: u64
  avail_ring :: u64
  used_ring :: u64
  next_avail :: u16
  next_used :: u16
  features :: u64
  last_used :: u16
  signals :: "u16 list"

definition ring_sizes :: "u16 \<Rightarrow> u64 \<Rightarrow> u64 \<Rightarrow> u64 \<Rightarrow> (u64 \<times> usize) list" where
  "ring_sizes queue_size desc avail used =
     (let n = ucast queue_size :: usize in [(desc, 16 * n), (avail, 6 + 2 * n), (used, 6 + 8 * n)])"

fun check_rings :: "(u64 \<times> usize) list \<Rightarrow> (unit, queue_error) result" where
  "check_rings [] = Ok ()"
| "check_rings ((addr, sz) # rings) =
     (if checked_add addr sz = None then Err (RingOutOfBounds addr sz) else check_rings rings)"

definition split_queue_new :: "queue_config \<Rightarrow> (split_queue, queue_error) result" where
  "split_queue_new c =
     (if \<not> is_power_of_two (cfg_size c) then Err (NotPowerOfTwo (cfg_size c))
      else map_ok (\<lambda>_. \<lparr>sq_size = cfg_size c, vector = cfg_vector c, desc_table = cfg_desc_table c,
          avail_ring = cfg_avail_ring c, used_ring = cfg_used_ring c, next_avail = cfg_next_avail c,
          next_used = cfg_next_used c, features = acked_features c, last_used = 0, signals = []\<rparr>)
        (check_rings (ring_sizes (cfg_size c) (cfg_desc_table c) (cfg_avail_ring c) (cfg_used_ring c))))"

abbreviation read_u16 :: "guest_memory \<Rightarrow> u64 \<Rightarrow> (u16, guest_memory_error) result" where
  "read_u16 mem a \<equiv> map_ok le_word (read_obj_from_addr mem 2 a)"

abbreviation write_u16 :: "guest_memory \<Rightarrow> u16 \<Rightarrow> u64 \<Rightarrow> guest_memory" where
  "write_u16 mem v a \<equiv> fst (write_obj_at_addr mem (le_bytes 2 v) a)"

definition vhost_user_reclaim :: "guest_memory \<Rightarrow> split_queue \<Rightarrow> u16 \<Rightarrow> split_queue" where
  "vhost_user_reclaim mem q vring_base = q\<lparr>next_avail := vring_base,
     next_used := (case read_u16 mem (unchecked_add (used_ring q) 2) of Ok idx \<Rightarrow> idx | Err _ \<Rightarrow> 0),
     last_used := 0\<rparr>"

definition next_avail_to_process :: "split_queue \<Rightarrow> u16" where
  "next_avail_to_process q = next_avail q"

definition wrap_queue_index :: "split_queue \<Rightarrow> u16 \<Rightarrow> u16" where
  "wrap_queue_index q index = index AND (sq_size q - 1)"

definition get_avail_index :: "guest_memory \<Rightarrow> split_queue \<Rightarrow> u16" where
  "get_avail_index mem q =
     (case read_u16 mem (unchecked_add (avail_ring q) 2) of
       Ok avail_index \<Rightarrow> avail_index
     | Err _ \<Rightarrow> next_avail q)"

definition set_avail_event :: "guest_memory \<Rightarrow> split_queue \<Rightarrow> u16 \<Rightarrow> guest_memory" where
  "set_avail_event mem q avail_index =
     write_u16 mem avail_index (unchecked_add (used_ring q) (4 + 8 * ucast (sq_size q)))"

definition get_avail_flag :: "guest_memory \<Rightarrow> split_queue \<Rightarrow> u16 \<Rightarrow> bool" where
  "get_avail_flag mem q flag =
     (case read_u16 mem (avail_ring q) of
       Ok avail_flags \<Rightarrow> avail_flags AND flag = flag
     | Err _ \<Rightarrow> False)"

definition get_used_event :: "guest_memory \<Rightarrow> split_queue \<Rightarrow> u16" where
  "get_used_event mem q =
     (case read_u16 mem (unchecked_add (avail_ring q) (4 + 2 * ucast (sq_size q))) of
       Ok used_event \<Rightarrow> used_event
     | Err _ \<Rightarrow> 0)"

definition set_used_index :: "guest_memory \<Rightarrow> split_queue \<Rightarrow> u16 \<Rightarrow> guest_memory" where
  "set_used_index mem q used_index = write_u16 mem used_index (unchecked_add (used_ring q) 2)"

text \<open>The outer option of \<open>peek\<close> is the walk over the descriptor chain, which always returns; the
  inner one is the \<open>Option\<close> of the code.\<close>

definition peek :: "guest_memory \<Rightarrow> split_queue \<Rightarrow> descriptor_chain option option" where
  "peek mem q =
     (if next_avail q = get_avail_index mem q then Some None
      else case checked_add (avail_ring q) (4 + ucast (wrap_queue_index q (next_avail q)) * 2) of
          None \<Rightarrow> Some None
        | Some desc_idx_addr \<Rightarrow>
            (case read_u16 mem desc_idx_addr of
              Err _ \<Rightarrow> Some None
            | Ok descriptor_index \<Rightarrow> do {
                r \<leftarrow> descriptor_chain_new (split_iter mem)
                  (split_descriptor_chain_new (desc_table q) (sq_size q) descriptor_index) mem descriptor_index;
                Some (result_ok r)
              }))"

definition event_idx :: "u64 \<Rightarrow> bool" where
  "event_idx fs \<longleftrightarrow> fs AND push_bit 29 1 \<noteq> 0"

definition pop_peeked :: "guest_memory \<Rightarrow> split_queue \<Rightarrow> guest_memory \<times> split_queue" where
  "pop_peeked mem q =
     (let q = q\<lparr>next_avail := next_avail q + 1\<rparr>
      in (if event_idx (features q) then set_avail_event mem q (next_avail q) else mem, q))"

definition add_used :: "guest_memory \<Rightarrow> split_queue \<Rightarrow> u16 \<Rightarrow> u32 \<Rightarrow> guest_memory \<times> split_queue" where
  "add_used mem q desc_index l =
     (let used_elem = unchecked_add (used_ring q) (4 + ucast (wrap_queue_index q (next_used q)) * 8)
      in case write_obj_at_addr mem (le_bytes 4 (ucast desc_index :: u32) @ le_bytes 4 l) used_elem of
          (mem, Err _) \<Rightarrow> (mem, q)
        | (mem, Ok _) \<Rightarrow>
            let q = q\<lparr>next_used := next_used q + 1\<rparr> in (set_used_index mem q (next_used q), q))"

definition queue_wants_interrupt :: "guest_memory \<Rightarrow> split_queue \<Rightarrow> bool" where
  "queue_wants_interrupt mem q =
     (if event_idx (features q)
      then next_used q - get_used_event mem q - 1 < next_used q - last_used q
      else \<not> get_avail_flag mem q 0x1)"

definition trigger_interrupt :: "guest_memory \<Rightarrow> split_queue \<Rightarrow> split_queue \<times> bool" where
  "trigger_interrupt mem q =
     (if queue_wants_interrupt mem q
      then (q\<lparr>last_used := next_used q, signals := vector q # signals q\<rparr>, True)
      else (q, False))"

definition split_queue_snapshot :: "split_queue \<Rightarrow> split_queue" where
  "split_queue_snapshot q = \<lparr>sq_size = sq_size q, vector = vector q, desc_table = desc_table q,
     avail_ring = avail_ring q, used_ring = used_ring q, next_avail = next_avail q, next_used = next_used q,
     features = features q, last_used = last_used q, signals = []\<rparr>"

definition split_queue_restore :: "split_queue \<Rightarrow> split_queue" where
  "split_queue_restore s = \<lparr>sq_size = sq_size s, vector = vector s, desc_table = desc_table s,
     avail_ring = avail_ring s, used_ring = used_ring s, next_avail = next_avail s, next_used = next_used s,
     features = features s, last_used = last_used s, signals = []\<rparr>"

text \<open>\<open>Queue::pop\<close> for a split queue: peek, and take what was seen.\<close>

definition pop :: "guest_memory \<Rightarrow> split_queue \<Rightarrow> (guest_memory \<times> split_queue \<times> descriptor_chain option) option" where
  "pop mem q = do {
     c \<leftarrow> peek mem q;
     case c of
       None \<Rightarrow> Some (mem, q, None)
     | Some chain \<Rightarrow> (case pop_peeked mem q of (mem, q) \<Rightarrow> Some (mem, q, Some chain))
   }"

section \<open>Interrupt suppression\<close>

lemma ring_window:
  fixes n u l :: "'a::len word"
  shows "n - u - 1 < n - l \<longleftrightarrow> u - l < n - l"
proof -
  define d where "d = n - l"
  have u: "u - l = d - 1 - (n - u - 1)" and A: "n - u - 1 = d - 1 - (u - l)" unfolding d_def by simp_all
  have key: "d - 1 - x < d" if "x < d" for x
  proof -
    have lt: "unat x < unat d" using that by (simp add: word_less_nat_alt)
    have d1: "unat (d - 1) = unat d - 1" using lt by (subst unat_sub) (simp_all add: word_le_nat_alt)
    have "unat (d - 1 - x) = unat d - 1 - unat x" using lt d1 by (subst unat_sub) (simp_all add: word_le_nat_alt)
    then show ?thesis using lt by (simp add: word_less_nat_alt)
  qed
  have "u - l < d" if "n - u - 1 < d" using key [OF that] by (simp only: u)
  moreover have "n - u - 1 < d" if "u - l < d" using key [OF that] by (simp only: A)
  ultimately show ?thesis unfolding d_def by blast
qed

lemma window_index:
  fixes u l :: "'a::len word"
  shows "u - l < d \<longleftrightarrow> (\<exists>k < unat d. u = l + of_nat k)"
proof
  assume "u - l < d"
  then have "unat (u - l) < unat d" "u = l + of_nat (unat (u - l))" by (simp_all add: word_less_nat_alt)
  then show "\<exists>k < unat d. u = l + of_nat k" by blast
next
  assume "\<exists>k < unat d. u = l + of_nat k"
  then obtain k where k: "k < unat d" "u = l + of_nat k" by blast
  moreover have "unat (of_nat k :: 'a word) = k"
    using order_less_trans [OF k(1) unat_bound [of d]] by (simp add: unat_of_nat)
  ultimately show "u - l < d" by (simp add: word_less_nat_alt)
qed

section \<open>Well-formed split queues\<close>

text \<open>What \<open>SplitQueue::new\<close> checks: the size is a power of two and no ring wraps around.\<close>

definition sq_ok :: "split_queue \<Rightarrow> bool" where
  "sq_ok q \<longleftrightarrow> is_power_of_two (sq_size q) \<and>
     unat (desc_table q) + 16 * unat (sq_size q) < 2 ^ 64 \<and>
     unat (avail_ring q) + (6 + 2 * unat (sq_size q)) < 2 ^ 64 \<and>
     unat (used_ring q) + (6 + 8 * unat (sq_size q)) < 2 ^ 64"

lemma unat_ucast_u16: "unat (ucast (x :: u16) :: u64) = unat x"
  using unat_bound [of x] by (simp add: unsigned_ucast_eq take_bit_nat_eq_self)

lemma unat_of_nat_u64: "n < 2 ^ 64 \<Longrightarrow> unat (of_nat n :: u64) = n"
  by (simp add: unat_of_nat)

lemma unat_scaled:
  fixes x :: u16
  assumes "c \<le> 16" "k \<le> 16"
  shows "unat (of_nat c + of_nat k * ucast x :: u64) = c + k * unat x"
proof -
  have "unat x \<le> 65535" using unat_bound [of x] by simp
  with assms(2) have "k * unat x \<le> 16 * 65535" by (rule mult_le_mono)
  then have lt: "c + k * unat x < 2 ^ 64" using assms(1) by simp
  have "(of_nat (unat (ucast x :: u64)) :: u64) = ucast x" by simp
  then have "(of_nat c + of_nat k * ucast x :: u64) = of_nat (c + k * unat x)"
    unfolding unat_ucast_u16 by simp
  then show ?thesis using unat_of_nat_u64 [OF lt] by (simp only:)
qed

lemma wrap_index_less:
  assumes "sq_ok q"
  shows "wrap_queue_index q i < sq_size q" "unat (wrap_queue_index q i) = unat i mod unat (sq_size q)"
proof -
  obtain k where k: "k < 16" "sq_size q = 2 ^ k"
    using assms by (auto simp: sq_ok_def elim: is_power_of_twoE)
  have "sq_size q - 1 = mask k" using k by (simp add: mask_eq_exp_minus_1)
  then have u: "unat (wrap_queue_index q i) = unat i mod 2 ^ k"
    using unat_and_mask [of k i] by (simp add: wrap_queue_index_def and.commute)
  moreover have s: "unat (sq_size q) = 2 ^ k" using k by (simp add: unat_two_power)
  ultimately show "unat (wrap_queue_index q i) = unat i mod unat (sq_size q)" by simp
  show "wrap_queue_index q i < sq_size q" using u s by (simp add: word_less_nat_alt)
qed

lemma split_queue_new_ok:
  assumes "split_queue_new c = Ok q"
  shows "sq_ok q"
proof -
  have n: "unat (16 * ucast x :: u64) = 16 * unat x" "unat (6 + 2 * ucast x :: u64) = 6 + 2 * unat x"
    "unat (6 + 8 * ucast x :: u64) = 6 + 8 * unat x" for x :: u16
    using unat_scaled [of 0 16 x] unat_scaled [of 6 2 x] unat_scaled [of 6 8 x] by simp_all
  show ?thesis using assms
    by (auto simp: split_queue_new_def sq_ok_def ring_sizes_def Let_def map_ok_Ok rust_arith n split: if_splits)
qed

section \<open>The available ring as a queue\<close>

definition avail_slot :: "split_queue \<Rightarrow> u16 \<Rightarrow> u64" where
  "avail_slot q i = avail_ring q + (4 + ucast (wrap_queue_index q i) * 2)"

definition avail_entry :: "guest_memory \<Rightarrow> split_queue \<Rightarrow> u16 \<Rightarrow> (u16, guest_memory_error) result" where
  "avail_entry mem q i = read_u16 mem (avail_slot q i)"

text \<open>The heads the driver has made available and the device has not taken, oldest first.\<close>

definition pending :: "guest_memory \<Rightarrow> split_queue \<Rightarrow> (u16, guest_memory_error) result list" where
  "pending mem q = map (\<lambda>k. avail_entry mem q (next_avail q + of_nat k))
     [0..<unat (get_avail_index mem q - next_avail q)]"

lemma avail_slot_bounds:
  assumes "sq_ok q"
  shows "unat (avail_slot q i) = unat (avail_ring q) + (4 + 2 * unat (wrap_queue_index q i))"
    "checked_add (avail_ring q) (4 + ucast (wrap_queue_index q i) * 2) = Some (avail_slot q i)"
    "unat (avail_slot q i) + 4 \<le> unat (avail_ring q) + (6 + 2 * unat (sq_size q))"
proof -
  have w: "unat (wrap_queue_index q i) < unat (sq_size q)"
    using wrap_index_less(1) [OF assms] by (simp add: word_less_nat_alt)
  have u: "unat (4 + ucast (wrap_queue_index q i) * 2 :: u64) = 4 + 2 * unat (wrap_queue_index q i)"
    using unat_scaled [of 4 2 "wrap_queue_index q i"] by (simp add: mult.commute)
  have lt: "unat (avail_ring q) + (4 + 2 * unat (wrap_queue_index q i)) < 2 ^ 64"
    using assms w by (simp add: sq_ok_def)
  show a: "unat (avail_slot q i) = unat (avail_ring q) + (4 + 2 * unat (wrap_queue_index q i))"
    unfolding avail_slot_def using lt u unat_add_lem [of "avail_ring q" "4 + ucast (wrap_queue_index q i) * 2"] by simp
  show "checked_add (avail_ring q) (4 + ucast (wrap_queue_index q i) * 2) = Some (avail_slot q i)"
    using lt u by (simp add: checked_add_def avail_slot_def)
  show "unat (avail_slot q i) + 4 \<le> unat (avail_ring q) + (6 + 2 * unat (sq_size q))" using a w by simp
qed

lemma pending_Cons:
  assumes "next_avail q \<noteq> get_avail_index mem q"
  shows "pending mem q = avail_entry mem q (next_avail q) #
    map (\<lambda>k. avail_entry mem q (next_avail q + 1 + of_nat k)) [0..<unat (get_avail_index mem q - (next_avail q + 1))]"
proof -
  let ?d = "get_avail_index mem q - next_avail q"
  have "?d \<noteq> 0" using assms by auto
  then have pos: "unat ?d > 0" by (simp add: unat_gt_0)
  then have "unat (?d - 1) = unat ?d - 1" by (subst unat_sub) (simp_all add: word_le_nat_alt)
  with pos have "unat ?d = Suc (unat (get_avail_index mem q - (next_avail q + 1)))"
    by (simp add: diff_diff_eq [symmetric])
  then show ?thesis by (simp add: pending_def upt_conv_Cons map_Suc_upt [symmetric] add.assoc del: upt_Suc)
qed

text \<open>The field of the used ring that \<open>pop_peeked\<close> writes does not overlap the available ring.\<close>

definition rings_apart :: "split_queue \<Rightarrow> bool" where
  "rings_apart q \<longleftrightarrow> apart (used_ring q) (6 + 8 * unat (sq_size q)) (avail_ring q) (6 + 2 * unat (sq_size q))"

lemma avail_event_slot:
  assumes "sq_ok q"
  shows "unat (unchecked_add (used_ring q) (4 + 8 * ucast (sq_size q))) = unat (used_ring q) + (4 + 8 * unat (sq_size q))"
proof -
  have u: "unat (4 + 8 * ucast (sq_size q) :: u64) = 4 + 8 * unat (sq_size q)"
    using unat_scaled [of 4 8 "sq_size q"] by simp
  then show ?thesis
    using assms unat_add_lem [of "used_ring q" "4 + 8 * ucast (sq_size q)"]
    by (simp add: sq_ok_def unchecked_add_def)
qed

lemma unat_add_small:
  fixes a :: u64
  assumes "unat a + n < 2 ^ 64"
  shows "unat (a + of_nat n) = unat a + n"
  using assms unat_add_lem [of a "of_nat n"] by (simp add: unat_of_nat_u64)

lemma pop_peeked_frame:
  assumes "mem_ok mem" "sq_ok q" "rings_apart q" "pop_peeked mem q = (mem', q')"
    "unat (avail_ring q) \<le> unat b" "unat b + 2 \<le> unat (avail_ring q) + (6 + 2 * unat (sq_size q))"
  shows "read_obj_from_addr mem' 2 b = read_obj_from_addr mem 2 b"
proof (cases "event_idx (features q)")
  case True
  have "apart (unchecked_add (used_ring q) (4 + 8 * ucast (sq_size q))) (length (le_bytes 2 (next_avail q + 1))) b 2"
    using assms(3,5,6) unfolding apart_def rings_apart_def avail_event_slot [OF assms(2)] by auto
  from write_obj_read_frame [OF assms(1) _ _ this] True assms(4) show ?thesis
    by (auto simp: pop_peeked_def set_avail_event_def Let_def)
next
  case False
  then show ?thesis using assms(4) by (auto simp: pop_peeked_def)
qed

lemma peek_Some:
  assumes "sq_ok q" "peek mem q = Some (Some chain)"
  shows "next_avail q \<noteq> get_avail_index mem q" "avail_entry mem q (next_avail q) = Ok (chain_head chain)"
    "chain_fine mem (sq_size q) (chain_head chain) chain"
proof -
  let ?a = "avail_slot q (next_avail q)"
  show ne: "next_avail q \<noteq> get_avail_index mem q" using assms(2) by (auto simp: peek_def)
  obtain i r where i: "read_u16 mem ?a = Ok i" and r: "descriptor_chain_new (split_iter mem)
        (split_descriptor_chain_new (desc_table q) (sq_size q) i) mem i = Some r" "result_ok r = Some chain"
    using assms(2) ne
    by (auto simp: peek_def avail_slot_bounds(2) [OF assms(1)] split: result.splits bind_splits)
  from r(2) have "r = Ok chain" by (cases r) auto
  then have "chain_fine mem (sq_size q) i chain"
    using split_chain.chain_new_fine [of mem "split_descriptor_chain_new (desc_table q) (sq_size q) i" mem i] r(1)
    by (simp add: split_descriptor_chain_new_def split_iter_def)
  moreover from this have "chain_head chain = i" by (simp add: chain_fine_def)
  ultimately show "avail_entry mem q (next_avail q) = Ok (chain_head chain)"
    "chain_fine mem (sq_size q) (chain_head chain) chain" using i by (simp_all add: avail_entry_def)
qed

lemma peek_total: "\<exists>r. peek mem q = Some r"
proof -
  have "\<exists>r. descriptor_chain_new (split_iter mem) (split_descriptor_chain_new t s i) mem i = Some r" for t s i
    by (rule split_chain.chain_new_total)
  then show ?thesis by (auto simp: peek_def split: option.split result.split) (metis bind.bind_lunit)
qed

lemma pop_peeked_pending:
  assumes "mem_ok mem" "sq_ok q" "rings_apart q" "next_avail q \<noteq> get_avail_index mem q" "pop_peeked mem q = (mem', q')"
  shows "pending mem q = avail_entry mem q (next_avail q) # pending mem' q'" "mem_ok mem'" "sq_ok q'" "rings_apart q'"
proof -
  have q': "q' = q\<lparr>next_avail := next_avail q + 1\<rparr>" using assms(5) by (simp add: pop_peeked_def Let_def)
  then show "sq_ok q'" "rings_apart q'" using assms(2,3) by (simp_all add: sq_ok_def rings_apart_def)
  show "mem_ok mem'"
    using assms(1,5) write_obj_ok by (auto simp: pop_peeked_def set_avail_event_def Let_def)
  note frame = pop_peeked_frame [OF assms(1-3,5)]
  have idx: "unat (unchecked_add (avail_ring q) 2) = unat (avail_ring q) + 2"
    using unat_add_small [of "avail_ring q" 2] assms(2) by (simp add: sq_ok_def unchecked_add_def)
  have same: "read_obj_from_addr mem' 2 (unchecked_add (avail_ring q) 2) = read_obj_from_addr mem 2 (unchecked_add (avail_ring q) 2)"
    by (rule frame) (simp_all add: idx)
  have "is_ok (read_obj_from_addr mem 2 (unchecked_add (avail_ring q) 2))"
    using assms(4) by (cases "read_obj_from_addr mem 2 (unchecked_add (avail_ring q) 2)") (auto simp: get_avail_index_def)
  then have "get_avail_index mem' q' = get_avail_index mem q"
    using same q' by (cases "read_obj_from_addr mem 2 (unchecked_add (avail_ring q) 2)") (auto simp: get_avail_index_def)
  moreover have "avail_entry mem' q' i = avail_entry mem q i" for i
    using frame [of "avail_slot q i"] avail_slot_bounds(1,3) [OF assms(2), of i] q'
    by (simp add: avail_entry_def avail_slot_def wrap_queue_index_def)
  ultimately show "pending mem q = avail_entry mem q (next_avail q) # pending mem' q'"
    unfolding pending_Cons [OF assms(4)] using q' by (simp add: pending_def)
qed

section \<open>Properties\<close>

text \<open>C6: Popping refines a queue.  The heads that the driver has published and the device has not taken
  form a list; \<open>pop\<close> always returns, and when it yields a chain the chain starts at the first head of
  that list, is fit for use, and leaves exactly the rest of the list.  Ring indices wrap at
  \<open>2 ^ 16\<close> and slots at the size of the queue.  The rings are taken not to overlap.\<close>

theorem pop_takes_oldest:
  assumes "mem_ok mem" "sq_ok q" "rings_apart q"
  shows "\<exists>mem' q' r. pop mem q = Some (mem', q', r) \<and> mem_ok mem' \<and> sq_ok q' \<and> rings_apart q' \<and>
    (case r of
      None \<Rightarrow> mem' = mem \<and> q' = q
    | Some chain \<Rightarrow> chain_fine mem (sq_size q) (chain_head chain) chain \<and>
        pending mem q = Ok (chain_head chain) # pending mem' q')"
proof -
  obtain c where c: "peek mem q = Some c" using peek_total ..
  show ?thesis
  proof (cases c)
    case None
    then show ?thesis using c assms by (simp add: pop_def)
  next
    case (Some chain)
    obtain mem' q' where p: "pop_peeked mem q = (mem', q')" by (cases "pop_peeked mem q")
    note head = peek_Some [OF assms(2) c [unfolded Some]]
    note rest = pop_peeked_pending [OF assms head(1) p]
    show ?thesis using c Some p head rest by (simp add: pop_def)
  qed
qed

text \<open>A memory with a queue of two descriptors at address 0, an available ring at 0x100 that offers head 0
  and a used ring at 0x200.\<close>

definition demo_queue_mem :: guest_memory where
  "demo_queue_mem = \<lparr>regions = [\<lparr>guest_base = 0, mapping = \<lparr>host_ptr = 0x7f0000000000, map_size = 0x1000,
       contents = (\<lambda>i. if i < 16 then [0, 8, 0, 0, 0, 0, 0, 0, 0x10, 0, 0, 0, 0, 0, 0, 0] ! unat i
         else if i = 0x102 then 1 else 0)\<rparr>,
       shared_obj = Shm 1, obj_offset = 0, options = default_options\<rparr>],
     locked = False, protected = False\<rparr>"

definition demo_queue :: split_queue where
  "demo_queue = \<lparr>sq_size = 2, vector = 5, desc_table = 0, avail_ring = 0x100, used_ring = 0x200, next_avail = 0,
     next_used = 0, features = push_bit 29 1, last_used = 0, signals = []\<rparr>"

lemma demo_queue_ok: "mem_ok demo_queue_mem" "sq_ok demo_queue" "rings_apart demo_queue"
proof -
  show "mem_ok demo_queue_mem" by (simp add: mem_ok_def demo_queue_mem_def region_fits_def)
  show "sq_ok demo_queue" using is_power_of_twoI [of 1, where ?'a = 16] by (simp add: sq_ok_def demo_queue_def)
  show "rings_apart demo_queue" by (simp add: rings_apart_def demo_queue_def apart_def)
qed

theorem pop_takes_oldest_witness:
  "\<exists>mem' q' chain. pop demo_queue_mem demo_queue = Some (mem', q', Some chain) \<and> chain_head chain = 0 \<and>
    pending demo_queue_mem demo_queue = [Ok 0] \<and> pending mem' q' = []"
proof -
  have e: "map_option (\<lambda>(_, _, r). map_option chain_head r) (pop demo_queue_mem demo_queue) = Some (Some 0)"
    "length (pending demo_queue_mem demo_queue) = 1" by code_simp+
  obtain mem' q' r where p: "pop demo_queue_mem demo_queue = Some (mem', q', r)"
    "case r of None \<Rightarrow> mem' = demo_queue_mem \<and> q' = demo_queue
      | Some chain \<Rightarrow> chain_fine demo_queue_mem (sq_size demo_queue) (chain_head chain) chain \<and>
          pending demo_queue_mem demo_queue = Ok (chain_head chain) # pending mem' q'"
    using pop_takes_oldest [OF demo_queue_ok] by blast
  then obtain chain where "r = Some chain" "chain_head chain = 0" using e(1) by auto
  with p e(2) show ?thesis by auto
qed

text \<open>C24: Interrupt suppression.  With the event index negotiated, the wrapping comparison of
  \<open>queue_wants_interrupt\<close> holds exactly when the index the driver asked for is one of those used since
  the last notification; without it, exactly when the driver has not set the no-interrupt flag.
  After an interrupt the queue stays silent until more buffers are used.\<close>

theorem interrupt_suppression:
  "queue_wants_interrupt mem q = (if event_idx (features q)
      then \<exists>k < unat (next_used q - last_used q). get_used_event mem q = last_used q + of_nat k
      else \<not> get_avail_flag mem q 1) \<and>
   (case trigger_interrupt mem q of (q', fired) \<Rightarrow>
      fired = queue_wants_interrupt mem q \<and>
      signals q' = (if fired then [vector q] else []) @ signals q \<and>
      (fired \<and> event_idx (features q) \<longrightarrow> \<not> queue_wants_interrupt mem q'))"
proof -
  have "queue_wants_interrupt mem q = (if event_idx (features q)
      then \<exists>k < unat (next_used q - last_used q). get_used_event mem q = last_used q + of_nat k
      else \<not> get_avail_flag mem q 1)"
    unfolding queue_wants_interrupt_def ring_window by (simp add: window_index)
  then show ?thesis by (simp add: trigger_interrupt_def queue_wants_interrupt_def get_used_event_def)
qed

theorem interrupt_suppression_witness:
  "event_idx (features demo_queue) \<and> \<not> queue_wants_interrupt demo_queue_mem demo_queue \<and>
   queue_wants_interrupt demo_queue_mem (demo_queue\<lparr>next_used := 1\<rparr>) \<and>
   get_used_event demo_queue_mem (demo_queue\<lparr>next_used := 1\<rparr>) = 0 \<and>
   fst (trigger_interrupt demo_queue_mem (demo_queue\<lparr>next_used := 1\<rparr>)) = demo_queue\<lparr>next_used := 1, last_used := 1, signals := [5]\<rparr>"
proof -
  have e: "event_idx (features demo_queue)" "get_used_event demo_queue_mem demo_queue = 0"
    "get_used_event demo_queue_mem (demo_queue\<lparr>next_used := 1\<rparr>) = 0" by code_simp+
  have n: "\<not> queue_wants_interrupt demo_queue_mem demo_queue"
    using interrupt_suppression [of demo_queue_mem demo_queue] e by (simp add: demo_queue_def)
  have y: "queue_wants_interrupt demo_queue_mem (demo_queue\<lparr>next_used := 1\<rparr>)"
    using interrupt_suppression [of demo_queue_mem "demo_queue\<lparr>next_used := 1\<rparr>"] e by (simp add: demo_queue_def)
  show ?thesis using e n y by (simp add: trigger_interrupt_def) (simp add: demo_queue_def)
qed

lemma accessible_sub:
  assumes "mem_ok m" "accessible m a r" "k < room a r"
  shows "accessible m (a + of_nat k) r" "room (a + of_nat k) r = room a r - k"
proof -
  note c = contains_within_room [OF assms] and d = accessibleD [OF assms(1,2)]
  have f: "find (\<lambda>r. region_contains r (a + of_nat k)) (regions m) = Some r" by (rule find_containing [OF assms(1) d(2) c(1)])
  have "check_host_access m (a + of_nat k) = Ok ()"
    using assms(2) f d(1)
    by (auto simp: accessible_def check_host_access_def split: if_splits memory_region_purpose.splits)
  with f show "accessible m (a + of_nat k) r" by (simp add: accessible_def)
  have "unat (guest_base r) \<le> unat a" using d(3,4) by (simp add: region_contains_iff)
  then show "room (a + of_nat k) r = room a r - k"
    using offset_in_region(2) [OF d(4) c(1)] c(2) d(5) by (simp add: room_def)
qed

lemma write_obj_accessible:
  assumes "mem_ok m" "accessible m x s"
  obtains s' where "accessible (fst (write_obj_at_addr m val a)) x s'" "room x s' = room x s"
proof (cases rule: write_obj_cases [of m val a])
  case 1
  then show thesis using that assms(2) by simp
next
  case (2 r)
  show thesis
    using set_mapping_accessible [OF assms(1) accessibleD(1) [OF assms(1) 2(1)] mapping_write_obj_size assms(2)]
    by (intro that) (unfold 2(2), assumption+)
qed

lemma write_obj_succeeds:
  assumes "mem_ok m" "accessible m a r" "length val \<le> room a r" "length val < 2 ^ 64"
  obtains m' where "write_obj_at_addr m val a = (m', Ok ())" "mem_ok m'"
proof -
  obtain m' res where w: "write_obj_at_addr m val a = (m', res)" by (cases "write_obj_at_addr m val a")
  show thesis by (rule write_obj_bytes [OF assms(1,4) w]) (use that w assms(2,3) in auto)
qed

definition used_slot :: "split_queue \<Rightarrow> u16 \<Rightarrow> u64" where
  "used_slot q i = unchecked_add (used_ring q) (4 + ucast (wrap_queue_index q i) * 8)"

lemma used_slot_bounds:
  assumes "sq_ok q"
  shows "unat (used_slot q i) = unat (used_ring q) + (4 + 8 * unat (wrap_queue_index q i))"
    "used_slot q i = used_ring q + of_nat (4 + 8 * unat (wrap_queue_index q i))"
    "unat (wrap_queue_index q i) < unat (sq_size q)"
proof -
  show w: "unat (wrap_queue_index q i) < unat (sq_size q)"
    using wrap_index_less(1) [OF assms] by (simp add: word_less_nat_alt)
  have "(4 + ucast (wrap_queue_index q i) * 8 :: u64) = of_nat (4 + 8 * unat (wrap_queue_index q i))"
    unfolding word_unat_eq_iff using w unat_scaled [of 4 8 "wrap_queue_index q i"] assms
    by (subst unat_of_nat_u64) (simp_all add: mult.commute sq_ok_def)
  then show s: "used_slot q i = used_ring q + of_nat (4 + 8 * unat (wrap_queue_index q i))"
    unfolding used_slot_def unchecked_add_def by (simp only:)
  show "unat (used_slot q i) = unat (used_ring q) + (4 + 8 * unat (wrap_queue_index q i))"
    unfolding s using assms w by (intro unat_add_small) (simp add: sq_ok_def)
qed

text \<open>C7: Returning a buffer.  When the used ring is accessible, \<open>add_used\<close> stores the head and the length
  in the slot of the current used index, publishes the next index, changes no other slot, and leaves
  all memory outside the used ring alone.\<close>

theorem add_used_publishes:
  assumes ok: "mem_ok mem" "sq_ok q" and acc: "accessible mem (used_ring q) r" "6 + 8 * unat (sq_size q) \<le> room (used_ring q) r"
  shows "case add_used mem q i l of (mem', q') \<Rightarrow>
    mem_ok mem' \<and> q' = q\<lparr>next_used := next_used q + 1\<rparr> \<and>
    read_u16 mem' (unchecked_add (used_ring q) 2) = Ok (next_used q + 1) \<and>
    read_obj_from_addr mem' 8 (used_slot q (next_used q)) = Ok (le_bytes 4 (ucast i :: u32) @ le_bytes 4 l) \<and>
    (\<forall>j. wrap_queue_index q j \<noteq> wrap_queue_index q (next_used q) \<longrightarrow>
      read_obj_from_addr mem' 8 (used_slot q j) = read_obj_from_addr mem 8 (used_slot q j)) \<and>
    (\<forall>x. \<not> (unat (used_ring q) \<le> unat x \<and> unat x < unat (used_ring q) + (4 + 8 * unat (sq_size q))) \<longrightarrow>
      byte_at mem' x = byte_at mem x)"
proof -
  let ?val = "le_bytes 4 (ucast i :: u32) @ le_bytes 4 l" and ?slot = "used_slot q (next_used q)"
  let ?idx = "unchecked_add (used_ring q) 2" and ?n = "le_bytes 2 (next_used q + 1) :: u8 list"
  note s = used_slot_bounds [OF ok(2)]
  have idx: "?idx = used_ring q + of_nat 2" "unat ?idx = unat (used_ring q) + 2"
    using unat_add_small [of "used_ring q" 2] ok(2) by (simp_all add: unchecked_add_def sq_ok_def)
  have "4 + 8 * unat (wrap_queue_index q (next_used q)) < room (used_ring q) r" using acc(2) s(3) [of "next_used q"] by simp
  note sub = accessible_sub [OF ok(1) acc(1) this]
  have "length ?val \<le> room ?slot r" using sub(2) acc(2) s(3) [of "next_used q"] unfolding s(2) by simp
  then obtain m1 where m1: "write_obj_at_addr mem ?val ?slot = (m1, Ok ())" "mem_ok m1"
    by (rule write_obj_succeeds [OF ok(1) sub(1) [folded s(2)]]) simp
  have sub2: "accessible mem ?idx r" "2 \<le> room ?idx r"
    using accessible_sub [OF ok(1) acc(1), of 2] acc(2) unfolding idx(1) by simp_all
  obtain r1 where r1: "accessible m1 ?idx r1" "room ?idx r1 = room ?idx r"
    using write_obj_accessible [OF ok(1) sub2(1), of ?val ?slot] unfolding m1(1) fst_conv .
  have n2: "length ?n = 2" by simp
  obtain m2 where m2: "write_obj_at_addr m1 ?n ?idx = (m2, Ok ())" "mem_ok m2"
    using write_obj_succeeds [OF m1(2) r1(1), of ?n] sub2(2) r1(2) n2 by auto
  have eq: "add_used mem q i l = (m2, q\<lparr>next_used := next_used q + 1\<rparr>)"
    using m1(1) m2(1) by (simp add: add_used_def set_used_index_def used_slot_def)

  have rd: "read_obj_from_addr m2 2 ?idx = Ok ?n" using write_obj_read_back [OF m1(2) _ m2(1)] by simp
  have f2: "read_obj_from_addr m2 8 (used_slot q j) = read_obj_from_addr m1 8 (used_slot q j)" for j
    using write_obj_read_frame [OF m1(2), of ?n 8 ?idx "used_slot q j"] m2(1) idx(2) s(1) [of j] by (simp add: apart_def)
  have f1: "read_obj_from_addr m1 8 (used_slot q j) = read_obj_from_addr mem 8 (used_slot q j)"
    if "wrap_queue_index q j \<noteq> wrap_queue_index q (next_used q)" for j
  proof -
    have "unat (wrap_queue_index q j) \<noteq> unat (wrap_queue_index q (next_used q))" using that by (simp add: word_unat_eq_iff)
    then have "apart ?slot 8 (used_slot q j) 8" unfolding apart_def s(1) by auto
    then show ?thesis using write_obj_read_frame [OF ok(1), of ?val 8 ?slot "used_slot q j"] m1(1) by simp
  qed
  have out: "byte_at m2 x = byte_at mem x"
    if "\<not> (unat (used_ring q) \<le> unat x \<and> unat x < unat (used_ring q) + (4 + 8 * unat (sq_size q)))" for x
    using write_obj_byte_frame [OF m1(2), of ?n ?idx x] write_obj_byte_frame [OF ok(1), of ?val ?slot x] that
      m1(1) m2(1) idx(2) s(1,3) [of "next_used q"] by auto
  show ?thesis
    using eq m2(2) rd f1 f2 out write_obj_read_back [OF ok(1) _ m1(1)] by (simp add: le_roundtrip)
qed

theorem add_used_publishes_witness:
  "case add_used demo_queue_mem demo_queue 1 0x40 of (mem', q') \<Rightarrow>
    next_used q' = 1 \<and> read_u16 mem' 0x202 = Ok 1 \<and>
    read_obj_from_addr mem' 8 0x204 = Ok [1, 0, 0, 0, 0x40, 0, 0, 0] \<and>
    byte_at mem' 0x102 = byte_at demo_queue_mem 0x102"
proof -
  let ?r = "hd (regions demo_queue_mem)"
  have e: "next_used demo_queue = 0" "used_ring demo_queue = 0x200" "used_slot demo_queue 0 = 0x204" "sq_size demo_queue = 2"
    "le_bytes 4 (ucast (1 :: u16) :: u32) @ le_bytes 4 (0x40 :: u32) = [1, 0, 0, 0, 0x40, 0, 0, 0]"
    by code_simp+
  have a: "accessible demo_queue_mem 0x200 ?r" "6 + 8 * 2 \<le> room 0x200 ?r"
    by (simp_all add: accessible_def room_def demo_queue_mem_def check_host_access_def region_contains_def region_end_def unchecked_add_def)
  show ?thesis
    using add_used_publishes [OF demo_queue_ok(1,2), of ?r 1 "0x40 :: u32"] a unfolding e
    by (auto simp: unchecked_add_def)
qed

end
