(* ===== verification/Packed_Queue.thy ===== *)
theory Packed_Queue
  imports Split_Queue
begin

text \<open>
Packed virtqueues (\<open>devices/src/virtio/queue/packed_queue.rs\<close>) and the \<open>Queue\<close> of either kind with its
activation (\<open>devices/src/virtio/queue.rs\<close>).  A panic of the code (a failed \<open>expect\<close> or \<open>unwrap\<close>, or an
overflowing addition) is \<open>None\<close>.  The lemmas show that positions stay inside the ring; the properties are
that activated queues stay well formed, and two defects of the packed queue.
\<close>

section \<open>Ring positions\<close>

record packed_queue_index =
  wrap_counter :: bool
  pq_index :: u16

definition packed_queue_index_new :: "bool \<Rightarrow> u16 \<Rightarrow> packed_queue_index" where
  "packed_queue_index_new wrap index = \<lparr>wrap_counter = wrap, pq_index = index\<rparr>"

definition new_from_desc :: "u16 \<Rightarrow> packed_queue_index" where
  "new_from_desc desc = packed_queue_index_new (drop_bit 15 desc = 1) (desc AND 0x7fff)"

record packed_desc_event =
  event_desc :: u16
  event_flag :: u16

definition to_desc :: "packed_queue_index \<Rightarrow> packed_desc_event" where
  "to_desc i = \<lparr>event_desc = (if wrap_counter i then pq_index i OR push_bit 15 1 else pq_index i), event_flag = 2\<rparr>"

text \<open>\<open>index + index_value\<close> is a checked addition of the code: on overflow it panics.\<close>

definition add_index :: "packed_queue_index \<Rightarrow> u16 \<Rightarrow> u16 \<Rightarrow> packed_queue_index option" where
  "add_index i index_value sz = do {
     new_index \<leftarrow> checked_add (pq_index i) index_value;
     Some (if new_index < sz then i\<lparr>pq_index := new_index\<rparr>
       else i\<lparr>pq_index := new_index - sz, wrap_counter := \<not> wrap_counter i\<rparr>)
   }"

definition packed_queue_index_default :: packed_queue_index where
  "packed_queue_index_default = packed_queue_index_new True 0"

datatype packed_notification_type = Enable | Disable | Desc u16

definition notification_type :: "packed_desc_event \<Rightarrow> packed_notification_type" where
  "notification_type e =
     (if event_flag e = 1 then Disable
      else if event_flag e = 2 then Desc (event_desc e)
      else if event_flag e = 0 then Enable
      else Enable)"

section \<open>Packed queues\<close>

record packed_queue =
  pq_size :: u16
  pq_vector :: u16
  avail_index :: packed_queue_index
  use_index :: packed_queue_index
  signalled_used_index :: packed_queue_index
  pq_features :: u64
  pq_desc_table :: u64
  device_event_suppression :: u64
  driver_event_suppression :: u64
  pq_signals :: "u16 list"

definition area_sizes :: "u16 \<Rightarrow> u64 \<Rightarrow> u64 \<Rightarrow> u64 \<Rightarrow> (u64 \<times> usize) list" where
  "area_sizes queue_size desc driver device = [(desc, 16 * ucast queue_size), (driver, 4), (device, 4)]"

definition packed_queue_new :: "queue_config \<Rightarrow> (packed_queue, queue_error) result" where
  "packed_queue_new c =
     map_ok (\<lambda>_. \<lparr>pq_size = cfg_size c, pq_vector = cfg_vector c, avail_index = packed_queue_index_default,
         use_index = packed_queue_index_default, signalled_used_index = packed_queue_index_default,
         pq_features = acked_features c, pq_desc_table = cfg_desc_table c,
         device_event_suppression = cfg_used_ring c, driver_event_suppression = cfg_avail_ring c, pq_signals = []\<rparr>)
       (check_rings (area_sizes (cfg_size c) (cfg_desc_table c) (cfg_avail_ring c) (cfg_used_ring c)))"

definition packed_vhost_user_reclaim :: "packed_queue \<Rightarrow> u16 \<Rightarrow> packed_queue option" where
  "packed_vhost_user_reclaim q vring_base = None"

definition packed_next_avail_to_process :: "packed_queue \<Rightarrow> u16" where
  "packed_next_avail_to_process q = pq_index (avail_index q)"

definition packed_set_avail_event :: "guest_memory \<Rightarrow> packed_queue \<Rightarrow> packed_desc_event \<Rightarrow> guest_memory option" where
  "packed_set_avail_event mem q e =
     (case write_obj_at_addr mem (le_bytes 2 (event_desc e) @ le_bytes 2 (event_flag e)) (device_event_suppression q) of
       (mem, Ok _) \<Rightarrow> Some mem
     | (_, Err _) \<Rightarrow> None)"

definition get_driver_event :: "guest_memory \<Rightarrow> packed_queue \<Rightarrow> packed_desc_event option" where
  "get_driver_event mem q =
     (case read_obj_from_addr mem 4 (driver_event_suppression q) of
       Ok bs \<Rightarrow> Some \<lparr>event_desc = le_word (take 2 bs), event_flag = le_word (drop 2 bs)\<rparr>
     | Err _ \<Rightarrow> None)"

definition packed_peek :: "guest_memory \<Rightarrow> packed_queue \<Rightarrow> descriptor_chain option option" where
  "packed_peek mem q = do {
     desc_addr \<leftarrow> checked_add (pq_desc_table q) (ucast (pq_index (avail_index q)) * 16);
     case read_obj_from_addr mem 16 desc_addr of
       Err _ \<Rightarrow> Some None
     | Ok bytes \<Rightarrow>
         if \<not> is_available (packed_desc_of bytes) (wrap_counter (avail_index q)) then Some None
         else do {
           r \<leftarrow> descriptor_chain_new (packed_iter mem)
             (packed_descriptor_chain_new (pq_desc_table q) (pq_size q) (wrap_counter (avail_index q)) (pq_index (avail_index q)))
             mem (pq_index (avail_index q));
           Some (result_ok r)
         }
   }"

definition packed_pop_peeked :: "guest_memory \<Rightarrow> packed_queue \<Rightarrow> descriptor_chain \<Rightarrow> (guest_memory \<times> packed_queue) option" where
  "packed_pop_peeked mem q chain = do {
     i \<leftarrow> add_index (avail_index q) (chain_count chain) (pq_size q);
     let q = q\<lparr>avail_index := i\<rparr>;
     if event_idx (pq_features q) then do {
       mem \<leftarrow> packed_set_avail_event mem q (to_desc i);
       Some (mem, q)
     } else Some (mem, q)
   }"

definition write_or_panic :: "guest_memory \<Rightarrow> u8 list \<Rightarrow> u64 option \<Rightarrow> guest_memory option" where
  "write_or_panic mem val a = do {
     a \<leftarrow> a;
     case write_obj_at_addr mem val a of (mem, Ok _) \<Rightarrow> Some mem | (_, Err _) \<Rightarrow> None
   }"

definition packed_add_used :: "guest_memory \<Rightarrow> packed_queue \<Rightarrow> descriptor_chain \<Rightarrow> u32
    \<Rightarrow> (guest_memory \<times> packed_queue) option" where
  "packed_add_used mem q chain l =
     (if chain_head chain \<ge> pq_size q then Some (mem, q)
      else do {
        id \<leftarrow> chain_id chain;
        desc_addr \<leftarrow> checked_add (pq_desc_table q) (ucast (pq_index (use_index q)) * 16);
        mem \<leftarrow> write_or_panic mem (le_bytes 4 l) (checked_add desc_addr 8);
        mem \<leftarrow> write_or_panic mem (le_bytes 2 id) (checked_add desc_addr 12);
        let flags = (if wrap_counter (use_index q) then 0x8000 OR 0x80 else 0 :: u16);
        let flags = (if l > 0 then flags OR 0x2 else flags);
        mem \<leftarrow> write_or_panic mem (le_bytes 2 flags) (Some (unchecked_add desc_addr 14));
        i \<leftarrow> add_index (use_index q) (chain_count chain) (pq_size q);
        Some (mem, q\<lparr>use_index := i\<rparr>)
      })"

text \<open>The value of the \<open>match\<close> is dropped by a semicolon; only the early return and the update of
  \<open>signalled_used_index\<close> remain of it.\<close>

definition packed_queue_wants_interrupt :: "guest_memory \<Rightarrow> packed_queue \<Rightarrow> (packed_queue \<times> bool) option" where
  "packed_queue_wants_interrupt mem q = do {
     driver_event \<leftarrow> get_driver_event mem q;
     case notification_type driver_event of
       Enable \<Rightarrow> Some (q, True)
     | Disable \<Rightarrow> Some (q, True)
     | Desc desc \<Rightarrow>
         if \<not> event_idx (pq_features q) then Some (q, True)
         else Some (q\<lparr>signalled_used_index := use_index q\<rparr>, True)
   }"

definition packed_trigger_interrupt :: "guest_memory \<Rightarrow> packed_queue \<Rightarrow> (packed_queue \<times> bool) option" where
  "packed_trigger_interrupt mem q = do {
     (q, wants) \<leftarrow> packed_queue_wants_interrupt mem q;
     Some (if wants then (q\<lparr>pq_signals := pq_vector q # pq_signals q\<rparr>, True) else (q, False))
   }"

definition packed_ack_features :: "packed_queue \<Rightarrow> u64 \<Rightarrow> packed_queue" where
  "packed_ack_features q feats = q\<lparr>pq_features := pq_features q OR feats\<rparr>"

definition packed_snapshot :: "packed_queue \<Rightarrow> (packed_queue, queue_error) result" where
  "packed_snapshot q = Err SnapshotNotImplemented"

definition packed_restore :: "split_queue \<Rightarrow> (packed_queue, queue_error) result" where
  "packed_restore s = Err SnapshotNotImplemented"

section \<open>Queues of either kind\<close>

datatype queue = SplitVirtQueue split_queue | PackedVirtQueue packed_queue

definition activate :: "queue_config \<Rightarrow> queue_config \<times> (queue, queue_error) result" where
  "activate c =
     (if \<not> ready c then (c, Err NotReady)
      else if activated c then (c, Err AlreadyActivated)
      else case (if drop_bit 34 (acked_features c) AND 1 \<noteq> 0 then map_ok PackedVirtQueue (packed_queue_new c)
          else map_ok SplitVirtQueue (split_queue_new c)) of
        Err e \<Rightarrow> (c, Err e)
      | Ok queue \<Rightarrow> (c\<lparr>activated := True\<rparr>, Ok queue))"

fun queue_peek :: "guest_memory \<Rightarrow> queue \<Rightarrow> descriptor_chain option option" where
  "queue_peek mem (SplitVirtQueue q) = peek mem q"
| "queue_peek mem (PackedVirtQueue q) = packed_peek mem q"

fun peeked_pop :: "guest_memory \<Rightarrow> queue \<Rightarrow> descriptor_chain \<Rightarrow> (guest_memory \<times> queue) option" where
  "peeked_pop mem (SplitVirtQueue q) chain = (case pop_peeked mem q of (mem, q) \<Rightarrow> Some (mem, SplitVirtQueue q))"
| "peeked_pop mem (PackedVirtQueue q) chain = map_option (map_prod id PackedVirtQueue) (packed_pop_peeked mem q chain)"

definition queue_pop :: "guest_memory \<Rightarrow> queue \<Rightarrow> (guest_memory \<times> queue \<times> descriptor_chain option) option" where
  "queue_pop mem q = do {
     c \<leftarrow> queue_peek mem q;
     case c of
       None \<Rightarrow> Some (mem, q, None)
     | Some chain \<Rightarrow> do { (mem, q) \<leftarrow> peeked_pop mem q chain; Some (mem, q, Some chain) }
   }"

fun queue_add_used :: "guest_memory \<Rightarrow> queue \<Rightarrow> descriptor_chain \<Rightarrow> u32 \<Rightarrow> (guest_memory \<times> queue) option" where
  "queue_add_used mem (SplitVirtQueue q) chain l =
     (case add_used mem q (chain_head chain) l of (mem, q) \<Rightarrow> Some (mem, SplitVirtQueue q))"
| "queue_add_used mem (PackedVirtQueue q) chain l = map_option (map_prod id PackedVirtQueue) (packed_add_used mem q chain l)"

fun queue_trigger_interrupt :: "guest_memory \<Rightarrow> queue \<Rightarrow> (queue \<times> bool) option" where
  "queue_trigger_interrupt mem (SplitVirtQueue q) = Some (map_prod SplitVirtQueue id (trigger_interrupt mem q))"
| "queue_trigger_interrupt mem (PackedVirtQueue q) = map_option (map_prod PackedVirtQueue id) (packed_trigger_interrupt mem q)"

fun queue_vhost_user_reclaim :: "guest_memory \<Rightarrow> queue \<Rightarrow> u16 \<Rightarrow> queue option" where
  "queue_vhost_user_reclaim mem (SplitVirtQueue q) base = Some (SplitVirtQueue (vhost_user_reclaim mem q base))"
| "queue_vhost_user_reclaim mem (PackedVirtQueue q) base = map_option PackedVirtQueue (packed_vhost_user_reclaim q base)"

fun queue_next_avail_to_process :: "queue \<Rightarrow> u16" where
  "queue_next_avail_to_process (SplitVirtQueue q) = next_avail_to_process q"
| "queue_next_avail_to_process (PackedVirtQueue q) = packed_next_avail_to_process q"

fun queue_snapshot :: "queue \<Rightarrow> (queue, queue_error) result" where
  "queue_snapshot (SplitVirtQueue q) = Ok (SplitVirtQueue (split_queue_snapshot q))"
| "queue_snapshot (PackedVirtQueue q) = map_ok PackedVirtQueue (packed_snapshot q)"

text \<open>Only split queues have snapshots, so the value handed to \<open>Queue::restore\<close> is one of those.\<close>

definition queue_restore :: "queue_config \<Rightarrow> split_queue \<Rightarrow> (queue, queue_error) result" where
  "queue_restore c s =
     (if acked_features c AND push_bit 34 1 \<noteq> 0 then map_ok PackedVirtQueue (packed_restore s)
      else Ok (SplitVirtQueue (split_queue_restore s)))"

section \<open>Well-formed queues\<close>

text \<open>A queue of size zero can be activated; its positions stay at zero.\<close>

definition pq_index_ok :: "u16 \<Rightarrow> packed_queue_index \<Rightarrow> bool" where
  "pq_index_ok sz i \<longleftrightarrow> unat (pq_index i) \<le> unat sz - 1"

definition pq_ok :: "packed_queue \<Rightarrow> bool" where
  "pq_ok q \<longleftrightarrow> unat (pq_size q) \<le> 32768 \<and> unat (pq_desc_table q) + 16 * unat (pq_size q) < 2 ^ 64 \<and>
     pq_index_ok (pq_size q) (avail_index q) \<and> pq_index_ok (pq_size q) (use_index q)"

fun queue_ok :: "queue \<Rightarrow> bool" where
  "queue_ok (SplitVirtQueue q) = sq_ok q"
| "queue_ok (PackedVirtQueue q) = pq_ok q"

fun queue_size :: "queue \<Rightarrow> u16" where
  "queue_size (SplitVirtQueue q) = sq_size q"
| "queue_size (PackedVirtQueue q) = pq_size q"

text \<open>Advancing by at most the size of the ring neither overflows nor leaves the ring.\<close>

lemma add_index_total:
  assumes "pq_index_ok sz i" "n \<le> sz" "unat sz \<le> 32768"
  obtains j where "add_index i n sz = Some j" "pq_index_ok sz j"
proof -
  have lt: "unat (pq_index i) + unat n < 2 ^ 16" using assms by (simp add: pq_index_ok_def word_le_nat_alt)
  then have u: "unat (pq_index i + n) = unat (pq_index i) + unat n" using unat_add_lem [of "pq_index i" n] by simp
  have s: "unat (pq_index i + n - sz) = unat (pq_index i) + unat n - unat sz" if "\<not> pq_index i + n < sz"
    using that u by (subst unat_sub) (simp_all add: word_le_nat_alt word_less_nat_alt)
  show thesis
  proof (cases "pq_index i + n < sz")
    case True
    then show thesis using that lt u by (simp add: add_index_def checked_add_def pq_index_ok_def word_less_nat_alt)
  next
    case False
    then show thesis
      using that lt s [OF False] assms by (auto simp: add_index_def checked_add_def pq_index_ok_def word_le_nat_alt)
  qed
qed

lemma packed_desc_addr:
  assumes "pq_ok q" "pq_index_ok (pq_size q) i"
  obtains a where "checked_add (pq_desc_table q) (ucast (pq_index i) * 16) = Some a"
proof (cases "checked_add (pq_desc_table q) (ucast (pq_index i) * 16)")
  case None
  then have "2 ^ 64 \<le> unat (pq_desc_table q) + 16 * unat (pq_index i)"
    using unat_scaled [of 0 16 "pq_index i"] by (simp add: rust_arith mult.commute)
  then show thesis using assms by (auto simp: pq_ok_def pq_index_ok_def)
qed (use that in blast)

lemma packed_peek_total:
  assumes "pq_ok q"
  shows "\<exists>r. packed_peek mem q = Some r"
proof -
  obtain a where a: "checked_add (pq_desc_table q) (ucast (pq_index (avail_index q)) * 16) = Some a"
    using assms packed_desc_addr by (metis pq_ok_def)
  have "\<exists>r. descriptor_chain_new (packed_iter mem) (packed_descriptor_chain_new t s w i) mem i = Some r" for t s w i
    by (rule packed_chain.chain_new_total)
  then show ?thesis using a by (auto simp: packed_peek_def split: result.split) (metis bind.bind_lunit)
qed

lemma packed_peek_fine:
  assumes "packed_peek mem q = Some (Some chain)"
  shows "chain_fine mem (pq_size q) (pq_index (avail_index q)) chain"
proof -
  obtain a where a: "checked_add (pq_desc_table q) (ucast (pq_index (avail_index q)) * 16) = Some a"
    using assms by (auto simp: packed_peek_def bind_eq_Some_conv)
  obtain bs where "read_obj_from_addr mem 16 a = Ok bs"
    using assms a by (cases "read_obj_from_addr mem 16 a") (auto simp: packed_peek_def)
  with a assms packed_chain.chain_new_fine [of mem "packed_descriptor_chain_new (pq_desc_table q) (pq_size q)
      (wrap_counter (avail_index q)) (pq_index (avail_index q))" mem "pq_index (avail_index q)"] show ?thesis
    by (auto simp: packed_peek_def packed_descriptor_chain_new_def packed_iter_def bind_eq_Some_conv split: if_splits)
qed

lemma packed_queue_new_ok:
  assumes "packed_queue_new c = Ok q" "cfg_size c \<le> 32768"
  shows "pq_ok q"
proof -
  have "unat (16 * ucast x :: u64) = 16 * unat x" for x :: u16 using unat_scaled [of 0 16 x] by simp
  with assms show ?thesis
    by (auto simp: packed_queue_new_def pq_ok_def pq_index_ok_def packed_queue_index_default_def
        packed_queue_index_new_def area_sizes_def map_ok_Ok rust_arith word_le_nat_alt split: if_splits)
qed

lemma packed_pop_peeked_ok:
  assumes "pq_ok q" "chain_count chain \<le> pq_size q" "packed_pop_peeked mem q chain = Some (mem', q')"
  shows "pq_ok q' \<and> pq_size q' = pq_size q"
proof -
  obtain j where "add_index (avail_index q) (chain_count chain) (pq_size q) = Some j" "pq_index_ok (pq_size q) j"
    using add_index_total [of "pq_size q" "avail_index q" "chain_count chain"] assms(1,2) unfolding pq_ok_def by blast
  then show ?thesis using assms(1,3) by (auto simp: packed_pop_peeked_def pq_ok_def Let_def bind_eq_Some_conv split: if_splits)
qed

lemma packed_add_used_ok:
  assumes "pq_ok q" "chain_count chain \<le> pq_size q" "packed_add_used mem q chain l = Some (mem', q')"
  shows "pq_ok q' \<and> pq_size q' = pq_size q"
proof -
  obtain j where "add_index (use_index q) (chain_count chain) (pq_size q) = Some j" "pq_index_ok (pq_size q) j"
    using add_index_total [of "pq_size q" "use_index q" "chain_count chain"] assms(1,2) unfolding pq_ok_def by blast
  then show ?thesis using assms(1,3) by (auto simp: packed_add_used_def pq_ok_def Let_def bind_eq_Some_conv split: if_splits)
qed

lemma packed_trigger_interrupt_cases:
  obtains "get_driver_event mem q = None" "packed_trigger_interrupt mem q = None"
  | e s where "get_driver_event mem q = Some e"
    "packed_trigger_interrupt mem q = Some (q\<lparr>signalled_used_index := s, pq_signals := pq_vector q # pq_signals q\<rparr>, True)"
proof (cases "get_driver_event mem q")
  case (Some e)
  define s where "s = (case notification_type e of Desc _ \<Rightarrow> if event_idx (pq_features q) then use_index q
      else signalled_used_index q | _ \<Rightarrow> signalled_used_index q)"
  show thesis
    by (rule that(2) [OF Some, of s], cases "notification_type e"; cases "event_idx (pq_features q)")
      (simp_all add: s_def Some packed_trigger_interrupt_def packed_queue_wants_interrupt_def)
qed (use that(1) in \<open>simp add: packed_trigger_interrupt_def packed_queue_wants_interrupt_def\<close>)

lemma packed_trigger_interrupt_ok:
  assumes "pq_ok q" "packed_trigger_interrupt mem q = Some (q', b)"
  shows "pq_ok q' \<and> pq_size q' = pq_size q"
  by (rule packed_trigger_interrupt_cases [of mem q]) (use assms in \<open>auto simp: pq_ok_def\<close>)

section \<open>The life of a queue\<close>

text \<open>The driver configures the queue, the device activates it once, and then the device works on it
  while the driver may change guest memory at any time: every operation is given a memory of its own.\<close>

inductive configured :: "queue_config \<Rightarrow> bool" where
  new: "queue_config_new max_sz feats = Some c \<Longrightarrow> configured c"
| size: "configured c \<Longrightarrow> configured (set_size c val)"
| vector: "configured c \<Longrightarrow> configured (set_vector c val)"
| desc_table: "configured c \<Longrightarrow> configured (set_desc_table c a)"
| avail_ring: "configured c \<Longrightarrow> configured (set_avail_ring c a)"
| used_ring: "configured c \<Longrightarrow> configured (set_used_ring c a)"
| next_avail: "configured c \<Longrightarrow> configured (set_next_avail c val)"
| next_used: "configured c \<Longrightarrow> configured (set_next_used c val)"
| features: "configured c \<Longrightarrow> configured (ack_features c feats)"
| ready: "configured c \<Longrightarrow> configured (set_ready c enable)"
| reset: "configured c \<Longrightarrow> configured (queue_config_reset c)"
| activate: "configured c \<Longrightarrow> configured (fst (activate c))"
| restore: "configured c \<Longrightarrow> configured s \<Longrightarrow> configured (queue_config_restore c (queue_config_snapshot s))"

inductive queue_step :: "queue \<Rightarrow> queue \<Rightarrow> bool" where
  pop: "queue_pop mem q = Some (mem', q', r) \<Longrightarrow> queue_step q q'"
| add_used: "chain_count chain \<le> queue_size q \<Longrightarrow> queue_add_used mem q chain l = Some (mem', q') \<Longrightarrow> queue_step q q'"
| trigger: "queue_trigger_interrupt mem q = Some (q', b) \<Longrightarrow> queue_step q q'"
| reclaim: "queue_vhost_user_reclaim mem q base = Some q' \<Longrightarrow> queue_step q q'"

lemma configured_size: "configured c \<Longrightarrow> cfg_size c \<le> max_size c \<and> max_size c \<le> 32768"
  by (induction rule: configured.induct)
    (auto simp: queue_config_new_def assert_that_def set_size_def set_vector_def set_desc_table_def set_avail_ring_def
      set_used_ring_def set_next_avail_def set_next_used_def ack_features_def set_ready_def queue_config_reset_def
      activate_def queue_config_restore_def queue_config_snapshot_def bind_eq_Some_conv not_less
      split: if_splits result.splits)

lemma activate_ok:
  assumes "configured c" "activate c = (c', Ok q)"
  shows "queue_ok q" "queue_size q = cfg_size c" "c' = c\<lparr>activated := True\<rparr>" "ready c"
proof -
  have sz: "cfg_size c \<le> 32768" using configured_size [OF assms(1)] by auto
  note d = assms(2) [unfolded activate_def]
  show "queue_ok q" using d sz by (auto simp: map_ok_Ok split_queue_new_ok packed_queue_new_ok split: if_splits result.splits)
  show "queue_size q = cfg_size c"
    using d by (auto simp: map_ok_Ok split_queue_new_def packed_queue_new_def split: if_splits result.splits)
  show "c' = c\<lparr>activated := True\<rparr>" "ready c" using d by (auto split: if_splits result.splits)
qed

lemma queue_peek_fine:
  assumes "queue_ok q" "queue_peek mem q = Some (Some chain)"
  shows "chain_fine mem (queue_size q) (chain_head chain) chain"
proof (cases q)
  case (SplitVirtQueue sq)
  with assms show ?thesis by (auto dest: peek_Some)
next
  case (PackedVirtQueue pq)
  with assms have "chain_fine mem (pq_size pq) (pq_index (avail_index pq)) chain" by (auto dest: packed_peek_fine)
  moreover from this have "chain_head chain = pq_index (avail_index pq)" by (simp add: chain_fine_def)
  ultimately show ?thesis using PackedVirtQueue by simp
qed

lemma queue_peek_total: "queue_ok q \<Longrightarrow> \<exists>r. queue_peek mem q = Some r"
  by (cases q) (auto intro: peek_total packed_peek_total)

lemma peeked_pop_ok:
  assumes "queue_ok q" "chain_count chain \<le> queue_size q" "peeked_pop mem q chain = Some (mem', q')"
  shows "queue_ok q' \<and> queue_size q' = queue_size q"
  using assms by (cases q)
    (auto simp: pop_peeked_def Let_def sq_ok_def dest: packed_pop_peeked_ok)

lemma queue_step_ok:
  assumes "queue_step q q'" "queue_ok q"
  shows "queue_ok q' \<and> queue_size q' = queue_size q"
  using assms
proof (induction rule: queue_step.induct)
  case (pop mem q mem' q' r)
  obtain c where c: "queue_peek mem q = Some c" using queue_peek_total [OF pop(2)] by blast
  then show ?case
    using pop queue_peek_fine [OF pop(2), of mem] peeked_pop_ok [OF pop(2), of _ mem mem' q']
    by (cases c) (auto simp: queue_pop_def chain_fine_def bind_eq_Some_conv)
next
  case (add_used chain q mem l mem' q')
  then show ?case
    by (cases q) (auto simp: Split_Queue.add_used_def sq_ok_def Let_def
        dest: packed_add_used_ok split: prod.splits result.splits)
next
  case (trigger mem q q' b)
  then show ?case
    by (cases q) (auto simp: trigger_interrupt_def sq_ok_def dest: packed_trigger_interrupt_ok split: if_splits)
next
  case (reclaim mem q base q')
  then show ?case by (cases q) (auto simp: vhost_user_reclaim_def sq_ok_def packed_vhost_user_reclaim_def)
qed

section \<open>Properties\<close>

text \<open>C8: Queues are well formed for life.  Whatever the driver writes to the configuration, a queue that
  \<open>activate\<close> returns has the configured size, and after any sequence of queue operations, with
  guest memory changing arbitrarily between them, its rings do not wrap around and its positions lie
  inside the ring; peeking then never panics and only returns well-formed chains.  A second
  activation is refused.\<close>

theorem activated_queue_well_formed:
  assumes "configured c" "activate c = (c', Ok q)" "queue_step\<^sup>*\<^sup>* q q'"
  shows "queue_ok q' \<and> queue_size q' = cfg_size c \<and>
    (\<exists>r. queue_peek mem q' = Some r \<and> (\<forall>chain. r = Some chain \<longrightarrow> chain_fine mem (cfg_size c) (chain_head chain) chain)) \<and>
    activate c' = (c', Err AlreadyActivated)"
proof -
  note a = activate_ok [OF assms(1,2)]
  have ok: "queue_ok q' \<and> queue_size q' = queue_size q"
    using assms(3) a(1) by (induction rule: rtranclp_induct) (auto dest: queue_step_ok)
  then obtain r where r: "queue_peek mem q' = Some r" using queue_peek_total by blast
  have "\<forall>chain. r = Some chain \<longrightarrow> chain_fine mem (cfg_size c) (chain_head chain) chain"
    using queue_peek_fine [of q' mem] ok r a(2) by auto
  then show ?thesis using ok r a by (simp add: activate_def)
qed

definition demo_packed_config :: queue_config where
  "demo_packed_config = set_ready (set_used_ring (set_avail_ring (set_desc_table (ack_features
     (the (queue_config_new 2 (push_bit 34 1))) (push_bit 34 1)) 0) 0x100) 0x200) True"

lemma demo_packed_configured: "configured demo_packed_config"
proof -
  have "queue_config_new 2 (push_bit 34 1) = Some (the (queue_config_new 2 (push_bit 34 1)))"
    by (simp add: queue_config_new_def assert_that_def)
  from configured.new [OF this] show ?thesis unfolding demo_packed_config_def 
    by (intro configured.ready configured.used_ring configured.avail_ring configured.desc_table configured.features)
qed

text \<open>One buffer that announces a second one, which the driver has not made available.\<close>

definition demo_packed_mem :: guest_memory where
  "demo_packed_mem = \<lparr>regions = [\<lparr>guest_base = 0, mapping = \<lparr>host_ptr = 0x7f0000000000, map_size = 0x1000,
       contents = (\<lambda>i. if i < 16 then [0, 8, 0, 0, 0, 0, 0, 0, 0x10, 0, 0, 0, 0, 0, 0x81, 0] ! unat i
         else if i = 0x102 then 1 else 0)\<rparr>,
       shared_obj = Shm 1, obj_offset = 0, options = default_options\<rparr>],
     locked = False, protected = False\<rparr>"

definition demo_packed_queue :: packed_queue where
  "demo_packed_queue = \<lparr>pq_size = 2, pq_vector = 0xffff, avail_index = packed_queue_index_default,
     use_index = packed_queue_index_default, signalled_used_index = packed_queue_index_default,
     pq_features = push_bit 34 1, pq_desc_table = 0, device_event_suppression = 0x200,
     driver_event_suppression = 0x100, pq_signals = []\<rparr>"

lemma demo_packed_activate:
  "activate demo_packed_config = (fst (activate demo_packed_config), Ok (PackedVirtQueue demo_packed_queue))"
proof -
  have "snd (activate demo_packed_config) = Ok (PackedVirtQueue demo_packed_queue)" by code_simp
  then show ?thesis by (cases "activate demo_packed_config") simp
qed

theorem activated_queue_well_formed_witness:
  "queue_ok (PackedVirtQueue demo_packed_queue) \<and> cfg_size demo_packed_config = 2 \<and>
   (\<exists>r. queue_peek demo_packed_mem (PackedVirtQueue demo_packed_queue) = Some r)"
proof -
  have "cfg_size demo_packed_config = 2" by code_simp
  then show ?thesis
    using activated_queue_well_formed [OF demo_packed_configured demo_packed_activate rtranclp.rtrancl_refl,
        of demo_packed_mem] by blast
qed

text \<open>C34: Packed queues do not suppress interrupts.  If the driver's event area can be read, every call of
  \<open>trigger_interrupt\<close> signals the queue's vector, whatever the area says, even when the driver has
  disabled notifications; if it cannot be read, the call panics.\<close>

theorem packed_interrupts_never_suppressed:
  "(case read_obj_from_addr mem 4 (driver_event_suppression q) of
     Ok _ \<Rightarrow> \<exists>q'. packed_trigger_interrupt mem q = Some (q', True) \<and> pq_signals q' = pq_vector q # pq_signals q
   | Err _ \<Rightarrow> packed_trigger_interrupt mem q = None) \<and>
   map_option notification_type (get_driver_event demo_packed_mem demo_packed_queue) = Some Disable"
proof -
  have "map_option notification_type (get_driver_event demo_packed_mem demo_packed_queue) = Some Disable" by code_simp
  then show ?thesis
    by (cases rule: packed_trigger_interrupt_cases [of mem q]) (auto simp: get_driver_event_def split: result.splits)
qed


end
