(* ===== verification/Spec2Isabelle.thy ===== *)
theory Spec2Isabelle
  imports Irq_Requests Machine Packed_Queue
begin

text \<open>Verification of the resource management of the crosvm virtual machine monitor.\<close>

end
